(* ===== verification/FT_Prelude.thy ===== *)
theory FT_Prelude
  imports Main "HOL-Library.Word" "HOL-Library.Multiset"
begin

text \<open>
  Shared vocabulary of the development: the fixed-width integer types of
  \<^verbatim>\<open>stdint.h\<close>, the decimal conversions of \<^verbatim>\<open>printf\<close> and \<^verbatim>\<open>sscanf\<close> that the tools
  use, the theorem collections the component theories fill, and the generic
  facts on lists and words that more than one component needs.

  Conventions of all theories: a C array of records is a list, a pointer into it
  is an index (\<open>nat\<close>), the one-past-the-end pointer is the length of the list, and
  \<^verbatim>\<open>NULL\<close> is \<open>None\<close>.  A function that would leave the bounds of an array
  returns an \<open>option\<close> whose \<open>None\<close> stands for the undefined behaviour.
\<close>

section \<open>Fixed-width integers\<close>

type_synonym u8 = "8 word"
type_synonym u16 = "16 word"
type_synonym u32 = "32 word"
type_synonym u48 = "48 word"
type_synonym u64 = "64 word"

text \<open>Facts that unfold the event identifiers, the seqno arithmetic and the frame
  conditions of the state-passing operations.\<close>

named_theorems event_ids
named_theorems seqno_arith
named_theorems frame

section \<open>Decimal numbers as text\<close>

definition digit_char :: "nat \<Rightarrow> char" where
  "digit_char d = char_of (48 + d)"

fun dec :: "nat \<Rightarrow> string" where
  "dec n = (if n < 10 then [digit_char n] else dec (n div 10) @ [digit_char (n mod 10)])"

declare dec.simps [simp del]

definition is_digit :: "char \<Rightarrow> bool" where
  "is_digit c \<longleftrightarrow> 48 \<le> (of_char c :: nat) \<and> (of_char c :: nat) \<le> 57"

definition is_space :: "char \<Rightarrow> bool" where
  "is_space c \<longleftrightarrow> (of_char c :: nat) = 32 \<or> (9 \<le> (of_char c :: nat) \<and> (of_char c :: nat) \<le> 13)"

definition digit_val :: "char \<Rightarrow> nat" where
  "digit_val c = (of_char c :: nat) - 48"

definition num_val :: "string \<Rightarrow> nat" where
  "num_val cs = foldl (\<lambda>n c. 10 * n + digit_val c) 0 cs"

lemma of_char_digit_char: "d < 10 \<Longrightarrow> (of_char (digit_char d) :: nat) = 48 + d"
  by (simp add: digit_char_def)

lemma digit_char_facts [simp]:
  assumes "d < 10"
  shows "is_digit (digit_char d)" and "digit_val (digit_char d) = d"
    and "\<not> is_space (digit_char d)"
  using assms by (auto simp: is_digit_def digit_val_def is_space_def of_char_digit_char)

lemma num_val_snoc: "num_val (cs @ [c]) = 10 * num_val cs + digit_val c"
  by (simp add: num_val_def)

lemma dec_nonempty [simp]: "dec n \<noteq> []"
  by (subst dec.simps) simp

lemma dec_digits: "\<forall>c \<in> set (dec n). is_digit c"
proof (induction n rule: dec.induct)
  case (1 n)
  then show ?case by (subst dec.simps) auto
qed

lemma num_val_dec [simp]: "num_val (dec n) = n"
proof (induction n rule: dec.induct)
  case (1 n)
  show ?case
  proof (cases "n < 10")
    case True
    then show ?thesis by (subst dec.simps) (simp add: num_val_def)
  next
    case False
    with 1 show ?thesis by (subst dec.simps) (simp add: num_val_snoc)
  qed
qed

lemma digit_not_space: "is_digit c \<Longrightarrow> \<not> is_space c"
  by (auto simp: is_digit_def is_space_def)

section \<open>Lists indexed by pointers\<close>

text \<open>Exchanging two cells of an array keeps its contents as a multiset.\<close>

lemma mset_exchange:
  assumes "i < length xs" and "j < length xs"
  shows "mset (xs[i := xs ! j, j := xs ! i]) = mset xs"
  using assms by (simp add: mset_swap)

lemma filter_drop_nth:
  "i < length xs \<Longrightarrow> filter P (drop i xs) =
     (if P (xs ! i) then [xs ! i] else []) @ filter P (drop (Suc i) xs)"
  by (simp add: Cons_nth_drop_Suc [symmetric])

lemma filter_none: "(\<And>x. x \<in> set xs \<Longrightarrow> \<not> P x) \<Longrightarrow> filter P xs = []"
  by (simp add: filter_False)

lemma ex_nth_iff: "(\<exists>i < length xs. P (xs ! i)) \<longleftrightarrow> (\<exists>x \<in> set xs. P x)"
  by (metis in_set_conv_nth)

section \<open>Words\<close>

lemma word_unat_bound8 [simp]: "unat (w :: u8) < 256"
  using unsigned_less [where 'a = nat, of w] by simp

lemma unat_bound32: "unat (w :: u32) < 4294967296"
  using unsigned_less [where 'a = nat, of w] by simp

text \<open>Reduction modulo \<open>2 ^ 32\<close> of values at most one period away.\<close>

lemma mod32_below:
  fixes x :: int
  assumes "- 4294967296 \<le> x" and "x < 4294967296"
  shows "x mod 4294967296 = (if 0 \<le> x then x else x + 4294967296)"
proof (cases "0 \<le> x")
  case False
  have "x mod 4294967296 = (x + 4294967296) mod 4294967296" by simp
  also have "\<dots> = x + 4294967296" using assms False by (intro mod_pos_pos_trivial) simp_all
  finally show ?thesis using False by simp
qed (use assms in simp)

lemma mod32_above:
  fixes x :: int
  assumes "0 \<le> x" and "x < 8589934592"
  shows "x mod 4294967296 = (if x < 4294967296 then x else x - 4294967296)"
proof (cases "x < 4294967296")
  case False
  have "x mod 4294967296 = (x - 4294967296) mod 4294967296" by (simp add: mod_diff_right_eq)
  also have "\<dots> = x - 4294967296" using assms False by (intro mod_pos_pos_trivial) simp_all
  finally show ?thesis using False by simp
qed (use assms in simp)

lemma uint_bound32: "0 \<le> uint (w :: u32) \<and> uint w < 4294967296"
  using unsigned_less [where 'a = int, of w] by simp

lemma unat_diff32: "unat (a - b :: u32) =
    (if unat b \<le> unat a then unat a - unat b else unat a + 4294967296 - unat b)"
  by (simp add: unat_sub_if_size word_size)

lemma unat_add_mod32: "unat (a + b :: u32) = (unat a + unat b) mod 4294967296"
  by (simp add: unat_word_ariths)

text \<open>A 48-bit time stamp promoted to \<^verbatim>\<open>uint64_t\<close>.\<close>

lemma unat_ucast48 [simp]: "unat (ucast (x :: u48) :: u64) = unat x"
proof -
  have "unat x < 2 ^ 48" using unsigned_less [where 'a = nat, of x] by simp
  then have "take_bit 64 (unat x) = unat x" by (simp add: take_bit_nat_eq_self)
  then show ?thesis by (simp add: unsigned_ucast_eq)
qed

lemma ucast48_less [simp]: "(ucast (x :: u48) :: u64) < ucast y \<longleftrightarrow> x < y"
  by (simp add: word_less_nat_alt)

end
