(* ===== verification/Timestamp.thy ===== *)
theory Timestamp
  imports FT_Prelude
begin

text \<open>
  The binary record of Feather-Trace (\<^verbatim>\<open>include/timestamp.h\<close>), the event
  identifiers, and the name table with its two lookups (\<^verbatim>\<open>src/timestamp.c\<close>).

  The bit fields keep their widths.  An event identifier is read as the promoted
  integer (\<open>unat\<close> of the 8-bit field); \<^verbatim>\<open>cmd_t\<close> is \<^verbatim>\<open>uint32_t\<close>.
\<close>

section \<open>The record\<close>

record timestamp =
  ts_timestamp :: u48
  ts_pid :: u16
  ts_seq_no :: u32
  ts_cpu :: u8
  ts_event :: u8
  ts_task_type :: "2 word"
  ts_irq_flag :: "1 word"
  ts_irq_count :: "5 word"

text \<open>\<^verbatim>\<open>enum task_type_marker\<close>, by its integer values.\<close>

definition TSK_BE :: nat where [event_ids]: "TSK_BE = 0"
definition TSK_RT :: nat where [event_ids]: "TSK_RT = 1"
definition TSK_UNKNOWN :: nat where [event_ids]: "TSK_UNKNOWN = 2"

text \<open>The 8-bit event field promoted to \<^verbatim>\<open>int\<close>, and the C truth value of the
  interrupt flag.\<close>

definition ev :: "timestamp \<Rightarrow> nat" where
  "ev r = unat (ts_event r)"

definition irq :: "timestamp \<Rightarrow> bool" where
  "irq r \<longleftrightarrow> ts_irq_flag r \<noteq> 0"

definition task_type :: "timestamp \<Rightarrow> nat" where
  "task_type r = unat (ts_task_type r)"

section \<open>Event identifiers\<close>

definition TS_SYSCALL_IN_START :: nat where [event_ids]: "TS_SYSCALL_IN_START = 10"
definition TS_SYSCALL_IN_END :: nat where [event_ids]: "TS_SYSCALL_IN_END = 11"
definition TS_SYSCALL_OUT_START :: nat where [event_ids]: "TS_SYSCALL_OUT_START = 20"
definition TS_SYSCALL_OUT_END :: nat where [event_ids]: "TS_SYSCALL_OUT_END = 21"
definition SUSPENSION_RANGE :: nat where [event_ids]: "SUSPENSION_RANGE = 30"
definition TS_LOCK_START :: nat where [event_ids]: "TS_LOCK_START = 30"
definition TS_LOCK_END :: nat where [event_ids]: "TS_LOCK_END = 31"
definition TS_READ_LOCK_START :: nat where [event_ids]: "TS_READ_LOCK_START = 32"
definition TS_READ_LOCK_END :: nat where [event_ids]: "TS_READ_LOCK_END = 33"
definition TS_LOCK_SUSPEND :: nat where [event_ids]: "TS_LOCK_SUSPEND = 38"
definition TS_LOCK_RESUME :: nat where [event_ids]: "TS_LOCK_RESUME = 39"
definition TS_UNLOCK_START :: nat where [event_ids]: "TS_UNLOCK_START = 40"
definition TS_UNLOCK_END :: nat where [event_ids]: "TS_UNLOCK_END = 41"
definition TS_READ_UNLOCK_START :: nat where [event_ids]: "TS_READ_UNLOCK_START = 42"
definition TS_READ_UNLOCK_END :: nat where [event_ids]: "TS_READ_UNLOCK_END = 43"
definition PID_RECORDS_RANGE :: nat where [event_ids]: "PID_RECORDS_RANGE = 99"
definition TS_SCHED_START :: nat where [event_ids]: "TS_SCHED_START = 100"
definition TS_SCHED_END :: nat where [event_ids]: "TS_SCHED_END = 101"
definition TS_SCHED2_START :: nat where [event_ids]: "TS_SCHED2_START = 102"
definition TS_SCHED2_END :: nat where [event_ids]: "TS_SCHED2_END = 103"
definition TS_CXS_START :: nat where [event_ids]: "TS_CXS_START = 104"
definition TS_CXS_END :: nat where [event_ids]: "TS_CXS_END = 105"
definition TS_RELEASE_START :: nat where [event_ids]: "TS_RELEASE_START = 106"
definition TS_RELEASE_END :: nat where [event_ids]: "TS_RELEASE_END = 107"
definition TS_XCALL_START :: nat where [event_ids]: "TS_XCALL_START = 108"
definition TS_XCALL_END :: nat where [event_ids]: "TS_XCALL_END = 109"
definition TS_TICK_START :: nat where [event_ids]: "TS_TICK_START = 110"
definition TS_TICK_END :: nat where [event_ids]: "TS_TICK_END = 111"
definition TS_QUANTUM_BOUNDARY_START :: nat where [event_ids]: "TS_QUANTUM_BOUNDARY_START = 112"
definition TS_QUANTUM_BOUNDARY_END :: nat where [event_ids]: "TS_QUANTUM_BOUNDARY_END = 113"
definition TS_SCHED_TIMER_START :: nat where [event_ids]: "TS_SCHED_TIMER_START = 114"
definition TS_SCHED_TIMER_END :: nat where [event_ids]: "TS_SCHED_TIMER_END = 115"
definition TS_PLUGIN_SCHED_START :: nat where [event_ids]: "TS_PLUGIN_SCHED_START = 120"
definition TS_PLUGIN_SCHED_END :: nat where [event_ids]: "TS_PLUGIN_SCHED_END = 121"
definition TS_PLUGIN_TICK_START :: nat where [event_ids]: "TS_PLUGIN_TICK_START = 130"
definition TS_PLUGIN_TICK_END :: nat where [event_ids]: "TS_PLUGIN_TICK_END = 131"
definition TS_SEND_RESCHED_START :: nat where [event_ids]: "TS_SEND_RESCHED_START = 190"
definition TS_SEND_RESCHED_END :: nat where [event_ids]: "TS_SEND_RESCHED_END = 191"
definition TS_SEND_XCALL_START :: nat where [event_ids]: "TS_SEND_XCALL_START = 192"
definition TS_SEND_XCALL_END :: nat where [event_ids]: "TS_SEND_XCALL_END = 193"
definition SINGLE_RECORDS_RANGE :: nat where [event_ids]: "SINGLE_RECORDS_RANGE = 200"
definition TS_RELEASE_LATENCY :: nat where [event_ids]: "TS_RELEASE_LATENCY = 208"
definition TS_TIMER_LATENCY :: nat where [event_ids]: "TS_TIMER_LATENCY = 209"

section \<open>Names of events\<close>

text \<open>The \<^verbatim>\<open>EVENT\<close> macro: one entry for the start, one for the end of a pair.\<close>

definition EVENT :: "string \<Rightarrow> nat \<Rightarrow> nat \<Rightarrow> (string \<times> u32) list" where
  "EVENT name s e = [(name @ ''_START'', of_nat s), (name @ ''_END'', of_nat e)]"

definition event_table :: "(string \<times> u32) list" where
  "event_table =
     EVENT ''SCHED'' TS_SCHED_START TS_SCHED_END @
     EVENT ''SCHED2'' TS_SCHED2_START TS_SCHED2_END @
     EVENT ''TICK'' TS_TICK_START TS_TICK_END @
     EVENT ''QUANTUM_BOUNDARY'' TS_QUANTUM_BOUNDARY_START TS_QUANTUM_BOUNDARY_END @
     EVENT ''RELEASE'' TS_RELEASE_START TS_RELEASE_END @
     EVENT ''XCALL'' TS_XCALL_START TS_XCALL_END @
     EVENT ''SCHED_TIMER'' TS_SCHED_TIMER_START TS_SCHED_TIMER_END @
     EVENT ''PLUGIN_SCHED'' TS_PLUGIN_SCHED_START TS_PLUGIN_SCHED_END @
     EVENT ''PLUGIN_TICK'' TS_PLUGIN_TICK_START TS_PLUGIN_TICK_END @
     EVENT ''CXS'' TS_CXS_START TS_CXS_END @
     EVENT ''SEND_RESCHED'' TS_SEND_RESCHED_START TS_SEND_RESCHED_END @
     EVENT ''SEND_XCALL'' TS_SEND_XCALL_START TS_SEND_XCALL_END @
     [(''RELEASE_LATENCY'', of_nat TS_RELEASE_LATENCY),
      (''TIMER_LATENCY'', of_nat TS_TIMER_LATENCY)] @
     EVENT ''SYSCALL_IN'' TS_SYSCALL_IN_START TS_SYSCALL_IN_END @
     EVENT ''SYSCALL_OUT'' TS_SYSCALL_OUT_START TS_SYSCALL_OUT_END @
     EVENT ''LOCK'' TS_LOCK_START TS_LOCK_END @
     EVENT ''UNLOCK'' TS_UNLOCK_START TS_UNLOCK_END @
     EVENT ''READ_LOCK'' TS_READ_LOCK_START TS_READ_LOCK_END @
     EVENT ''READ_UNLOCK'' TS_READ_UNLOCK_START TS_READ_UNLOCK_END @
     [(''LOCK_SUSPEND'', of_nat TS_LOCK_SUSPEND),
      (''LOCK_RESUME'', of_nat TS_LOCK_RESUME)]"

text \<open>
  \<^verbatim>\<open>sscanf(str, "%u", id)\<close> of the C library: leading white space is skipped, an
  optional sign and a non-empty run of digits are read, the rest of the string is
  ignored.  The value is converted as by \<^verbatim>\<open>strtoul\<close> (saturated at \<^verbatim>\<open>ULONG_MAX\<close>,
  negated modulo \<open>2 ^ 64\<close> after a minus sign) and stored in 32 bits.  The result is the
  number of items stored, 0 when the text does not match, and \<^verbatim>\<open>EOF\<close> (\<open>-1\<close>) when the
  input ends before the first item.
\<close>

definition strtoul10 :: "bool \<Rightarrow> nat \<Rightarrow> nat" where
  "strtoul10 neg n =
     (if 2 ^ 64 \<le> n then 2 ^ 64 - 1 else if neg then (2 ^ 64 - n) mod 2 ^ 64 else n)"

definition scan_digits :: "bool \<Rightarrow> string \<Rightarrow> int \<times> u32 option" where
  "scan_digits neg cs =
     (case takeWhile is_digit cs of
        [] \<Rightarrow> (0, None)
      | ds \<Rightarrow> (1, Some (of_nat (strtoul10 neg (num_val ds)))))"

definition sscanf_u :: "string \<Rightarrow> int \<times> u32 option" where
  "sscanf_u str =
     (case dropWhile is_space str of
        [] \<Rightarrow> (- 1, None)
      | c # cs \<Rightarrow>
          if c = CHR ''-'' then scan_digits True cs
          else if c = CHR ''+'' then scan_digits False cs
          else scan_digits False (c # cs))"

text \<open>
  The loop of \<^verbatim>\<open>str2event\<close> over the table; the result is the return code and the
  value written through \<^verbatim>\<open>id\<close> (\<open>None\<close>: \<^verbatim>\<open>*id\<close> is not written).
\<close>

fun lookup_name :: "(string \<times> u32) list \<Rightarrow> string \<Rightarrow> u32 option" where
  "lookup_name [] str = None"
| "lookup_name ((name, i) # tbl) str = (if str = name then Some i else lookup_name tbl str)"

definition str2event :: "string \<Rightarrow> int \<times> u32 option" where
  "str2event str =
     (case lookup_name event_table str of
        Some i \<Rightarrow> (1, Some i)
      | None \<Rightarrow> sscanf_u str)"

fun lookup_id :: "(string \<times> u32) list \<Rightarrow> u32 \<Rightarrow> string option" where
  "lookup_id [] i = None"
| "lookup_id ((name, j) # tbl) i = (if j = i then Some name else lookup_id tbl i)"

definition event2str :: "u32 \<Rightarrow> string option" where
  "event2str i = lookup_id event_table i"

definition task_type2str :: "int \<Rightarrow> string" where
  "task_type2str t =
     (if t = int TSK_RT then ''RT'' else if t = int TSK_BE then ''BE'' else ''UNKNOWN'')"

section \<open>Lookup facts\<close>

lemma lookup_id_mem: "lookup_id tbl i = Some s \<Longrightarrow> (s, i) \<in> set tbl"
  by (induction tbl i rule: lookup_id.induct) (auto split: if_splits)

lemma lookup_id_None: "lookup_id tbl i = None \<longleftrightarrow> i \<notin> snd ` set tbl"
  by (induction tbl i rule: lookup_id.induct) auto

lemma lookup_id_eq: "distinct (map snd tbl) \<Longrightarrow> (s, i) \<in> set tbl \<Longrightarrow> lookup_id tbl i = Some s"
  by (induction tbl i rule: lookup_id.induct) (auto simp: image_iff)

lemma lookup_name_mem: "distinct (map fst tbl) \<Longrightarrow> (s, i) \<in> set tbl \<Longrightarrow> lookup_name tbl s = Some i"
  by (induction tbl s rule: lookup_name.induct) (auto simp: image_iff)

lemma lookup_name_None: "s \<notin> fst ` set tbl \<Longrightarrow> lookup_name tbl s = None"
  by (induction tbl s rule: lookup_name.induct) auto

lemmas event_table_unfold = event_table_def EVENT_def event_ids

lemma event_names_distinct: "distinct (map fst event_table)"
  by (simp add: event_table_unfold)

lemma event_ids_distinct: "distinct (map snd event_table)"
  by (simp add: event_table_unfold)

definition starts_alpha :: "string \<Rightarrow> bool" where
  "starts_alpha s = (case s of [] \<Rightarrow> False | c # _ \<Rightarrow> \<not> is_digit c)"

lemma event_names_alpha: "list_all starts_alpha (map fst event_table)"
  by (simp add: event_table_unfold starts_alpha_def is_digit_def)

lemma event_names_visible: "list_all (\<lambda>s. list_ex (\<lambda>c. \<not> is_space c) s) (map fst event_table)"
  by (simp add: event_table_unfold is_space_def)

lemma event_name_starts_alpha: "s \<in> fst ` set event_table \<Longrightarrow> starts_alpha s"
  using event_names_alpha by (auto simp: list_all_iff)

text \<open>A printed number is read back as that number (below \<open>2 ^ 64\<close> before the cut to 32 bits).\<close>

lemma sscanf_dec:
  assumes "n < 2 ^ 32"
  shows "sscanf_u (dec n) = (1, Some (of_nat n))"
proof -
  obtain c cs where dec: "dec n = c # cs" by (cases "dec n") simp_all
  have digits: "\<forall>x \<in> set (dec n). is_digit x" by (rule dec_digits)
  then have c: "is_digit c" by (simp add: dec)
  then have "c \<noteq> CHR ''-''" "c \<noteq> CHR ''+''" by (auto simp: is_digit_def)
  moreover have "dropWhile is_space (dec n) = c # cs"
    using digit_not_space [OF c] by (simp add: dec)
  moreover have "takeWhile is_digit (c # cs) = c # cs"
    using digits by (simp add: dec takeWhile_eq_all_conv)
  moreover have "num_val (c # cs) = n" using num_val_dec [of n] by (simp add: dec)
  ultimately show ?thesis
    using assms by (simp add: sscanf_u_def scan_digits_def strtoul10_def)
qed

lemma str2event_dec:
  assumes "n < 2 ^ 32"
  shows "str2event (dec n) = (1, Some (of_nat n))"
proof -
  obtain c cs where dec: "dec n = c # cs" by (cases "dec n") simp_all
  have "is_digit c" using dec_digits [of n] by (simp add: dec)
  with dec have "dec n \<notin> fst ` set event_table"
    using event_name_starts_alpha [of "dec n"] by (auto simp: starts_alpha_def)
  then show ?thesis by (simp add: str2event_def lookup_name_None sscanf_dec [OF assms])
qed

lemma event2str_str2event: "event2str i = Some s \<Longrightarrow> str2event s = (1, Some i)"
  using lookup_name_mem [OF event_names_distinct lookup_id_mem]
  by (simp add: event2str_def str2event_def)

end
