(* ===== verification/Ftsort_Seqno.thy ===== *)
theory Ftsort_Seqno
  imports Timestamp
begin

unbundle bit_operations_syntax

text \<open>
  The sequence-number arithmetic of \<^verbatim>\<open>src/ftsort.c\<close> and its two searches in the
  look-ahead window.  Sequence numbers are 32-bit and wrap around; the distance of a
  number from the expected one is the word difference.  The lemmas show that the code's
  case distinctions (\<open>in_range\<close>, \<open>is_lower_seqno\<close>) compute exactly the order of these
  distances, also across the wrap-around, and what the two window searches return.
\<close>

section \<open>Constants and comparisons\<close>

definition LOOK_AHEAD :: nat where "LOOK_AHEAD = 1024"
definition MAX_NR_NOT_IN_RANGE :: nat where "MAX_NR_NOT_IN_RANGE = 5"

definition next_seq_number :: "u32 \<Rightarrow> u32" where
  "next_seq_number seqno = seqno + 1"

definition in_range :: "u32 \<Rightarrow> u32 \<Rightarrow> bool" where
  "in_range seqno candidate =
     (let upper_bound = seqno + of_nat LOOK_AHEAD;
          diff = candidate - seqno
      in (upper_bound < seqno \<and> candidate < seqno \<and> candidate < upper_bound) \<or>
         (candidate \<ge> seqno \<and> diff < of_nat LOOK_AHEAD))"

text \<open>\<^verbatim>\<open>((int32_t)UINT16_MAX / 2)\<close>\<close>

definition OVERFLOW_CUTOFF :: int where "OVERFLOW_CUTOFF = 32767"

text \<open>The two \<^verbatim>\<open>uint32_t\<close> arguments are converted to \<^verbatim>\<open>int32_t\<close> (\<open>sint\<close>), their
  difference is taken in 64 bits.\<close>

definition is_lower_seqno :: "u32 \<Rightarrow> u32 \<Rightarrow> bool" where
  "is_lower_seqno candidate mn =
     (let delta = sint mn - sint candidate
      in (delta \<ge> 0 \<and> delta \<le> OVERFLOW_CUTOFF) \<or> delta < - OVERFLOW_CUTOFF)"

section \<open>Searches in the window\<close>

text \<open>\<^verbatim>\<open>if (end > start + LOOK_AHEAD) end = start + LOOK_AHEAD\<close>\<close>

definition window_end :: "nat \<Rightarrow> nat \<Rightarrow> nat" where
  "window_end start end' = (if end' > start + LOOK_AHEAD then start + LOOK_AHEAD else end')"

function find_forward_loop :: "timestamp list \<Rightarrow> nat \<Rightarrow> u32 \<Rightarrow> nat \<Rightarrow> nat option" where
  "find_forward_loop a lim seq_no pos =
     (if pos < lim then
        if ts_seq_no (a ! pos) = seq_no then Some pos
        else find_forward_loop a lim seq_no (Suc pos)
      else None)"
  by pat_completeness auto
termination by (relation "measure (\<lambda>(a, lim, seq_no, pos). lim - pos)") auto

definition find_forward_by_seq_no :: "timestamp list \<Rightarrow> nat \<Rightarrow> nat \<Rightarrow> u32 \<Rightarrow> nat option" where
  "find_forward_by_seq_no a start end' seq_no =
     find_forward_loop a (window_end start end') seq_no start"

text \<open>
  The loop of \<^verbatim>\<open>find_lowest_seq_no\<close>: \<open>mn\<close> is the variable \<^verbatim>\<open>min\<close> and \<open>nr\<close> is
  \<^verbatim>\<open>nr_not_in_range\<close>.  The loop test \<^verbatim>\<open>pos != end\<close> is written \<open>pos < lim\<close>: the
  callers pass \<open>start \<le> end\<close>.
\<close>

function find_lowest_loop ::
    "timestamp list \<Rightarrow> nat \<Rightarrow> u32 \<Rightarrow> nat \<Rightarrow> nat option \<Rightarrow> nat \<Rightarrow> nat option" where
  "find_lowest_loop a lim seqno pos mn nr =
     (if pos < lim \<and> (case mn of None \<Rightarrow> True | Some m \<Rightarrow> ts_seq_no (a ! m) \<noteq> seqno) then
        if in_range seqno (ts_seq_no (a ! pos)) \<and>
           (case mn of None \<Rightarrow> True
            | Some m \<Rightarrow> is_lower_seqno (ts_seq_no (a ! pos)) (ts_seq_no (a ! m)))
        then find_lowest_loop a lim seqno (Suc pos) (Some pos) nr
        else if \<not> in_range seqno (ts_seq_no (a ! pos)) then
          if Suc nr > MAX_NR_NOT_IN_RANGE then None
          else find_lowest_loop a lim seqno (Suc pos) mn (Suc nr)
        else find_lowest_loop a lim seqno (Suc pos) mn nr
      else mn)"
  by pat_completeness auto
termination by (relation "measure (\<lambda>(a, lim, seqno, pos, mn, nr). lim - pos)") auto

definition find_lowest_seq_no :: "timestamp list \<Rightarrow> nat \<Rightarrow> nat \<Rightarrow> u32 \<Rightarrow> nat option" where
  "find_lowest_seq_no a start end' seqno =
     find_lowest_loop a (window_end start end') seqno start None 0"

declare find_forward_loop.simps [simp del]
declare find_lowest_loop.simps [simp del]

section \<open>Distances\<close>

text \<open>The specification: the distance of \<open>c\<close> ahead of \<open>s\<close>, modulo \<open>2 ^ 32\<close>.\<close>

definition ahead :: "u32 \<Rightarrow> u32 \<Rightarrow> nat" where
  "ahead s c = unat (c - s)"

lemma ahead_self [simp]: "ahead s s = 0"
  by (simp add: ahead_def)

lemma ahead_eq_0 [simp]: "ahead s c = 0 \<longleftrightarrow> c = s"
  by (simp add: ahead_def unat_eq_0)

lemma ahead_bound: "ahead s c < 4294967296"
  unfolding ahead_def by (rule unat_bound32)

lemma ahead_inj: "ahead s c = ahead s d \<longleftrightarrow> c = d"
  by (metis ahead_def diff_add_cancel word_unat_eq_iff)

lemma ahead_cases:
  "ahead s c = (if unat s \<le> unat c then unat c - unat s else unat c + 4294967296 - unat s)"
  by (simp add: ahead_def unat_diff32)

lemma ahead_uint:
  "int (ahead s c) =
     (if uint s \<le> uint c then uint c - uint s else uint c + 4294967296 - uint s)"
proof -
  have "int (ahead s c) = (uint c - uint s) mod 4294967296"
    by (simp add: ahead_def uint_word_ariths)
  then show ?thesis
    using mod32_below [of "uint c - uint s"] uint_bound32 [of s] uint_bound32 [of c] by simp
qed

text \<open>The two comparisons over the plain values, with the wrap-around written out.\<close>

lemma in_range_arith:
  fixes S C :: nat
  assumes "S < 4294967296" "C < 4294967296"
    and "U = (if S + 1024 < 4294967296 then S + 1024 else S + 1024 - 4294967296)"
    and "D = (if S \<le> C then C - S else C + 4294967296 - S)"
  shows "(U < S \<and> C < S \<and> C < U) \<or> (S \<le> C \<and> D < 1024) \<longleftrightarrow> D < 1024"
  using assms by (cases "S \<le> C"; cases "S + 1024 < 4294967296"; simp; linarith)

lemma is_lower_arith:
  fixes S C M :: int
  assumes "0 \<le> S" "S < 4294967296" "0 \<le> C" "C < 4294967296" "0 \<le> M" "M < 4294967296"
    and "dc = (if S \<le> C then C - S else C + 4294967296 - S)"
    and "dm = (if S \<le> M then M - S else M + 4294967296 - S)"
    and "dc < 1024" "dm < 1024"
    and "d = (if M < 2147483648 then M else M - 4294967296) -
             (if C < 2147483648 then C else C - 4294967296)"
  shows "(0 \<le> d \<and> d \<le> 32767) \<or> d < - 32767 \<longleftrightarrow> dc \<le> dm"
  using assms
  by (cases "S \<le> C"; cases "S \<le> M"; cases "M < 2147483648"; cases "C < 2147483648"; simp; linarith)

lemma in_range_ahead: "in_range s c \<longleftrightarrow> ahead s c < LOOK_AHEAD"
proof -
  have ub: "unat (s + 1024) =
      (if unat s + 1024 < 4294967296 then unat s + 1024 else unat s + 1024 - 4294967296)"
    using unat_bound32 [of s] by (auto simp: unat_add_mod32 mod_if)
  have "in_range s c \<longleftrightarrow>
      (unat (s + 1024) < unat s \<and> unat c < unat s \<and> unat c < unat (s + 1024)) \<or>
      (unat s \<le> unat c \<and> ahead s c < 1024)"
    by (simp add: in_range_def Let_def LOOK_AHEAD_def word_less_nat_alt word_le_nat_alt ahead_def)
  also have "\<dots> \<longleftrightarrow> ahead s c < 1024"
    by (rule in_range_arith [OF unat_bound32 unat_bound32 ub ahead_cases])
  finally show ?thesis by (simp add: LOOK_AHEAD_def)
qed

lemma sint_cases32:
  "sint (w :: u32) = (if uint w < 2147483648 then uint w else uint w - 4294967296)"
proof -
  have "sint w = (uint w + 2147483648) mod 4294967296 - 2147483648"
    by (simp add: sint_uint signed_take_bit_eq_take_bit_shift take_bit_eq_mod)
  then show ?thesis
    using mod32_above [of "uint w + 2147483648"] uint_bound32 [of w] by simp
qed

lemma is_lower_ahead:
  assumes "ahead s c < LOOK_AHEAD" and "ahead s m < LOOK_AHEAD"
  shows "is_lower_seqno c m \<longleftrightarrow> ahead s c \<le> ahead s m"
proof -
  have "is_lower_seqno c m \<longleftrightarrow>
      (0 \<le> sint m - sint c \<and> sint m - sint c \<le> 32767) \<or> sint m - sint c < - 32767"
    by (simp add: is_lower_seqno_def OVERFLOW_CUTOFF_def Let_def)
  also have "\<dots> \<longleftrightarrow> int (ahead s c) \<le> int (ahead s m)"
  proof (rule is_lower_arith)
    show "int (ahead s c) < 1024" "int (ahead s m) < 1024"
      using assms by (simp_all add: LOOK_AHEAD_def)
  qed (use uint_bound32 in \<open>auto simp only: ahead_uint sint_cases32\<close>)
  finally show ?thesis by simp
qed

section \<open>What the searches return\<close>

lemma window_end_le: "window_end start end' \<le> end'" "window_end start end' \<le> start + LOOK_AHEAD"
  by (auto simp: window_end_def)

lemma window_end_eq: "window_end start end' = min end' (start + LOOK_AHEAD)"
  by (auto simp: window_end_def)

lemma find_forward_loop_Some:
  "find_forward_loop a lim s pos = Some j \<longleftrightarrow>
     pos \<le> j \<and> j < lim \<and> ts_seq_no (a ! j) = s \<and> (\<forall>i. pos \<le> i \<and> i < j \<longrightarrow> ts_seq_no (a ! i) \<noteq> s)"
proof (induction a lim s pos rule: find_forward_loop.induct)
  case (1 a lim s pos)
  show ?case
  proof (cases "pos < lim \<and> ts_seq_no (a ! pos) \<noteq> s")
    case True
    with 1 have "find_forward_loop a lim s pos = Some j \<longleftrightarrow>
      Suc pos \<le> j \<and> j < lim \<and> ts_seq_no (a ! j) = s \<and>
      (\<forall>i. Suc pos \<le> i \<and> i < j \<longrightarrow> ts_seq_no (a ! i) \<noteq> s)"
      by (subst find_forward_loop.simps) simp
    with True show ?thesis
      by (metis Suc_leD Suc_leI le_neq_implies_less)
  next
    case False
    then show ?thesis
      by (subst find_forward_loop.simps) (auto simp: not_less intro: le_neq_implies_less)
  qed
qed


text \<open>
  The loop invariant of \<open>find_lowest_seq_no\<close>: \<open>mn\<close> is a record of least distance
  among those already visited, or none of them is within the look-ahead distance.
\<close>

definition dist :: "timestamp list \<Rightarrow> u32 \<Rightarrow> nat \<Rightarrow> nat" where
  "dist a s i = ahead s (ts_seq_no (a ! i))"

definition best :: "timestamp list \<Rightarrow> u32 \<Rightarrow> nat \<Rightarrow> nat \<Rightarrow> nat option \<Rightarrow> bool" where
  "best a s st pos mn \<longleftrightarrow>
     (case mn of
        None \<Rightarrow> \<forall>i \<in> {st..<pos}. LOOK_AHEAD \<le> dist a s i
      | Some m \<Rightarrow> m \<in> {st..<pos} \<and> dist a s m < LOOK_AHEAD \<and>
                 (\<forall>i \<in> {st..<pos}. dist a s m \<le> dist a s i))"

lemma atLeastLessThan_Suc_cases: "i \<in> {st..<Suc pos} \<Longrightarrow> st \<le> pos \<Longrightarrow> i \<in> {st..<pos} \<or> i = pos"
  by auto

lemma best_take:
  assumes "best a s st pos mn" and "st \<le> pos" and "dist a s pos < LOOK_AHEAD"
    and "\<And>m. mn = Some m \<Longrightarrow> dist a s pos \<le> dist a s m"
  shows "best a s st (Suc pos) (Some pos)"
  using assms
  by (cases mn) (auto simp: best_def less_Suc_eq, force+)

lemma best_keep:
  assumes "best a s st pos mn" and "st \<le> pos"
    and "\<And>m. mn = Some m \<Longrightarrow> dist a s m \<le> dist a s pos"
    and "mn = None \<Longrightarrow> LOOK_AHEAD \<le> dist a s pos"
  shows "best a s st (Suc pos) mn"
  using assms by (cases mn) (auto simp: best_def less_Suc_eq)

lemma best_zero:
  assumes "best a s st pos (Some m)" and "dist a s m = 0" and "pos \<le> lim"
  shows "best a s st lim (Some m)"
  using assms by (auto simp: best_def)

lemma find_lowest_loop_sound:
  "find_lowest_loop a lim s pos mn nr = Some j \<Longrightarrow> best a s st pos mn \<Longrightarrow> st \<le> pos \<Longrightarrow>
   pos \<le> lim \<Longrightarrow> best a s st lim (Some j)"
proof (induction a lim s pos mn nr rule: find_lowest_loop.induct)
  case (1 a lim s pos mn nr)
  let ?go = "pos < lim \<and> (case mn of None \<Rightarrow> True | Some m \<Rightarrow> ts_seq_no (a ! m) \<noteq> s)"
  have d: "in_range s (ts_seq_no (a ! i)) \<longleftrightarrow> dist a s i < LOOK_AHEAD" for i
    by (simp add: in_range_ahead dist_def)
  show ?case
  proof (cases ?go)
    case False
    then have "mn = Some j" using "1.prems"(1)
      by (subst (asm) find_lowest_loop.simps) (simp only: False if_False)
    with False 1(5,7) show ?thesis
      by (cases "pos < lim") (auto intro: best_zero simp: dist_def)
  next
    case go: True
    let ?take = "in_range s (ts_seq_no (a ! pos)) \<and>
      (case mn of None \<Rightarrow> True | Some m \<Rightarrow> is_lower_seqno (ts_seq_no (a ! pos)) (ts_seq_no (a ! m)))"
    have lower: "is_lower_seqno (ts_seq_no (a ! pos)) (ts_seq_no (a ! m)) \<longleftrightarrow>
        dist a s pos \<le> dist a s m"
      if "mn = Some m" "dist a s pos < LOOK_AHEAD" for m
      using that 1(5) is_lower_ahead [of s] by (simp add: best_def dist_def)
    show ?thesis
    proof (cases ?take)
      case True
      then have "best a s st (Suc pos) (Some pos)"
        using 1(5,6) lower by (intro best_take) (auto simp: d)
      with True go 1(1) "1.prems" show ?thesis
        by (subst (asm) find_lowest_loop.simps) simp
    next
      case False
      have "best a s st (Suc pos) mn"
      proof (rule best_keep [OF 1(5,6)])
        show "dist a s m \<le> dist a s pos" if "mn = Some m" for m
          using that False lower [of m] 1(5) by (cases "dist a s pos < LOOK_AHEAD") (auto simp: d best_def)
        show "LOOK_AHEAD \<le> dist a s pos" if "mn = None"
          using that False by (simp add: d)
      qed
      with False go 1(2,3) "1.prems" show ?thesis
        by (subst (asm) find_lowest_loop.simps) (simp split: if_splits)
    qed
  qed
qed

lemma find_lowest_sound:
  assumes "find_lowest_seq_no a start end' s = Some j" and "start \<le> end'"
  shows "best a s start (window_end start end') (Some j)"
proof (rule find_lowest_loop_sound)
  show "find_lowest_loop a (window_end start end') s start None 0 = Some j"
    using assms(1) by (simp add: find_lowest_seq_no_def)
qed (use assms(2) in \<open>auto simp: best_def window_end_eq\<close>)

text \<open>
  The loop reaches the expected number if it is in the window and at most
  \<open>MAX_NR_NOT_IN_RANGE\<close> records before it are out of range.
\<close>

lemma find_lowest_loop_hit:
  "pos \<le> i \<Longrightarrow> i < lim \<Longrightarrow> ts_seq_no (a ! i) = s \<Longrightarrow>
   (\<forall>k \<in> {pos..<i}. ts_seq_no (a ! k) \<noteq> s) \<Longrightarrow>
   (\<forall>m. mn = Some m \<longrightarrow> dist a s m < LOOK_AHEAD \<and> ts_seq_no (a ! m) \<noteq> s) \<Longrightarrow>
   nr + length (filter (\<lambda>k. LOOK_AHEAD \<le> dist a s k) [pos..<i]) \<le> MAX_NR_NOT_IN_RANGE \<Longrightarrow>
   find_lowest_loop a lim s pos mn nr = Some i"
proof (induction a lim s pos mn nr rule: find_lowest_loop.induct)
  case (1 a lim s pos mn nr)
  have d: "in_range s (ts_seq_no (a ! k)) \<longleftrightarrow> dist a s k < LOOK_AHEAD" for k
    by (simp add: in_range_ahead dist_def)
  have go: "pos < lim \<and> (case mn of None \<Rightarrow> True | Some m \<Rightarrow> ts_seq_no (a ! m) \<noteq> s)"
    using "1.prems" by (auto split: option.splits)
  show ?case
  proof (cases "pos = i")
    case True
    then have "dist a s pos = 0" using "1.prems" by (simp add: dist_def)
    moreover have "is_lower_seqno (ts_seq_no (a ! pos)) (ts_seq_no (a ! m))" if "mn = Some m" for m
      using that "1.prems"(5) True "1.prems"(3) is_lower_ahead [of s s "ts_seq_no (a ! m)"]
      by (simp add: dist_def LOOK_AHEAD_def)
    ultimately have "find_lowest_loop a lim s pos mn nr = find_lowest_loop a lim s (Suc pos) (Some pos) nr"
      using go by (subst find_lowest_loop.simps) (simp add: d LOOK_AHEAD_def split: option.splits)
    also have "\<dots> = Some pos"
      using True "1.prems"(3) by (subst find_lowest_loop.simps) simp
    finally show ?thesis using True by simp
  next
    case False
    then have upt: "[pos..<i] = pos # [Suc pos..<i]" using "1.prems"(1) by (simp add: upt_conv_Cons)
    have "Suc pos \<le> i" "\<forall>k \<in> {Suc pos..<i}. ts_seq_no (a ! k) \<noteq> s" "ts_seq_no (a ! pos) \<noteq> s"
      using False "1.prems" by auto
    then show ?thesis
      using 1(1-3) "1.prems"(2-6) go
      by (subst find_lowest_loop.simps) (auto simp: d upt split: if_splits)
  qed
qed

lemma find_lowest_hit:
  assumes "start \<le> i" and "i < window_end start end'" and "ts_seq_no (a ! i) = s"
    and "\<forall>k \<in> {start..<i}. ts_seq_no (a ! k) \<noteq> s"
    and "length (filter (\<lambda>k. LOOK_AHEAD \<le> dist a s k) [start..<i]) \<le> MAX_NR_NOT_IN_RANGE"
  shows "find_lowest_seq_no a start end' s = Some i"
  unfolding find_lowest_seq_no_def by (rule find_lowest_loop_hit) (use assms in auto)

end
