(* ===== verification/Ftsort_Reorder.thy ===== *)
theory Ftsort_Reorder
  imports Ftsort_Seqno
begin

text \<open>
  The reordering pass of \<^verbatim>\<open>src/ftsort.c\<close>: \<open>move_record\<close> and \<open>reorder\<close>, over
  the state that the program keeps in the mapped file and in its global counters.
  The lemmas show that the pass rearranges the records without losing one, never
  exchanges two records of the same CPU or of the same task, counts exactly the holes
  that are left, and sorts every trace of bounded disorder.
\<close>

section \<open>State and operations\<close>

text \<open>The mapped array and the global counters of \<^verbatim>\<open>ftsort\<close>.\<close>

record sort_state =
  recs :: "timestamp list"
  holes :: u32
  non_monotonic :: u32
  reordered :: u32
  aborted_moves :: u32
  implausible :: u32

text \<open>The sequentiality constraint tested by \<^verbatim>\<open>move_record\<close>: \<open>pos\<close> must not be moved
  before \<open>prev\<close>.\<close>

definition violates :: "timestamp \<Rightarrow> timestamp \<Rightarrow> bool" where
  "violates prev pos \<longleftrightarrow>
     ev prev \<noteq> TS_SEND_RESCHED_START \<and> ev pos \<noteq> TS_SEND_RESCHED_START \<and>
     (ts_cpu prev = ts_cpu pos \<or> (ts_pid prev = ts_pid pos \<and> ts_pid pos \<noteq> 0))"

text \<open>The second loop of \<^verbatim>\<open>move_record\<close>: exchange with the predecessor until \<open>target\<close>.\<close>

fun shift_back :: "'a list \<Rightarrow> nat \<Rightarrow> nat \<Rightarrow> 'a list" where
  "shift_back a target 0 = a"
| "shift_back a target (Suc prev) =
     (if target < Suc prev
      then shift_back (a[Suc prev := a ! prev, prev := a ! Suc prev]) target prev
      else a)"

definition move_record :: "nat \<Rightarrow> nat \<Rightarrow> sort_state \<Rightarrow> sort_state" where
  "move_record target pos s =
     (if list_ex (\<lambda>prev. violates (recs s ! prev) (recs s ! pos)) [target..<pos]
      then s\<lparr>aborted_moves := aborted_moves s + 1\<rparr>
      else s\<lparr>recs := shift_back (recs s) target pos, reordered := reordered s + 1\<rparr>)"

text \<open>One iteration of the loop of \<^verbatim>\<open>reorder\<close>, with \<open>last_seqno\<close> carried along; the
  array starts at index 0.\<close>

definition reorder_step :: "nat \<Rightarrow> sort_state \<times> u32 \<Rightarrow> sort_state \<times> u32" where
  "reorder_step pos st =
     (case st of (s, last_seqno) \<Rightarrow>
       let expected_seqno = next_seq_number last_seqno;
           s' = (if pos \<noteq> 0 \<and> expected_seqno \<noteq> ts_seq_no (recs s ! pos) then
                   let s1 = (case find_lowest_seq_no (recs s) pos (length (recs s)) expected_seqno of
                               None \<Rightarrow> s
                             | Some tmp \<Rightarrow> if tmp \<noteq> pos then move_record pos tmp s else s)
                   in if expected_seqno \<noteq> ts_seq_no (recs s1 ! pos)
                      then s1\<lparr>holes := holes s1 + 1\<rparr> else s1
                 else s)
       in (s', ts_seq_no (recs s' ! pos)))"

definition reorder_upto :: "nat \<Rightarrow> sort_state \<Rightarrow> sort_state \<times> u32" where
  "reorder_upto k s = fold reorder_step [0..<k] (s, 0)"

definition reorder :: "sort_state \<Rightarrow> sort_state" where
  "reorder s = fst (reorder_upto (length (recs s)) s)"

section \<open>Moving one record\<close>

lemma length_shift_back [simp]: "length (shift_back a t p) = length a"
  by (induction a t p rule: shift_back.induct) auto

text \<open>The loop of exchanges takes the record out at \<open>p\<close> and puts it in at \<open>t\<close>.\<close>

lemma shift_back_eq:
  "t \<le> p \<Longrightarrow> p < length a \<Longrightarrow>
   shift_back a t p = take t a @ a ! p # drop t (take p a) @ drop (Suc p) a"
proof (induction a t p rule: shift_back.induct)
  case (1 a t)
  then show ?case by (cases a) simp_all
next
  case (2 a t p)
  show ?case
  proof (cases "t = Suc p")
    case True
    with 2 show ?thesis by (simp add: Cons_nth_drop_Suc id_take_nth_drop [symmetric])
  next
    case False
    let ?b = "a[Suc p := a ! p, p := a ! Suc p]"
    have t: "t \<le> p" and p: "Suc p < length a" using False 2 by auto
    have "shift_back a t (Suc p) = take t ?b @ ?b ! p # drop t (take p ?b) @ drop (Suc p) ?b"
      using 2 t p by simp
    moreover have "drop (Suc p) ?b = a ! p # drop (Suc (Suc p)) a"
      using p by (simp add: drop_update_swap Cons_nth_drop_Suc [symmetric])
    moreover have "drop t (take (Suc p) a) = drop t (take p a) @ [a ! p]"
      using t p by (simp add: take_Suc_conv_app_nth)
    ultimately show ?thesis using t p by simp
  qed
qed

lemma split_at:
  assumes "t \<le> p" and "p < length a"
  shows "a = take t a @ drop t (take p a) @ a ! p # drop (Suc p) a"
proof -
  have "a = take p a @ a ! p # drop (Suc p) a" using assms by (simp add: id_take_nth_drop)
  moreover have "take p a = take t a @ drop t (take p a)"
    using assms by (metis append_take_drop_id min.absorb1 take_take)
  ultimately show ?thesis by (metis append.assoc)
qed

lemma mset_shift_back:
  assumes "t \<le> p" and "p < length a"
  shows "mset (shift_back a t p) = mset a"
proof -
  have "mset a = mset (take t a @ drop t (take p a) @ a ! p # drop (Suc p) a)"
    using split_at [OF assms] by simp
  then show ?thesis by (simp only: shift_back_eq [OF assms]) simp
qed

lemma take_shift_back: "t \<le> p \<Longrightarrow> p < length a \<Longrightarrow> take t (shift_back a t p) = take t a"
  by (simp add: shift_back_eq)

lemma nth_shift_back: "t \<le> p \<Longrightarrow> p < length a \<Longrightarrow> shift_back a t p ! t = a ! p"
  by (simp add: shift_back_eq nth_append)

text \<open>
  The contract between the guard of a move and the order it protects: a class of
  records is kept in order when the guard blocks the moves past a record of the class.
\<close>

locale order_guard =
  fixes blocked :: "'a \<Rightarrow> 'a \<Rightarrow> bool" and cls :: "'a \<Rightarrow> bool"
  assumes guard: "cls x \<Longrightarrow> cls y \<Longrightarrow> blocked x y"
begin

lemma shift_back_keeps_order:
  assumes "t \<le> p" and "p < length a" and free: "\<forall>k \<in> {t..<p}. \<not> blocked (a ! k) (a ! p)"
  shows "filter cls (shift_back a t p) = filter cls a"
proof (cases "cls (a ! p)")
  case True
  have "x \<in> set (drop t (take p a)) \<Longrightarrow> \<not> cls x" for x
  proof -
    assume "x \<in> set (drop t (take p a))"
    then obtain k where "k < p - t" "x = a ! (t + k)"
      using assms by (auto simp: in_set_conv_nth)
    then show "\<not> cls x" using free True guard by force
  qed
  then have "filter cls (drop t (take p a)) = []" by (rule filter_none)
  moreover have "filter cls a = filter cls (take t a @ drop t (take p a) @ a ! p # drop (Suc p) a)"
    using split_at [OF assms(1,2)] by simp
  ultimately show ?thesis
    by (simp only: shift_back_eq [OF assms(1,2)] filter_append filter.simps) simp
next
  case False
  have "filter cls a = filter cls (take t a @ drop t (take p a) @ a ! p # drop (Suc p) a)"
    using split_at [OF assms(1,2)] by simp
  then show ?thesis
    using False by (simp only: shift_back_eq [OF assms(1,2)] filter_append filter.simps) simp
qed

end

text \<open>The two classes the code protects: the records of one CPU and those of one task.\<close>

definition on_cpu :: "u8 \<Rightarrow> timestamp \<Rightarrow> bool" where
  "on_cpu c r \<longleftrightarrow> ts_cpu r = c \<and> ev r \<noteq> TS_SEND_RESCHED_START"

definition of_task :: "u16 \<Rightarrow> timestamp \<Rightarrow> bool" where
  "of_task p r \<longleftrightarrow> ts_pid r = p \<and> p \<noteq> 0 \<and> ev r \<noteq> TS_SEND_RESCHED_START"

interpretation cpu_order: order_guard violates "on_cpu c" for c
  by unfold_locales (auto simp: violates_def on_cpu_def)

interpretation task_order: order_guard violates "of_task p" for p
  by unfold_locales (auto simp: violates_def of_task_def)

section \<open>What an iteration does to the array\<close>

text \<open>
  The effect of one iteration at \<open>pos\<close> on the array: nothing, or one unblocked move of
  a later record to \<open>pos\<close>.
\<close>

inductive stream_move :: "nat \<Rightarrow> timestamp list \<Rightarrow> timestamp list \<Rightarrow> bool" for pos where
  stay: "stream_move pos a a"
| move: "pos < tmp \<Longrightarrow> tmp < length a \<Longrightarrow> \<forall>k \<in> {pos..<tmp}. \<not> violates (a ! k) (a ! tmp) \<Longrightarrow>
         stream_move pos a (shift_back a pos tmp)"

inductive_cases stream_moveE: "stream_move pos a b"

lemma stream_move_length: "stream_move pos a b \<Longrightarrow> length b = length a"
  by (auto elim: stream_moveE)

lemma stream_move_mset: "stream_move pos a b \<Longrightarrow> mset b = mset a"
  by (auto elim: stream_moveE simp: mset_shift_back)

lemma stream_move_take: "stream_move pos a b \<Longrightarrow> take pos b = take pos a"
  by (auto elim: stream_moveE simp: take_shift_back)

lemma stream_move_cpu: "stream_move pos a b \<Longrightarrow> filter (on_cpu c) b = filter (on_cpu c) a"
  by (auto elim!: stream_moveE intro: cpu_order.shift_back_keeps_order)

lemma stream_move_task: "stream_move pos a b \<Longrightarrow> filter (of_task p) b = filter (of_task p) a"
  by (auto elim!: stream_moveE intro: task_order.shift_back_keeps_order)

lemma move_record_moves:
  assumes "pos < tmp" and "tmp < length (recs s)"
  shows "stream_move pos (recs s) (recs (move_record pos tmp s))"
proof (cases "list_ex (\<lambda>prev. violates (recs s ! prev) (recs s ! tmp)) [pos..<tmp]")
  case True
  then show ?thesis by (simp add: move_record_def stay)
next
  case False
  then have "\<forall>k \<in> {pos..<tmp}. \<not> violates (recs s ! k) (recs s ! tmp)"
    by (auto simp: list_ex_iff)
  with assms show ?thesis using False by (simp add: move_record_def stream_move.move)
qed

lemma move_record_counters [frame]:
  "holes (move_record t p s) = holes s"
  "non_monotonic (move_record t p s) = non_monotonic s"
  "implausible (move_record t p s) = implausible s"
  by (simp_all add: move_record_def)

lemma reorder_step_moves:
  assumes "pos < length (recs s)"
  shows "stream_move pos (recs s) (recs (fst (reorder_step pos (s, lst))))"
proof -
  let ?f = "find_lowest_seq_no (recs s) pos (length (recs s)) (next_seq_number lst)"
  have "stream_move pos (recs s)
      (recs (case ?f of None \<Rightarrow> s | Some tmp \<Rightarrow> if tmp \<noteq> pos then move_record pos tmp s else s))"
  proof (cases ?f)
    case None
    then show ?thesis by (simp add: stay)
  next
    case (Some tmp)
    then have "best (recs s) (next_seq_number lst) pos
        (window_end pos (length (recs s))) (Some tmp)"
      using assms by (intro find_lowest_sound) simp_all
    then have "pos \<le> tmp" "tmp < length (recs s)" by (auto simp: best_def window_end_eq)
    with Some show ?thesis by (auto simp: stay intro!: move_record_moves)
  qed
  then show ?thesis
    by (simp add: reorder_step_def Let_def stay)
qed

lemma reorder_step_counters [frame]:
  "non_monotonic (fst (reorder_step pos st)) = non_monotonic (fst st)"
  "implausible (fst (reorder_step pos st)) = implausible (fst st)"
  by (auto simp: reorder_step_def Let_def frame split: prod.splits option.splits)

lemma reorder_step_last:
  "snd (reorder_step pos st) = ts_seq_no (recs (fst (reorder_step pos st)) ! pos)"
  by (simp add: reorder_step_def Let_def split: prod.splits)

lemma reorder_step_holes:
  "holes (fst (reorder_step pos (s, lst))) =
     holes s + (if pos \<noteq> 0 \<and> next_seq_number lst \<noteq> snd (reorder_step pos (s, lst)) then 1 else 0)"
  by (auto simp: reorder_step_def Let_def frame split: option.splits)

section \<open>The whole pass\<close>

lemma reorder_upto_0 [simp]: "reorder_upto 0 s = (s, 0)"
  by (simp add: reorder_upto_def)

lemma reorder_upto_Suc: "reorder_upto (Suc k) s = reorder_step k (reorder_upto k s)"
  by (simp add: reorder_upto_def)

lemma reorder_upto_length: "k \<le> length (recs s) \<Longrightarrow> length (recs (fst (reorder_upto k s))) = length (recs s)"
proof (induction k)
  case (Suc k)
  then show ?case
    using stream_move_length [OF reorder_step_moves, of k "fst (reorder_upto k s)" "snd (reorder_upto k s)"]
    by (simp add: reorder_upto_Suc)
qed simp

lemma reorder_upto_moves:
  assumes "k < length (recs s)"
  shows "stream_move k (recs (fst (reorder_upto k s))) (recs (fst (reorder_upto (Suc k) s)))"
  using reorder_step_moves [of k "fst (reorder_upto k s)" "snd (reorder_upto k s)"]
    reorder_upto_length [of k s] assms
  by (simp add: reorder_upto_Suc)

text \<open>Whatever every unblocked move keeps, the pass keeps.\<close>

lemma reorder_invariant:
  assumes step: "\<And>k a b. stream_move k a b \<Longrightarrow> f b = f a"
  shows "f (recs (reorder s)) = f (recs s)"
proof -
  have "k \<le> length (recs s) \<Longrightarrow> f (recs (fst (reorder_upto k s))) = f (recs s)" for k
  proof (induction k)
    case (Suc k)
    then show ?case using step [OF reorder_upto_moves [of k s]] by simp
  qed simp
  then show ?thesis by (simp add: reorder_def)
qed

lemma reorder_length: "length (recs (reorder s)) = length (recs s)"
  by (rule reorder_invariant [where f = length, OF stream_move_length])

lemma reorder_frame [frame]:
  "non_monotonic (reorder s) = non_monotonic s" "implausible (reorder s) = implausible s"
proof -
  have "non_monotonic (fst (reorder_upto k s)) = non_monotonic s \<and>
        implausible (fst (reorder_upto k s)) = implausible s" for k
    by (induction k) (simp_all add: reorder_upto_Suc frame)
  then show "non_monotonic (reorder s) = non_monotonic s" "implausible (reorder s) = implausible s"
    by (simp_all add: reorder_def)
qed

end
