(* ===== verification/Ftsort_Sorting.thy ===== *)
theory Ftsort_Sorting
  imports Ftsort_Reorder
begin

text \<open>
  What the reordering pass achieves: the hole counter is the number of breaks left in
  the sequence numbers of the result, a trace without breaks is left alone, and a trace
  whose disorder is bounded by half the look-ahead window comes out sorted.
\<close>

section \<open>Holes\<close>

text \<open>Breaks between neighbours of a stream.\<close>

fun gaps :: "timestamp list \<Rightarrow> nat" where
  "gaps (x # y # zs) = (if ts_seq_no y = next_seq_number (ts_seq_no x) then 0 else 1) + gaps (y # zs)"
| "gaps _ = 0"

lemma gaps_snoc:
  "gaps (xs @ [y]) = gaps xs +
     (if xs \<noteq> [] \<and> ts_seq_no y \<noteq> next_seq_number (ts_seq_no (last xs)) then 1 else 0)"
  by (induction xs rule: gaps.induct) auto

lemma reorder_upto_last:
  assumes "0 < k" and "k \<le> length (recs s)"
  shows "snd (reorder_upto k s) = ts_seq_no (last (take k (recs (fst (reorder_upto k s)))))"
proof (cases k)
  case (Suc j)
  then show ?thesis
    using assms reorder_upto_length [of k s]
    by (simp add: reorder_upto_Suc reorder_step_last take_Suc_conv_app_nth)
qed (use assms in simp)

lemma reorder_upto_holes:
  "k \<le> length (recs s) \<Longrightarrow>
   holes (fst (reorder_upto k s)) = holes s + of_nat (gaps (take k (recs (fst (reorder_upto k s)))))"
proof (induction k)
  case (Suc k)
  obtain t lst where st: "reorder_upto k s = (t, lst)" by fastforce
  obtain t' lst' where st': "reorder_step k (t, lst) = (t', lst')" by fastforce
  have len: "length (recs t') = length (recs s)"
    using Suc.prems reorder_upto_length [of "Suc k" s] by (simp add: reorder_upto_Suc st st')
  have "take k (recs t') = take k (recs t)"
    using stream_move_take [OF reorder_upto_moves [of k s]] Suc.prems
    by (simp add: reorder_upto_Suc st st')
  moreover have "lst' = ts_seq_no (recs t' ! k)"
    using reorder_step_last [of k "(t, lst)"] by (simp add: st')
  moreover have "lst = ts_seq_no (last (take k (recs t)))" if "k \<noteq> 0"
    using that reorder_upto_last [of k s] Suc.prems by (simp add: st)
  moreover have "take k (recs t') \<noteq> [] \<longleftrightarrow> k \<noteq> 0"
    using Suc.prems len by (cases "recs t'") auto
  ultimately show ?case
    using Suc reorder_step_holes [of k t lst] len
    by (auto simp: reorder_upto_Suc st st' take_Suc_conv_app_nth gaps_snoc)
qed simp

lemma reorder_holes: "holes (reorder s) = holes s + of_nat (gaps (recs (reorder s)))"
  using reorder_upto_holes [of "length (recs s)" s] reorder_length [of s]
  by (simp add: reorder_def)

section \<open>A trace of bounded disorder is sorted\<close>

text \<open>Distances from a shifted origin.\<close>

lemma ahead_shift:
  assumes "k \<le> ahead s c"
  shows "ahead (s + of_nat k) c = ahead s c - k"
proof -
  have k: "k < 4294967296" using assms ahead_bound [of s c] by linarith
  have "ahead (s + of_nat k) c = unat ((c - s) - of_nat k)"
    by (simp add: ahead_def diff_diff_eq)
  moreover have "unat (of_nat k :: u32) = k" using k by (simp add: unat_of_nat)
  ultimately show ?thesis
    using assms unat_diff32 [of "c - s" "of_nat k"] by (simp add: ahead_def)
qed

lemma ahead_eqD: "ahead s c = m \<Longrightarrow> c = s + of_nat m"
  by (auto simp: ahead_def)

text \<open>
  \<open>bounded_disorder s0 a\<close>: the sequence numbers are those of an unbroken run that
  starts at \<open>s0\<close> with the first record, no record is more than \<open>LOOK_AHEAD div 2 - 1\<close>
  positions away from its place, and no record that has to overtake another is held back
  by the sequentiality constraint.
\<close>

definition bounded_disorder :: "u32 \<Rightarrow> timestamp list \<Rightarrow> bool" where
  "bounded_disorder s0 a \<longleftrightarrow>
     (let off = (\<lambda>r. ahead s0 (ts_seq_no r)) in
      mset (map off a) = mset [0..<length a] \<and>
      (a \<noteq> [] \<longrightarrow> off (a ! 0) = 0) \<and>
      (\<forall>i < length a. off (a ! i) < i + 512 \<and> i < off (a ! i) + 512) \<and>
      (\<forall>j < length a. \<forall>i < j. off (a ! j) < off (a ! i) \<longrightarrow> \<not> violates (a ! i) (a ! j)))"

text \<open>The state reached after \<open>k\<close> iterations: the first \<open>k\<close> places are final, the rest is
  the original trace without the records already placed.\<close>

definition sorted_upto :: "u32 \<Rightarrow> timestamp list \<Rightarrow> nat \<Rightarrow> timestamp list \<Rightarrow> bool" where
  "sorted_upto s0 a k b \<longleftrightarrow>
     (let off = (\<lambda>r. ahead s0 (ts_seq_no r)) in
      length b = length a \<and> map off (take k b) = [0..<k] \<and> drop k b = filter (\<lambda>r. k \<le> off r) a)"

lemma length_le_range:
  assumes "distinct xs" and "\<forall>x \<in> set xs. m < x \<and> x < m + d" and "0 < (d::nat)"
  shows "length xs < d"
proof -
  have "length xs = card (set xs)" using assms(1) by (simp add: distinct_card)
  also have "\<dots> \<le> card {Suc m..<m + d}" using assms(2) by (intro card_mono) auto
  also have "\<dots> < d" using assms(3) by simp
  finally show ?thesis .
qed

text \<open>
  Where the record with the next number stands in the rest of the trace: behind fewer
  than \<open>LOOK_AHEAD\<close> records, all of them ahead of it by less than \<open>LOOK_AHEAD\<close>, and
  free to be overtaken.
\<close>

lemma next_in_rest:
  fixes s0 :: u32 and off :: "timestamp \<Rightarrow> nat"
  defines "off \<equiv> \<lambda>r. ahead s0 (ts_seq_no r)"
  assumes bd: "bounded_disorder s0 a" and k: "k < length a"
  obtains us r vs where
    "filter (\<lambda>r. k \<le> off r) a = us @ r # vs" and "off r = k"
    and "filter (\<lambda>r. Suc k \<le> off r) a = us @ vs"
    and "length us < 1024" and "\<forall>u \<in> set us. k < off u \<and> off u < k + 1024 \<and> \<not> violates u r"
proof -
  have perm: "mset (map off a) = mset [0..<length a]"
    and near: "\<And>i. i < length a \<Longrightarrow> off (a ! i) < i + 512 \<and> i < off (a ! i) + 512"
    and free: "\<And>i j. i < j \<Longrightarrow> j < length a \<Longrightarrow> off (a ! j) < off (a ! i) \<Longrightarrow> \<not> violates (a ! i) (a ! j)"
    using bd by (auto simp: bounded_disorder_def off_def Let_def)
  have dst: "distinct (map off a)" using perm by (metis distinct_upt mset_eq_imp_distinct_iff)
  have "k \<in> set (map off a)" using perm k by (metis atLeastLessThan_iff mset_eq_setD set_upt zero_le)
  then obtain j where j: "j < length a" "off (a ! j) = k" by (auto simp: in_set_conv_nth)
  let ?xs = "take j a" and ?ys = "drop (Suc j) a" and ?r = "a ! j"
  have a: "a = ?xs @ ?r # ?ys" using j(1) by (rule id_take_nth_drop)
  have "map off a = map off ?xs @ off ?r # map off ?ys"
    by (subst a) simp
  with dst have dst: "distinct (map off ?xs @ k # map off ?ys)" by (simp add: j(2))
  have other: "off x \<noteq> k" if "x \<in> set ?xs \<union> set ?ys" for x
  proof -
    have "off x \<in> set (map off ?xs) \<union> set (map off ?ys)" using that by auto
    then show ?thesis using dst by (auto simp del: set_map)
  qed
  have rest: "filter (\<lambda>r. Suc k \<le> off r) zs = filter (\<lambda>r. k \<le> off r) zs"
    if "set zs \<subseteq> set ?xs \<union> set ?ys" for zs
    using that other by (intro filter_cong refl) (auto simp: Suc_le_eq le_less)
  let ?us = "filter (\<lambda>r. k \<le> off r) ?xs" and ?vs = "filter (\<lambda>r. k \<le> off r) ?ys"
  have near_u: "k < off u \<and> off u < k + 1022 \<and> \<not> violates u ?r" if "u \<in> set ?us" for u
  proof -
    from that obtain i where i: "i < j" "u = a ! i" using j(1) by (auto simp: in_set_conv_nth)
    have "k < off u" using that other by (auto simp: le_less)
    moreover have "off u < i + 512" using near [of i] i j(1) by simp
    moreover have "j < k + 512" using near [of j] j by simp
    moreover have "\<not> violates u ?r" using free [of i j] i j calculation(1) by simp
    ultimately show ?thesis using i(1) by simp
  qed
  have "distinct (map off ?us)"
    using dst by (simp add: distinct_map_filter)
  then have "length (map off ?us) < 1022"
    using near_u by (intro length_le_range [where m = k]) auto
  then show ?thesis
  proof (intro that [of ?us ?r ?vs])
    show "filter (\<lambda>r. k \<le> off r) a = ?us @ ?r # ?vs" by (subst a) (simp add: j(2))
    show "filter (\<lambda>r. Suc k \<le> off r) a = ?us @ ?vs" by (subst a) (simp add: j(2) rest)
  qed (use j(2) near_u in fastforce)+
qed


lemma sorted_upto_move:
  assumes s: "sorted_upto s0 a k (P @ us @ r # vs)" and "length P = k"
    and "ahead s0 (ts_seq_no r) = k"
    and "filter (\<lambda>r. Suc k \<le> ahead s0 (ts_seq_no r)) a = us @ vs"
  shows "sorted_upto s0 a (Suc k) (P @ r # us @ vs)"
  using assms by (simp add: sorted_upto_def Let_def)

lemma reorder_step_hit:
  assumes b: "recs t = P @ us @ r # vs" and P: "length P = k" and first: "k = 0 \<Longrightarrow> us = []"
    and lst: "k \<noteq> 0 \<Longrightarrow> next_seq_number lst = s0 + of_nat k"
    and r: "ahead s0 (ts_seq_no r) = k"
    and us: "length us < 1024"
      "\<forall>u \<in> set us. k < ahead s0 (ts_seq_no u) \<and> ahead s0 (ts_seq_no u) < k + 1024 \<and> \<not> violates u r"
  shows "recs (fst (reorder_step k (t, lst))) = P @ r # us @ vs"
    and "holes (fst (reorder_step k (t, lst))) = holes t"
proof -
  have seq_r: "ts_seq_no r = s0 + of_nat k" using r by (rule ahead_eqD)
  have seq_u: "ts_seq_no u \<noteq> s0 + of_nat k \<and> ahead (s0 + of_nat k) (ts_seq_no u) < 1024"
    if "u \<in> set us" for u
    using us(2) that r seq_r by (auto simp: ahead_shift)
  have at: "recs t ! (k + i) = us ! i" if "i < length us" for i
    using that P by (simp add: b nth_append)
  have at_r: "recs t ! (k + length us) = r" using P by (simp add: b nth_append)
  have below: "x \<in> {k..<k + length us} \<Longrightarrow> recs t ! x \<in> set us" for x
    using at [of "x - k"] nth_mem [of "x - k" us] by auto
  have found: "find_lowest_seq_no (recs t) k (length (recs t)) (s0 + of_nat k) = Some (k + length us)"
  proof (rule find_lowest_hit)
    show "k + length us < window_end k (length (recs t))"
      using us(1) P by (simp add: window_end_eq b LOOK_AHEAD_def)
    show "\<forall>x \<in> {k..<k + length us}. ts_seq_no (recs t ! x) \<noteq> s0 + of_nat k"
      using below seq_u by blast
    have "filter (\<lambda>x. LOOK_AHEAD \<le> Ftsort_Seqno.dist (recs t) (s0 + of_nat k) x) [k..<k + length us] = []"
      using below seq_u by (intro filter_none) (auto simp: Ftsort_Seqno.dist_def LOOK_AHEAD_def not_le)
    then show "length (filter (\<lambda>x. LOOK_AHEAD \<le> Ftsort_Seqno.dist (recs t) (s0 + of_nat k) x)
        [k..<k + length us]) \<le> MAX_NR_NOT_IN_RANGE" by simp
  qed (simp_all add: at_r seq_r)
  have moved: "recs (move_record k (k + length us) t) = P @ r # us @ vs"
    if "us \<noteq> []"
  proof -
    have "\<not> list_ex (\<lambda>prev. violates (recs t ! prev) (recs t ! (k + length us))) [k..<k + length us]"
      using below us(2) by (auto simp: list_ex_iff at_r)
    moreover have "shift_back (recs t) k (k + length us) = P @ r # us @ vs"
      using P by (subst shift_back_eq) (simp_all add: b nth_append)
    ultimately show ?thesis by (simp add: move_record_def)
  qed
  have stays: "P @ us @ r # vs = P @ r # us @ vs" if "us = []" using that by simp
  have head: "(P @ r # us @ vs) ! k = r" using P by (simp add: nth_append)
  have hit: "ts_seq_no (recs t ! k) \<noteq> s0 + of_nat k \<longleftrightarrow> us \<noteq> []"
    using at [of 0] at_r seq_u seq_r by (cases us) auto
  show "recs (fst (reorder_step k (t, lst))) = P @ r # us @ vs"
  proof (cases "k = 0 \<or> us = []")
    case True
    with hit lst first have "recs (fst (reorder_step k (t, lst))) = recs t"
      by (auto simp: reorder_step_def Let_def)
    with True first show ?thesis by (auto simp: b)
  next
    case False
    with hit lst found moved head seq_r show ?thesis
      by (simp add: reorder_step_def Let_def)
  qed
  then show "holes (fst (reorder_step k (t, lst))) = holes t"
    using lst seq_r head by (auto simp: reorder_step_holes reorder_step_last)
qed

lemma reorder_upto_sorted:
  assumes bd: "bounded_disorder s0 (recs s)"
  shows "k \<le> length (recs s) \<Longrightarrow>
    sorted_upto s0 (recs s) k (recs (fst (reorder_upto k s))) \<and>
    holes (fst (reorder_upto k s)) = holes s"
proof (induction k)
  case 0
  then show ?case by (simp add: sorted_upto_def)
next
  case (Suc k)
  let ?a = "recs s" and ?off = "\<lambda>r. ahead s0 (ts_seq_no r)"
  obtain t lst where st: "reorder_upto k s = (t, lst)" by fastforce
  have srt: "sorted_upto s0 ?a k (recs t)" and hol: "holes t = holes s"
    using Suc by (simp_all add: st)
  obtain us r vs where rest: "filter (\<lambda>r. k \<le> ?off r) ?a = us @ r # vs"
    and r: "?off r = k" and rest': "filter (\<lambda>r. Suc k \<le> ?off r) ?a = us @ vs"
    and us: "length us < 1024" "\<forall>u \<in> set us. k < ?off u \<and> ?off u < k + 1024 \<and> \<not> violates u r"
    using Suc.prems by (auto intro: next_in_rest [OF bd, of k])
  define P where "P = take k (recs t)"
  have len: "length (recs t) = length ?a" and mapP: "map ?off P = [0..<k]"
    and b: "recs t = P @ us @ r # vs"
    using srt rest append_take_drop_id [of k "recs t"]
    by (simp_all add: sorted_upto_def Let_def P_def)
  have P: "length P = k" using len Suc.prems by (simp add: P_def)
  have "us = []" if "k = 0"
  proof (rule ccontr)
    assume "us \<noteq> []"
    then have "?a ! 0 \<in> set us" using rest that by (cases us) auto
    moreover have "?off (?a ! 0) = 0" using bd Suc.prems by (auto simp: bounded_disorder_def Let_def)
    ultimately show False using us(2) by auto
  qed
  moreover have "next_seq_number lst = s0 + of_nat k" if "k \<noteq> 0"
  proof -
    have "lst = ts_seq_no (last P)"
      using that Suc.prems reorder_upto_last [of k s] by (simp add: st P_def)
    moreover have "?off (last P) = k - 1"
      using that mapP P by (metis diff_zero last_map last_upt length_0_conv not_gr_zero)
    ultimately have "lst = s0 + of_nat (k - 1)" by (simp add: ahead_eqD)
    then show ?thesis
      using that by (cases k) (simp_all add: next_seq_number_def)
  qed
  ultimately have "recs (fst (reorder_step k (t, lst))) = P @ r # us @ vs"
    and "holes (fst (reorder_step k (t, lst))) = holes t"
    using reorder_step_hit [OF b P _ _ r us] by blast+
  moreover have "sorted_upto s0 ?a (Suc k) (P @ r # us @ vs)"
    using srt b P r rest' by (intro sorted_upto_move) simp_all
  ultimately show ?case using hol by (simp add: reorder_upto_Suc st)
qed

lemma reorder_sorts:
  assumes "bounded_disorder s0 (recs s)"
  shows "map (\<lambda>r. ahead s0 (ts_seq_no r)) (recs (reorder s)) = [0..<length (recs s)]"
    and "holes (reorder s) = holes s"
  using reorder_upto_sorted [OF assms order_refl] reorder_upto_length [of "length (recs s)" s]
  by (simp_all add: reorder_def sorted_upto_def Let_def)

end
