(* ===== verification/C_Float.thy ===== *)
theory C_Float
  imports Complex_Main "HOL-Library.Log_Nat"
begin

text \<open>
  The floating-point values of the C tools.  A finite \<^verbatim>\<open>double\<close> or \<^verbatim>\<open>float\<close> is the
  rational number it denotes, and an operation is the exact one followed by rounding to
  53 or 24 significant bits, to nearest with ties to even, as IEEE 754 prescribes.  The
  exponent is not bounded: the tools convert integers below \<open>2 ^ 64\<close> and divide them by
  constants, far from overflow and from the subnormal range; the one division by a
  user-supplied value (\<^verbatim>\<open>ftsort -c\<close>) feeds a comparison with an integer below
  \<open>2 ^ 48\<close>, whose outcome is the same for a quotient beyond those ranges.
\<close>

section \<open>Rounding\<close>

definition rne :: "rat \<Rightarrow> int" where
  "rne x =
     (let f = \<lfloor>x\<rfloor>; d = x - of_int f in
      if d < 1 / 2 then f else if 1 / 2 < d then f + 1 else if even f then f else f + 1)"

text \<open>The largest \<open>k\<close> with \<open>2 ^ k \<le> x\<close>, from the bit lengths of numerator and denominator.\<close>

definition ilog2 :: "rat \<Rightarrow> int" where
  "ilog2 x =
     (let (n, d) = quotient_of x; k = bitlen n - bitlen d
      in if x < 2 powi k then k - 1 else k)"

definition round_bits :: "nat \<Rightarrow> rat \<Rightarrow> rat" where
  "round_bits p x =
     (if x = 0 then 0
      else let u = 2 powi (ilog2 \<bar>x\<bar> - int p + 1) in sgn x * (of_int (rne (\<bar>x\<bar> / u)) * u))"

definition to_double :: "rat \<Rightarrow> rat" where "to_double x = round_bits 53 x"
definition to_float :: "rat \<Rightarrow> rat" where "to_float x = round_bits 24 x"

section \<open>Rounding to an integer\<close>

lemma rne_bounds: "\<lfloor>x\<rfloor> \<le> rne x" "rne x \<le> \<lfloor>x\<rfloor> + 1"
  by (auto simp: rne_def Let_def)

lemma rne_of_int [simp]: "rne (of_int k) = k"
  by (simp add: rne_def)

lemma rne_mono: "x \<le> y \<Longrightarrow> rne x \<le> rne y"
proof (cases "\<lfloor>x\<rfloor> = \<lfloor>y\<rfloor>")
  case True
  assume "x \<le> y"
  with True show ?thesis by (auto simp: rne_def Let_def)
next
  case False
  assume "x \<le> y"
  then have "\<lfloor>x\<rfloor> + 1 \<le> \<lfloor>y\<rfloor>" using False floor_mono [of x y] by simp
  then show ?thesis using rne_bounds [of x] rne_bounds [of y] by linarith
qed

lemma rne_error: "\<bar>of_int (rne x) - x\<bar> \<le> 1 / 2"
proof -
  have "of_int \<lfloor>x\<rfloor> \<le> x" "x < of_int \<lfloor>x\<rfloor> + 1" by linarith+
  then show ?thesis by (auto simp: rne_def Let_def abs_le_iff)
qed

section \<open>The exponent\<close>

lemma powi_mono2: "k \<le> l \<Longrightarrow> (2 :: rat) powi k \<le> 2 powi l"
  by (rule power_int_increasing) simp_all

lemma powi_nonneg: "0 \<le> k \<Longrightarrow> (2 :: rat) powi k = of_int (2 ^ nat k)"
  by (simp add: power_int_def)

lemma ilog2_bounds:
  assumes "0 < x"
  shows "2 powi ilog2 x \<le> x" and "x < 2 powi (ilog2 x + 1)"
proof -
  obtain n d where q: "quotient_of x = (n, d)" by fastforce
  have d: "0 < d" using q by (rule quotient_of_denom_pos)
  have x: "x = of_int n / of_int d" using q by (rule quotient_of_div)
  then have n: "0 < n" using assms d by (simp add: zero_less_divide_iff)
  have nb: "2 ^ nat (bitlen n - 1) \<le> n" "n < 2 ^ nat (bitlen n)"
    using bitlen_bounds [OF n] by auto
  have db: "2 ^ nat (bitlen d - 1) \<le> d" "d < 2 ^ nat (bitlen d)"
    using bitlen_bounds [OF d] by auto
  have "0 < bitlen n" "0 < bitlen d" using n d bitlen_nonneg [of n] bitlen_nonneg [of d]
      bitlen_eq_zero_iff [of n] bitlen_eq_zero_iff [of d] by linarith+
  then have npow: "2 powi (bitlen n - 1) \<le> (of_int n :: rat)" "(of_int n :: rat) < 2 powi bitlen n"
    and dpow: "2 powi (bitlen d - 1) \<le> (of_int d :: rat)" "(of_int d :: rat) < 2 powi bitlen d"
    using nb db by (simp_all add: powi_nonneg)
  have "2 powi (bitlen n - bitlen d - 1) \<le> x"
  proof -
    have "2 powi (bitlen n - 1) / 2 powi bitlen d \<le> x"
      unfolding x using npow dpow d n by (intro frac_le) auto
    then show ?thesis by (simp add: power_int_diff power_int_add algebra_simps)
  qed
  moreover have "x < 2 powi (bitlen n - bitlen d + 1)"
  proof -
    have "x < 2 powi bitlen n / 2 powi (bitlen d - 1)"
      unfolding x using npow dpow d n by (intro frac_less) auto
    then show ?thesis by (simp add: power_int_diff power_int_add algebra_simps)
  qed
  ultimately show "2 powi ilog2 x \<le> x" "x < 2 powi (ilog2 x + 1)"
    by (auto simp: ilog2_def q Let_def)
qed

lemma ilog2_mono:
  assumes "0 < x" and "x \<le> y"
  shows "ilog2 x \<le> ilog2 y"
proof (rule ccontr)
  assume "\<not> ilog2 x \<le> ilog2 y"
  then have "(2 :: rat) powi (ilog2 y + 1) \<le> 2 powi ilog2 x" by (intro powi_mono2) simp
  then show False using ilog2_bounds [of x] ilog2_bounds [of y] assms by linarith
qed


section \<open>Rounding to \<open>p\<close> significant bits\<close>

definition ulp :: "nat \<Rightarrow> rat \<Rightarrow> rat" where
  "ulp p x = 2 powi (ilog2 x - int p + 1)"

lemma ulp_pos [simp]: "0 < ulp p x"
  by (simp add: ulp_def)

lemma ulp_nonzero: "ulp p x \<noteq> 0"
  by (simp add: ulp_def)

lemma ulp_nonneg [simp]: "0 \<le> ulp p x"
  by (simp add: less_imp_le)

lemma fl_pos: "0 < x \<Longrightarrow> round_bits p x = of_int (rne (x / ulp p x)) * ulp p x"
  by (simp add: round_bits_def ulp_def Let_def)

lemma ulp_scale:
  assumes "1 \<le> p"
  shows "2 ^ (p - 1) * ulp p x = 2 powi ilog2 x" and "2 ^ p * ulp p x = 2 powi (ilog2 x + 1)"
proof -
  have "2 ^ (p - 1) * ulp p x = 2 powi (int p - 1) * 2 powi (ilog2 x - int p + 1)"
    using assms by (simp add: ulp_def powi_nonneg nat_diff_distrib)
  also have "\<dots> = 2 powi ((int p - 1) + (ilog2 x - int p + 1))"
    by (rule power_int_add [symmetric]) simp
  finally show "2 ^ (p - 1) * ulp p x = 2 powi ilog2 x" by simp
  have "2 ^ p * ulp p x = 2 powi int p * 2 powi (ilog2 x - int p + 1)"
    by (simp add: ulp_def)
  also have "\<dots> = 2 powi (int p + (ilog2 x - int p + 1))"
    by (rule power_int_add [symmetric]) simp
  finally show "2 ^ p * ulp p x = 2 powi (ilog2 x + 1)" by simp
qed

lemma scaled_bounds:
  assumes "0 < x" and "1 \<le> p"
  shows "of_int (2 ^ (p - 1)) \<le> x / ulp p x" and "x / ulp p x \<le> of_int (2 ^ p)"
  using ilog2_bounds [OF assms(1)] ulp_scale [OF assms(2), of x]
  by (simp_all add: le_divide_eq divide_le_eq)

lemma fl_bounds:
  assumes "0 < x" and "1 \<le> p"
  shows "2 powi ilog2 x \<le> round_bits p x" and "round_bits p x \<le> 2 powi (ilog2 x + 1)"
proof -
  have "2 ^ (p - 1) \<le> rne (x / ulp p x)" "rne (x / ulp p x) \<le> 2 ^ p"
    using rne_mono [OF scaled_bounds(1) [OF assms]] rne_mono [OF scaled_bounds(2) [OF assms]]
    unfolding rne_of_int by simp_all
  then have "of_int (2 ^ (p - 1)) * ulp p x \<le> round_bits p x" "round_bits p x \<le> of_int (2 ^ p) * ulp p x"
    unfolding fl_pos [OF assms(1)] by (intro mult_right_mono ulp_nonneg; simp only: of_int_le_iff)+
  then show "2 powi ilog2 x \<le> round_bits p x" "round_bits p x \<le> 2 powi (ilog2 x + 1)"
    using ulp_scale [OF assms(2), of x] by simp_all
qed

lemma fl_mono:
  assumes "0 < x" and "x \<le> y" and "1 \<le> p"
  shows "round_bits p x \<le> round_bits p y"
proof (cases "ilog2 x = ilog2 y")
  case True
  then have u: "ulp p x = ulp p y" by (simp add: ulp_def)
  have "rne (x / ulp p y) \<le> rne (y / ulp p y)"
    using assms by (intro rne_mono divide_right_mono) (simp_all add: less_imp_le)
  then show ?thesis
    using assms by (simp add: fl_pos u mult_right_mono)
next
  case False
  then have "ilog2 x + 1 \<le> ilog2 y" using ilog2_mono [OF assms(1,2)] by simp
  then have "(2 :: rat) powi (ilog2 x + 1) \<le> 2 powi ilog2 y" by (rule powi_mono2)
  then show ?thesis
    using fl_bounds [of x p] fl_bounds [of y p] assms by linarith
qed

text \<open>Integers of at most \<open>p\<close> bits are exact.\<close>

lemma fl_of_nat:
  assumes "n < 2 ^ p" and "1 \<le> p"
  shows "round_bits p (of_nat n) = of_nat n"
proof (cases "n = 0")
  case False
  then have pos: "(0 :: rat) < of_nat n" by simp
  have "ilog2 (of_nat n) < int p"
  proof (rule ccontr)
    assume "\<not> ilog2 (of_nat n) < int p"
    then have "(2 :: rat) powi int p \<le> 2 powi ilog2 (of_nat n)" by (intro powi_mono2) simp
    also have "\<dots> \<le> of_nat n" using pos by (rule ilog2_bounds)
    also have "(of_nat n :: rat) < of_nat (2 ^ p)" using assms(1) by (simp only: of_nat_less_iff)
    finally show False by simp
  qed
  define k where "k = nat (int p - 1 - ilog2 (of_nat n))"
  with \<open>ilog2 (of_nat n) < int p\<close> have k: "ilog2 (of_nat n) - int p + 1 = - int k" by simp
  have u: "ulp p (of_nat n) = 1 / 2 ^ k" by (simp add: ulp_def k power_int_minus divide_inverse)
  have "of_nat n / ulp p (of_nat n) = of_int (int (n * 2 ^ k))" by (simp add: u)
  then show ?thesis
    unfolding fl_pos [OF pos] by (simp only: rne_of_int) (simp add: u)
qed (simp add: round_bits_def)

lemma round_bits_0 [simp]: "round_bits p 0 = 0"
  by (simp add: round_bits_def)

text \<open>Rounding of natural numbers is monotonic.\<close>

lemma fl_mono_nat:
  assumes "m \<le> n" and "1 \<le> p"
  shows "round_bits p (of_nat m) \<le> round_bits p (of_nat n)"
proof (cases "m = 0")
  case False
  then have "(0 :: rat) < of_nat m" by simp
  then show ?thesis by (rule fl_mono) (use assms in simp_all)
next
  case True
  have "0 \<le> round_bits p (of_nat n)"
  proof (cases "n = 0")
    case False
    then have "0 < (of_nat n :: rat)" by simp
    then have "2 powi ilog2 (of_nat n) \<le> round_bits p (of_nat n)" using assms(2) by (rule fl_bounds)
    then show ?thesis by (rule order_trans [rotated]) simp
  qed simp
  then show ?thesis using True by simp
qed

text \<open>A comparison of a rounded quotient with an exact integer errs on one side only.\<close>

lemma fl_less_of_nat:
  assumes "round_bits p x < of_nat t" and "t < 2 ^ p" and "0 < x" and "1 \<le> p"
  shows "x < of_nat t"
proof (rule ccontr)
  assume "\<not> x < of_nat t"
  moreover have "0 < t" using assms(1,3,4) fl_bounds(1) [of x p]
    by (metis gr0I leD of_nat_0 order.strict_trans1 zero_less_power_int zero_less_numeral less_imp_le)
  ultimately have "round_bits p (of_nat t) \<le> round_bits p x" using assms by (intro fl_mono) simp_all
  then show False using assms fl_of_nat by simp
qed

text \<open>The relative error is at most \<open>2 ^ - p\<close>.\<close>

lemma fl_error:
  assumes "0 < x" and "1 \<le> p"
  shows "\<bar>round_bits p x - x\<bar> * 2 ^ p \<le> x"
proof -
  let ?u = "ulp p x"
  have "\<bar>of_int (rne (x / ?u)) - x / ?u\<bar> * ?u \<le> 1 / 2 * ?u"
    by (intro mult_right_mono rne_error ulp_nonneg)
  moreover have "\<bar>of_int (rne (x / ?u)) - x / ?u\<bar> * ?u = \<bar>round_bits p x - x\<bar>"
  proof -
    have "\<bar>of_int (rne (x / ?u)) - x / ?u\<bar> * ?u = \<bar>(of_int (rne (x / ?u)) - x / ?u) * ?u\<bar>"
      by (simp add: abs_mult)
    also have "(of_int (rne (x / ?u)) - x / ?u) * ?u = round_bits p x - x"
      using ulp_nonzero [of p x] by (simp add: fl_pos [OF assms(1)] left_diff_distrib)
    finally show ?thesis .
  qed
  ultimately have "\<bar>round_bits p x - x\<bar> * 2 ^ p \<le> 1 / 2 * ?u * 2 ^ p"
    by (intro mult_right_mono) simp_all
  also have "\<dots> = 2 ^ (p - 1) * ?u" using assms(2) by (cases p) simp_all
  also have "\<dots> \<le> x" unfolding ulp_scale(1) [OF assms(2)] by (rule ilog2_bounds [OF assms(1)])
  finally show ?thesis .
qed

end
