(* ===== verification/Ftsort_Marking.thy ===== *)
theory Ftsort_Marking
  imports Ftsort_Reorder C_Float
begin

text \<open>
  The two passes of \<^verbatim>\<open>src/ftsort.c\<close> that mark records as bad by overwriting their
  event: \<open>pre_check_cpu_monotonicity\<close> (spikes and gaps in the time stamps of a CPU) and
  \<open>filter_implausible_latencies\<close> (release latencies above an upper bound on the
  non-preemptable section).  Both keep tables indexed by the CPU number with
  \<open>MAX_CPUS\<close> entries; the result is \<open>None\<close> where the code would index a table out of its
  bounds.
\<close>

definition MAX_CPUS :: nat where "MAX_CPUS = 255"
definition BAD_EVENT :: u8 where "BAD_EVENT = 255"

definition set_bad :: "nat \<Rightarrow> timestamp list \<Rightarrow> timestamp list" where
  "set_bad i a = a[i := (a ! i)\<lparr>ts_event := BAD_EVENT\<rparr>]"

definition mark_as_bad :: "nat \<Rightarrow> sort_state \<Rightarrow> sort_state" where
  "mark_as_bad i s = s\<lparr>recs := set_bad i (recs s), non_monotonic := non_monotonic s + 1\<rparr>"

section \<open>Spikes and gaps\<close>

text \<open>The test on the three latest time stamps of a CPU: spike \<open>-^-\<close>, else gap \<open>-v-\<close>.\<close>

definition is_outlier :: "u48 \<Rightarrow> u48 \<Rightarrow> u48 \<Rightarrow> bool" where
  "is_outlier prev pos nxt =
     (if prev < pos \<and> pos \<ge> nxt \<and> prev < nxt then True
      else if prev \<ge> pos \<and> pos < nxt \<and> prev < nxt then True
      else False)"

definition not_checked :: "timestamp \<Rightarrow> bool" where
  "not_checked r \<longleftrightarrow> ev r \<ge> SINGLE_RECORDS_RANGE \<or> ev r = TS_SEND_RESCHED_START"

record check_state =
  ck :: sort_state
  prev_of :: "nat option list"
  pos_of :: "nat option list"

definition check_init :: "sort_state \<Rightarrow> check_state" where
  "check_init s =
     \<lparr>ck = s, prev_of = replicate MAX_CPUS None, pos_of = replicate MAX_CPUS None\<rparr>"

definition check_step :: "nat \<Rightarrow> check_state \<Rightarrow> check_state option" where
  "check_step nxt st =
     (let a = recs (ck st); r = a ! nxt; cpu = unat (ts_cpu r) in
      if not_checked r then Some st
      else if MAX_CPUS \<le> cpu then None
      else
        let outlier = (case (prev_of st ! cpu, pos_of st ! cpu) of
                         (Some p, Some q) \<Rightarrow>
                           is_outlier (ts_timestamp (a ! p)) (ts_timestamp (a ! q)) (ts_timestamp r)
                       | _ \<Rightarrow> False)
        in if outlier
           then Some (st\<lparr>ck := mark_as_bad (the (pos_of st ! cpu)) (ck st),
                         pos_of := (pos_of st)[cpu := Some nxt]\<rparr>)
           else Some (st\<lparr>prev_of := (prev_of st)[cpu := pos_of st ! cpu],
                         pos_of := (pos_of st)[cpu := Some nxt]\<rparr>))"

fun check_upto :: "nat \<Rightarrow> sort_state \<Rightarrow> check_state option" where
  "check_upto 0 s = Some (check_init s)"
| "check_upto (Suc k) s =
     (case check_upto k s of None \<Rightarrow> None | Some st \<Rightarrow> check_step k st)"

definition pre_check_cpu_monotonicity :: "sort_state \<Rightarrow> sort_state option" where
  "pre_check_cpu_monotonicity s = map_option ck (check_upto (length (recs s)) s)"

section \<open>Implausible latencies\<close>

text \<open>
  \<open>find_np_upper_bound\<close>: the loop from \<open>start\<close>, whose predecessor record is at
  \<open>start - 1\<close>.
\<close>

function np_loop :: "timestamp list \<Rightarrow> u8 \<Rightarrow> nat \<Rightarrow> nat option" where
  "np_loop a cpu pos =
     (if pos < length a \<and> ts_seq_no (a ! (pos - 1)) + 1 = ts_seq_no (a ! pos) then
        if ts_cpu (a ! pos) = cpu \<and>
           (ev (a ! pos) = TS_RELEASE_START \<or> ev (a ! pos) = TS_SCHED_START)
        then Some pos
        else np_loop a cpu (Suc pos)
      else None)"
  by pat_completeness auto
termination by (relation "measure (\<lambda>(a, cpu, pos). length a - pos)") auto

declare np_loop.simps [simp del]

definition find_np_upper_bound :: "u8 \<Rightarrow> nat \<Rightarrow> timestamp list \<Rightarrow> nat option" where
  "find_np_upper_bound cpu start a = np_loop a cpu start"

record filter_state =
  fs :: sort_state
  lp_valid :: "bool list"
  last_preemptable :: "u64 list"

text \<open>
  \<^verbatim>\<open>delta / cycles_per_nanosecond < pos->timestamp\<close>: a \<^verbatim>\<open>uint64_t\<close> and a
  \<^verbatim>\<open>double\<close> divided, the quotient compared with the converted integer.
\<close>

definition below_latency :: "rat \<Rightarrow> u64 \<Rightarrow> u48 \<Rightarrow> bool" where
  "below_latency cycles delta latency \<longleftrightarrow>
     to_double (to_double (of_nat (unat delta)) / cycles) < to_double (of_nat (unat latency))"

definition filter_step :: "rat \<Rightarrow> nat \<Rightarrow> filter_state \<Rightarrow> filter_state option" where
  "filter_step cycles pos st =
     (let a = recs (fs st); r = a ! pos; nxt = a ! Suc pos; cpu = unat (ts_cpu r) in
      if ts_seq_no r + 1 \<noteq> ts_seq_no nxt then
        Some (st\<lparr>lp_valid := replicate MAX_CPUS False\<rparr>)
      else if ev r = TS_SCHED_START then
        if MAX_CPUS \<le> cpu then None
        else Some (st\<lparr>lp_valid := (lp_valid st)[cpu := True],
                      last_preemptable := (last_preemptable st)[cpu := ucast (ts_timestamp r)]\<rparr>)
      else if ev r = TS_RELEASE_LATENCY then
        if MAX_CPUS \<le> cpu then None
        else if lp_valid st ! cpu then
          (case find_np_upper_bound (ts_cpu r) (Suc pos) a of
             None \<Rightarrow> Some st
           | Some q \<Rightarrow>
               let bound = ucast (ts_timestamp (a ! q)) :: u64; lp = last_preemptable st ! cpu in
               if bound > lp \<and> below_latency cycles (bound - lp) (ts_timestamp r)
               then Some (st\<lparr>fs := (fs st)\<lparr>recs := set_bad pos a,
                                        implausible := implausible (fs st) + 1\<rparr>\<rparr>)
               else Some st)
        else Some st
      else Some st)"

text \<open>
  \<open>lp0\<close> is the indeterminate initial content of the array \<open>last_preemptable\<close>, which the
  code does not initialise.  The loop runs while \<open>pos + 1 < end\<close>.
\<close>

fun filter_upto :: "u64 list \<Rightarrow> rat \<Rightarrow> nat \<Rightarrow> sort_state \<Rightarrow> filter_state option" where
  "filter_upto lp0 cycles 0 s =
     Some \<lparr>fs = s, lp_valid = replicate MAX_CPUS False, last_preemptable = lp0\<rparr>"
| "filter_upto lp0 cycles (Suc k) s =
     (case filter_upto lp0 cycles k s of None \<Rightarrow> None | Some st \<Rightarrow> filter_step cycles k st)"

definition filter_implausible_latencies ::
    "u64 list \<Rightarrow> rat \<Rightarrow> sort_state \<Rightarrow> sort_state option" where
  "filter_implausible_latencies lp0 cycles s =
     map_option fs (filter_upto lp0 cycles (length (recs s) - 1) s)"

section \<open>Marks\<close>

text \<open>The relation between an array before and after marking, and the marked places.\<close>

definition marked :: "timestamp list \<Rightarrow> timestamp list \<Rightarrow> nat \<Rightarrow> bool" where
  "marked a b i \<longleftrightarrow> b ! i \<noteq> a ! i"

definition only_marks :: "timestamp list \<Rightarrow> timestamp list \<Rightarrow> bool" where
  "only_marks a b \<longleftrightarrow> length b = length a \<and>
     (\<forall>i < length a. b ! i = a ! i \<or> b ! i = (a ! i)\<lparr>ts_event := BAD_EVENT\<rparr>)"

definition marks :: "timestamp list \<Rightarrow> timestamp list \<Rightarrow> nat" where
  "marks a b = card {i. i < length a \<and> marked a b i}"

lemma only_marks_refl [simp]: "only_marks a a"
  by (simp add: only_marks_def)

lemma marks_refl [simp]: "marks a a = 0"
  by (simp add: marks_def marked_def)

lemma length_set_bad [simp]: "length (set_bad i a) = length a"
  by (simp add: set_bad_def)

lemma nth_set_bad: "j < length a \<Longrightarrow>
    set_bad i a ! j = (if j = i then (a ! i)\<lparr>ts_event := BAD_EVENT\<rparr> else a ! j)"
  by (simp add: set_bad_def)

lemma only_marks_set_bad: "only_marks a b \<Longrightarrow> only_marks a (set_bad i b)"
  by (auto simp: only_marks_def nth_set_bad)

text \<open>Marking one more record, not marked before, adds one.\<close>

lemma marks_set_bad:
  assumes "only_marks a b" and i: "i < length a" and "b ! i = a ! i" and "ts_event (a ! i) \<noteq> BAD_EVENT"
  shows "marks a (set_bad i b) = Suc (marks a b)"
    and "marked a (set_bad i b) j \<longleftrightarrow> marked a b j \<or> j = i"
proof -
  have len: "length b = length a" using assms(1) by (simp add: only_marks_def)
  have bad: "(a ! i)\<lparr>ts_event := BAD_EVENT\<rparr> \<noteq> a ! i"
    using assms(4) by (metis timestamp.select_convs(5) timestamp.surjective timestamp.update_convs(5))
  show *: "marked a (set_bad i b) j \<longleftrightarrow> marked a b j \<or> j = i" for j
    using i len bad assms(3)
    by (cases "j = i") (auto simp: marked_def set_bad_def)
  have "{j. j < length a \<and> marked a (set_bad i b) j} = insert i {j. j < length a \<and> marked a b j}"
    using i * by auto
  moreover have "i \<notin> {j. j < length a \<and> marked a b j}" using assms(3) by (simp add: marked_def)
  ultimately show "marks a (set_bad i b) = Suc (marks a b)" by (simp add: marks_def)
qed

text \<open>Marks on marks, marks on a rearranged array, and their number.\<close>

lemma only_marks_trans:
  assumes "only_marks a b" and "only_marks b c"
  shows "only_marks a c"
proof -
  have len: "length b = length a" "length c = length a" using assms by (auto simp: only_marks_def)
  have "c ! i = a ! i \<or> c ! i = (a ! i)\<lparr>ts_event := BAD_EVENT\<rparr>" if "i < length a" for i
  proof -
    have "b ! i = a ! i \<or> b ! i = (a ! i)\<lparr>ts_event := BAD_EVENT\<rparr>"
      "c ! i = b ! i \<or> c ! i = (b ! i)\<lparr>ts_event := BAD_EVENT\<rparr>"
      using assms len that by (auto simp: only_marks_def)
    then show ?thesis by (elim disjE) simp_all
  qed
  with len show ?thesis by (simp add: only_marks_def)
qed

lemma only_marks_all2:
  "only_marks a b \<longleftrightarrow> list_all2 (\<lambda>r r'. r' = r \<or> r' = r\<lparr>ts_event := BAD_EVENT\<rparr>) a b"
  by (auto simp: only_marks_def list_all2_conv_all_nth)

lemma only_marks_permuted:
  "only_marks a b \<Longrightarrow> mset c = mset a \<Longrightarrow> \<exists>d. only_marks c d \<and> mset d = mset b"
  unfolding only_marks_all2 by (rule list_all2_reorder_left_invariance)

definition bad_records :: "timestamp list \<Rightarrow> nat" where
  "bad_records a = size (filter_mset (\<lambda>r. ts_event r = BAD_EVENT) (mset a))"

lemma marks_bad_records:
  assumes "only_marks a b"
  shows "bad_records b = bad_records a + marks a b"
proof -
  let ?bad = "\<lambda>xs. {i. i < length xs \<and> ts_event (xs ! i) = BAD_EVENT}"
  have n: "bad_records xs = card (?bad xs)" for xs
    unfolding bad_records_def mset_filter [symmetric] size_mset by (rule length_filter_conv_card)
  have len: "length b = length a" and at: "\<And>i. i < length a \<Longrightarrow> b ! i = a ! i \<or> b ! i = (a ! i)\<lparr>ts_event := BAD_EVENT\<rparr>"
    using assms by (auto simp: only_marks_def)
  have same: "r\<lparr>ts_event := BAD_EVENT\<rparr> = r" if "ts_event r = BAD_EVENT" for r :: timestamp
    using that by (cases r) simp
  have "?bad b = ?bad a \<union> {i. i < length a \<and> marked a b i}"
  proof (intro set_eqI iffI)
    fix i assume "i \<in> ?bad b"
    then show "i \<in> ?bad a \<union> {i. i < length a \<and> marked a b i}" using len by (auto simp: marked_def)
  next
    fix i assume "i \<in> ?bad a \<union> {i. i < length a \<and> marked a b i}"
    then show "i \<in> ?bad b" using len at [of i] by (auto simp: marked_def)
  qed
  moreover have "?bad a \<inter> {i. i < length a \<and> marked a b i} = {}"
    using at same by (fastforce simp: marked_def)
  ultimately show ?thesis unfolding n marks_def by (simp add: card_Un_disjoint)
qed

text \<open>
  What a pass that only marks is used for: everything that does not read the events is
  the same after it.
\<close>

locale marking_pass =
  fixes pass :: "sort_state \<Rightarrow> sort_state option"
  assumes pass_marks: "pass s = Some s' \<Longrightarrow> only_marks (recs s) (recs s')"
begin

lemma pass_length: "pass s = Some s' \<Longrightarrow> length (recs s') = length (recs s)"
  using pass_marks by (simp add: only_marks_def)

lemma pass_keeps:
  assumes "pass s = Some s'" and "\<And>r. f (r\<lparr>ts_event := BAD_EVENT\<rparr>) = f r"
  shows "map f (recs s') = map f (recs s)"
proof (rule nth_equalityI)
  fix i assume "i < length (map f (recs s'))"
  then have "i < length (recs s)" using pass_length [OF assms(1)] by simp
  then show "map f (recs s') ! i = map f (recs s) ! i"
    using pass_marks [OF assms(1)] pass_length [OF assms(1)] assms(2)
    by (auto simp: only_marks_def)
qed (simp add: pass_length [OF assms(1)])

lemma pass_seq_nos: "pass s = Some s' \<Longrightarrow> map ts_seq_no (recs s') = map ts_seq_no (recs s)"
  by (rule pass_keeps) simp_all

lemma pass_times: "pass s = Some s' \<Longrightarrow> map ts_timestamp (recs s') = map ts_timestamp (recs s)"
  by (rule pass_keeps) simp_all

end


section \<open>The monotonicity check, CPU by CPU\<close>

text \<open>
  The specification for a single CPU: walk over its time stamps with the latest accepted
  one and the one under test, and flag the one under test when its successor shows it to
  be a spike or a gap.  \<open>lane a c k\<close> are the places below \<open>k\<close> of the checked records of
  CPU \<open>c\<close>.
\<close>

fun cpu_scan :: "u48 option \<Rightarrow> u48 \<Rightarrow> u48 list \<Rightarrow> bool list" where
  "cpu_scan prev pos [] = [False]"
| "cpu_scan prev pos (nxt # ns) =
     (if case prev of None \<Rightarrow> False | Some p \<Rightarrow> is_outlier p pos nxt
      then True # cpu_scan prev nxt ns
      else False # cpu_scan (Some pos) nxt ns)"

fun cpu_flags :: "u48 list \<Rightarrow> bool list" where
  "cpu_flags [] = []"
| "cpu_flags (t # ts) = cpu_scan None t ts"

definition lane :: "timestamp list \<Rightarrow> nat \<Rightarrow> nat \<Rightarrow> nat list" where
  "lane a c k = filter (\<lambda>i. \<not> not_checked (a ! i) \<and> unat (ts_cpu (a ! i)) = c) [0..<k]"

definition lane_times :: "timestamp list \<Rightarrow> nat list \<Rightarrow> u48 list" where
  "lane_times a is = map (\<lambda>i. ts_timestamp (a ! i)) is"

text \<open>The two table entries of a CPU describe the scan of its lane.\<close>

definition lane_inv ::
    "timestamp list \<Rightarrow> timestamp list \<Rightarrow> nat \<Rightarrow> nat \<Rightarrow> nat option \<Rightarrow> nat option \<Rightarrow> bool" where
  "lane_inv a b k c prev pos \<longleftrightarrow>
     (if lane a c k = [] then prev = None \<and> pos = None
      else pos = Some (last (lane a c k)) \<and> \<not> marked a b (last (lane a c k)) \<and>
        (\<forall>p. prev = Some p \<longrightarrow> p < k) \<and>
        (\<forall>ns. cpu_flags (lane_times a (lane a c k) @ ns) =
           map (marked a b) (butlast (lane a c k)) @
           cpu_scan (map_option (\<lambda>i. ts_timestamp (a ! i)) prev)
             (ts_timestamp (a ! last (lane a c k))) ns))"

lemma lane_mem: "i \<in> set (lane a c k) \<Longrightarrow> i < k \<and> \<not> not_checked (a ! i) \<and> unat (ts_cpu (a ! i)) = c"
  by (auto simp: lane_def)

lemma lane_distinct: "distinct (lane a c k)"
  by (simp add: lane_def)

lemma lane_Suc: "lane a c (Suc k) =
    lane a c k @ (if \<not> not_checked (a ! k) \<and> unat (ts_cpu (a ! k)) = c then [k] else [])"
  by (simp add: lane_def)

lemma lane_inv_other:
  assumes "lane_inv a b k c prev pos" and "lane a c (Suc k) = lane a c k"
    and "\<forall>i \<in> set (lane a c k). marked a b' i \<longleftrightarrow> marked a b i"
  shows "lane_inv a b' (Suc k) c prev pos"
proof -
  have "map (marked a b') (butlast (lane a c k)) = map (marked a b) (butlast (lane a c k))"
    using assms(3) by (auto dest: in_set_butlastD)
  then show ?thesis
    using assms by (auto simp: lane_inv_def less_SucI)
qed

lemma lane_inv_accept:
  assumes inv: "lane_inv a b k c prev pos" and ext: "lane a c (Suc k) = lane a c k @ [k]"
    and ok: "\<And>p q. prev = Some p \<Longrightarrow> pos = Some q \<Longrightarrow>
      \<not> is_outlier (ts_timestamp (a ! p)) (ts_timestamp (a ! q)) (ts_timestamp (a ! k))"
    and fresh: "\<not> marked a b k"
  shows "lane_inv a b (Suc k) c pos (Some k)"
proof (cases "lane a c k = []")
  case True
  with inv ext fresh show ?thesis by (simp add: lane_inv_def lane_times_def)
next
  case False
  let ?q = "last (lane a c k)"
  have pos: "pos = Some ?q" and um: "\<not> marked a b ?q"
    and scan: "\<And>ns. cpu_flags (lane_times a (lane a c k) @ ns) =
      map (marked a b) (butlast (lane a c k)) @
      cpu_scan (map_option (\<lambda>i. ts_timestamp (a ! i)) prev) (ts_timestamp (a ! ?q)) ns"
    using inv False by (simp_all add: lane_inv_def)
  have "?q < k" using False last_in_set lane_mem by blast
  have "cpu_flags (lane_times a (lane a c k @ [k]) @ ns) =
      map (marked a b) (lane a c k) @ cpu_scan (Some (ts_timestamp (a ! ?q))) (ts_timestamp (a ! k)) ns"
    for ns
  proof -
    have "map (marked a b) (lane a c k) = map (marked a b) (butlast (lane a c k) @ [?q])"
      using False by simp
    then have "map (marked a b) (lane a c k) = map (marked a b) (butlast (lane a c k)) @ [False]"
      using um by (simp del: append_butlast_last_id)
    then show ?thesis
      using scan [of "ts_timestamp (a ! k) # ns"] ok pos
      by (auto simp: lane_times_def split: option.splits)
  qed
  then show ?thesis
    using ext pos fresh \<open>?q < k\<close> by (simp add: lane_inv_def)
qed

lemma lane_inv_reject:
  assumes inv: "lane_inv a b k c (Some p) (Some q)" and ext: "lane a c (Suc k) = lane a c k @ [k]"
    and bad: "is_outlier (ts_timestamp (a ! p)) (ts_timestamp (a ! q)) (ts_timestamp (a ! k))"
    and mk: "\<And>j. marked a b' j \<longleftrightarrow> marked a b j \<or> j = q" and fresh: "\<not> marked a b k"
  shows "lane_inv a b' (Suc k) c (Some p) (Some k)"
proof -
  have ne: "lane a c k \<noteq> []" using inv by (auto simp: lane_inv_def)
  have q: "q = last (lane a c k)" and "p < k"
    and scan: "\<And>ns. cpu_flags (lane_times a (lane a c k) @ ns) =
      map (marked a b) (butlast (lane a c k)) @
      cpu_scan (Some (ts_timestamp (a ! p))) (ts_timestamp (a ! q)) ns"
    using inv ne by (simp_all add: lane_inv_def)
  have split: "lane a c k = butlast (lane a c k) @ [q]" using ne q by simp
  then have "q \<notin> set (butlast (lane a c k))" using lane_distinct [of a c k]
    by (metis distinct_append disjoint_iff list.set_intros(1))
  then have "map (marked a b') (lane a c k) = map (marked a b) (butlast (lane a c k)) @ [True]"
    using mk by (subst split) auto
  then have "cpu_flags (lane_times a (lane a c k @ [k]) @ ns) =
      map (marked a b') (lane a c k) @ cpu_scan (Some (ts_timestamp (a ! p))) (ts_timestamp (a ! k)) ns"
    for ns
    using scan [of "ts_timestamp (a ! k) # ns"] bad by (simp add: lane_times_def)
  moreover have "q < k" using ne q last_in_set lane_mem by blast
  ultimately show ?thesis
    using ext mk fresh \<open>p < k\<close> by (simp add: lane_inv_def)
qed


text \<open>The whole table of the pass after \<open>k\<close> records.\<close>

definition check_inv :: "sort_state \<Rightarrow> nat \<Rightarrow> check_state \<Rightarrow> bool" where
  "check_inv s k st \<longleftrightarrow>
     (let a = recs s; b = recs (ck st) in
      only_marks a b \<and> length (prev_of st) = MAX_CPUS \<and> length (pos_of st) = MAX_CPUS \<and>
      ck st = s\<lparr>recs := b, non_monotonic := non_monotonic s + of_nat (marks a b)\<rparr> \<and>
      (\<forall>i. i < length a \<and> marked a b i \<longrightarrow> i < k \<and> \<not> not_checked (a ! i)) \<and>
      (\<forall>c < MAX_CPUS. lane_inv a b k c (prev_of st ! c) (pos_of st ! c)))"

lemma check_inv_init: "check_inv s 0 (check_init s)"
  by (simp add: check_inv_def check_init_def marked_def lane_inv_def lane_def)

lemma only_marks_time: "only_marks a b \<Longrightarrow> i < length a \<Longrightarrow> ts_timestamp (b ! i) = ts_timestamp (a ! i)"
  by (auto simp: only_marks_def)

text \<open>A record under test is a checked one, hence not yet marked bad.\<close>

lemma lane_inv_bounds:
  assumes "lane_inv a b k c prev pos" and "k \<le> length a"
  shows "pos = Some q \<Longrightarrow> q \<in> set (lane a c k) \<and> q < length a \<and> \<not> marked a b q"
    and "prev = Some p \<Longrightarrow> p < length a \<and> pos \<noteq> None"
proof -
  have "lane a c k \<noteq> [] \<Longrightarrow> last (lane a c k) \<in> set (lane a c k)" by simp
  then show "pos = Some q \<Longrightarrow> q \<in> set (lane a c k) \<and> q < length a \<and> \<not> marked a b q"
    and "prev = Some p \<Longrightarrow> p < length a \<and> pos \<noteq> None"
    using assms lane_mem [of "last (lane a c k)" a c k]
    by (auto simp: lane_inv_def split: if_splits)
qed

lemma checked_not_bad: "\<not> not_checked r \<Longrightarrow> ts_event r \<noteq> BAD_EVENT"
  by (auto simp: not_checked_def ev_def BAD_EVENT_def event_ids)

lemma check_inv_step:
  assumes inv: "check_inv s k st" and k: "k < length (recs s)" and step: "check_step k st = Some st'"
  shows "check_inv s (Suc k) st'"
proof -
  let ?a = "recs s" and ?b = "recs (ck st)"
  let ?cpu = "unat (ts_cpu (?a ! k))"
  have om: "only_marks ?a ?b" and lp: "length (prev_of st) = MAX_CPUS" and lq: "length (pos_of st) = MAX_CPUS"
    and ck: "ck st = s\<lparr>recs := ?b, non_monotonic := non_monotonic s + of_nat (marks ?a ?b)\<rparr>"
    and mk: "\<And>i. i < length ?a \<Longrightarrow> marked ?a ?b i \<Longrightarrow> i < k \<and> \<not> not_checked (?a ! i)"
    and lane: "\<And>c. c < MAX_CPUS \<Longrightarrow> lane_inv ?a ?b k c (prev_of st ! c) (pos_of st ! c)"
    using inv by (auto simp: check_inv_def Let_def)
  have bk: "?b ! k = ?a ! k" and fresh: "\<not> marked ?a ?b k"
    using mk [OF k] by (auto simp: marked_def)
  show ?thesis
  proof (cases "not_checked (?a ! k)")
    case True
    then have "st' = st" using step by (simp add: check_step_def bk)
    moreover have "lane_inv ?a ?b (Suc k) c (prev_of st ! c) (pos_of st ! c)" if "c < MAX_CPUS" for c
      using lane [OF that] True by (auto intro: lane_inv_other simp: lane_Suc)
    ultimately show ?thesis using om lp lq ck mk by (auto simp: check_inv_def Let_def less_SucI)
  next
    case False
    then have cpu: "?cpu < MAX_CPUS" using step by (auto simp: check_step_def bk Let_def split: if_splits)
    have ext: "lane ?a ?cpu (Suc k) = lane ?a ?cpu k @ [k]" using False by (simp add: lane_Suc)
    have others: "lane ?a c (Suc k) = lane ?a c k" if "c \<noteq> ?cpu" for c using that by (simp add: lane_Suc)
    let ?out = "case (prev_of st ! ?cpu, pos_of st ! ?cpu) of
        (Some p, Some q) \<Rightarrow>
          is_outlier (ts_timestamp (?a ! p)) (ts_timestamp (?a ! q)) (ts_timestamp (?a ! k))
      | _ \<Rightarrow> False"
    have same_out: "(case (prev_of st ! ?cpu, pos_of st ! ?cpu) of
        (Some p, Some q) \<Rightarrow>
          is_outlier (ts_timestamp (?b ! p)) (ts_timestamp (?b ! q)) (ts_timestamp (?a ! k))
      | _ \<Rightarrow> False) = ?out"
      using lane_inv_bounds [OF lane [OF cpu]] k only_marks_time [OF om]
      by (auto split: option.splits)
    show ?thesis
    proof (cases ?out)
      case True
      then obtain p q where pq: "prev_of st ! ?cpu = Some p" "pos_of st ! ?cpu = Some q"
        and bad: "is_outlier (ts_timestamp (?a ! p)) (ts_timestamp (?a ! q)) (ts_timestamp (?a ! k))"
        by (auto split: option.splits)
      have badb: "is_outlier (ts_timestamp (?b ! p)) (ts_timestamp (?b ! q)) (ts_timestamp (?a ! k))"
        using same_out bad pq by simp
      have q: "q \<in> set (lane ?a ?cpu k)" "q < length ?a" "\<not> marked ?a ?b q"
        using lane_inv_bounds(1) [OF lane [OF cpu] _ pq(2)] k by simp_all
      have st': "st' = st\<lparr>ck := mark_as_bad q (ck st), pos_of := (pos_of st)[?cpu := Some k]\<rparr>"
        using step False cpu pq badb by (simp add: check_step_def bk Let_def)
      have new: "recs (ck st') = set_bad q ?b" by (simp add: st' mark_as_bad_def)
      note m = marks_set_bad [OF om q(2)]
      have bq: "?b ! q = ?a ! q" using q(3) by (simp add: marked_def)
      have nb: "ts_event (?a ! q) \<noteq> BAD_EVENT"
        using lane_mem [OF q(1)] by (simp add: checked_not_bad)
      have "lane_inv ?a (set_bad q ?b) (Suc k) c (prev_of st' ! c) (pos_of st' ! c)"
        if "c < MAX_CPUS" for c
      proof (cases "c = ?cpu")
        case True
        show ?thesis
          unfolding True using lane_inv_reject [OF _ ext bad m(2) [OF bq nb] fresh] lane [OF cpu] pq cpu
          by (simp add: st' lq)
      next
        case False
        have "\<forall>i \<in> set (lane ?a c k). marked ?a (set_bad q ?b) i \<longleftrightarrow> marked ?a ?b i"
          using m(2) [OF bq nb] False lane_mem [OF q(1)] lane_mem by blast
        with False show ?thesis
          using lane_inv_other [OF lane [OF that] others [OF False]] by (simp add: st')
      qed
      moreover have "ck st' = s\<lparr>recs := set_bad q ?b,
          non_monotonic := non_monotonic s + of_nat (marks ?a (set_bad q ?b))\<rparr>"
      proof -
        obtain b where b: "recs (ck st) = b" by simp
        then have "ck st = s\<lparr>recs := b, non_monotonic := non_monotonic s + of_nat (marks ?a b)\<rparr>"
          using ck by simp
        then show ?thesis
          using m(1) [OF bq nb] unfolding b by (simp add: st' mark_as_bad_def)
      qed
      moreover have "i < Suc k \<and> \<not> not_checked (?a ! i)"
        if "i < length ?a" "marked ?a (set_bad q ?b) i" for i
        using that mk [of i] m(2) [OF bq nb] lane_mem [OF q(1)] by auto
      moreover have "length (prev_of st') = MAX_CPUS" "length (pos_of st') = MAX_CPUS"
        by (simp_all add: st' lp lq)
      ultimately show ?thesis
        unfolding check_inv_def Let_def new using only_marks_set_bad [OF om] by blast
    next
      case ok: False
      have st': "st' = st\<lparr>prev_of := (prev_of st)[?cpu := pos_of st ! ?cpu],
          pos_of := (pos_of st)[?cpu := Some k]\<rparr>"
        using step False cpu ok same_out
        by (auto simp: check_step_def bk Let_def split: option.splits)
      have "lane_inv ?a ?b (Suc k) c (prev_of st' ! c) (pos_of st' ! c)" if "c < MAX_CPUS" for c
      proof (cases "c = ?cpu")
        case True
        have "lane_inv ?a ?b (Suc k) ?cpu (pos_of st ! ?cpu) (Some k)"
          by (rule lane_inv_accept [OF lane [OF cpu] ext _ fresh]) (use ok in simp)
        with True show ?thesis using cpu by (simp add: st' lp lq)
      next
        case False
        then show ?thesis
          using lane_inv_other [OF lane [OF that] others [OF False]] by (simp add: st')
      qed
      then show ?thesis
        using om lp lq mk ck by (auto simp: check_inv_def Let_def st' less_SucI)
    qed
  qed
qed


lemma check_upto_inv: "check_upto k s = Some st \<Longrightarrow> k \<le> length (recs s) \<Longrightarrow> check_inv s k st"
proof (induction k arbitrary: st)
  case 0
  then show ?case using check_inv_init [of s] by auto
next
  case (Suc k)
  then obtain st0 where "check_upto k s = Some st0" "check_step k st0 = Some st"
    by (auto split: option.splits)
  with Suc show ?case using check_inv_step by simp
qed

text \<open>The outcome of the pass.\<close>

lemma pre_check_sound:
  assumes "pre_check_cpu_monotonicity s = Some s'"
  shows "only_marks (recs s) (recs s')"
    and "s' = s\<lparr>recs := recs s', non_monotonic := non_monotonic s + of_nat (marks (recs s) (recs s'))\<rparr>"
    and "i < length (recs s) \<Longrightarrow> marked (recs s) (recs s') i \<Longrightarrow> \<not> not_checked (recs s ! i)"
    and "c < MAX_CPUS \<Longrightarrow> map (marked (recs s) (recs s')) (lane (recs s) c (length (recs s))) =
      cpu_flags (lane_times (recs s) (lane (recs s) c (length (recs s))))"
proof -
  let ?n = "length (recs s)" and ?L = "lane (recs s) c (length (recs s))"
  obtain st where "check_upto ?n s = Some st" and s': "s' = ck st"
    using assms by (auto simp: pre_check_cpu_monotonicity_def)
  then have inv: "check_inv s ?n st" using check_upto_inv by simp
  then show "only_marks (recs s) (recs s')"
    and "s' = s\<lparr>recs := recs s', non_monotonic := non_monotonic s + of_nat (marks (recs s) (recs s'))\<rparr>"
    and "i < ?n \<Longrightarrow> marked (recs s) (recs s') i \<Longrightarrow> \<not> not_checked (recs s ! i)"
    by (simp_all add: check_inv_def Let_def s')
  show "map (marked (recs s) (recs s')) ?L = cpu_flags (lane_times (recs s) ?L)" if "c < MAX_CPUS"
  proof (cases "?L = []")
    case True
    then show ?thesis by (simp add: lane_times_def)
  next
    case False
    have "lane_inv (recs s) (recs s') ?n c (prev_of st ! c) (pos_of st ! c)"
      using inv that by (simp add: check_inv_def Let_def s')
    then have "cpu_flags (lane_times (recs s) ?L @ []) =
        map (marked (recs s) (recs s')) (butlast ?L) @ [False]"
      and "\<not> marked (recs s) (recs s') (last ?L)"
      using False unfolding lane_inv_def by (metis cpu_scan.simps(1))+
    moreover have "map (marked (recs s) (recs s')) ?L =
        map (marked (recs s) (recs s')) (butlast ?L @ [last ?L])" using False by simp
    ultimately show ?thesis by (simp del: append_butlast_last_id)
  qed
qed

text \<open>It leaves the tables exactly when a checked record comes from CPU 255.\<close>

lemma check_step_None:
  assumes "check_inv s k st" and "k < length (recs s)"
  shows "check_step k st = None \<longleftrightarrow>
    \<not> not_checked (recs s ! k) \<and> MAX_CPUS \<le> unat (ts_cpu (recs s ! k))"
proof -
  have "recs (ck st) ! k = recs s ! k"
    using assms by (auto simp: check_inv_def Let_def marked_def)
  then show ?thesis by (auto simp: check_step_def Let_def)
qed

lemma check_upto_None:
  "k \<le> length (recs s) \<Longrightarrow> check_upto k s = None \<longleftrightarrow>
    (\<exists>i < k. \<not> not_checked (recs s ! i) \<and> MAX_CPUS \<le> unat (ts_cpu (recs s ! i)))"
proof (induction k)
  case (Suc k)
  then show ?case
    using check_upto_inv [of k s] check_step_None [of s k]
    by (auto simp: less_Suc_eq split: option.splits)
qed simp

lemma pre_check_None:
  "pre_check_cpu_monotonicity s = None \<longleftrightarrow>
    (\<exists>r \<in> set (recs s). \<not> not_checked r \<and> ts_cpu r = 255)"
proof -
  have "MAX_CPUS \<le> unat (ts_cpu r) \<longleftrightarrow> ts_cpu r = 255" for r :: timestamp
  proof -
    have "MAX_CPUS \<le> unat (ts_cpu r) \<longleftrightarrow> unat (ts_cpu r) = unat (255 :: u8)"
      using word_unat_bound8 [of "ts_cpu r"] by (auto simp: MAX_CPUS_def simp del: word_unat_bound8)
    then show ?thesis by (simp add: word_unat_eq_iff)
  qed
  then show ?thesis
    using check_upto_None [of "length (recs s)" s]
      ex_nth_iff [of "recs s" "\<lambda>r. \<not> not_checked r \<and> ts_cpu r = 255"]
    by (simp add: pre_check_cpu_monotonicity_def)
qed

interpretation pre_check: marking_pass pre_check_cpu_monotonicity
  by unfold_locales (rule pre_check_sound)

text \<open>A CPU whose time stamps grow strictly is not touched.\<close>

lemma cpu_scan_mono:
  "sorted_wrt (<) (t # ts) \<Longrightarrow> (\<forall>p. prev = Some p \<longrightarrow> p < t) \<Longrightarrow>
   cpu_scan prev t ts = replicate (Suc (length ts)) False"
  by (induction prev t ts rule: cpu_scan.induct) (auto simp: is_outlier_def split: option.splits)

lemma cpu_flags_mono: "sorted_wrt (<) ts \<Longrightarrow> cpu_flags ts = replicate (length ts) False"
  by (cases ts) (auto simp: cpu_scan_mono)


section \<open>The latency filter, record by record\<close>

text \<open>
  First the test that the pass makes for a record, without its tables: the latest
  \<open>SCHED_START\<close> of a CPU before \<open>k\<close> with no hole in between, and the code's search for the
  end of the section.  At the end of this part the test is shown to be \<open>implausible_at\<close>, which
  says what it means.
\<close>

fun last_sched :: "timestamp list \<Rightarrow> u8 \<Rightarrow> nat \<Rightarrow> nat option" where
  "last_sched a cpu 0 = None"
| "last_sched a cpu (Suc k) =
     (if ts_seq_no (a ! k) + 1 \<noteq> ts_seq_no (a ! Suc k) then None
      else if ev (a ! k) = TS_SCHED_START \<and> ts_cpu (a ! k) = cpu then Some k
      else last_sched a cpu k)"

definition latency_test :: "rat \<Rightarrow> timestamp list \<Rightarrow> nat \<Rightarrow> bool" where
  "latency_test cycles a i \<longleftrightarrow>
     Suc i < length a \<and> ts_seq_no (a ! i) + 1 = ts_seq_no (a ! Suc i) \<and>
     ev (a ! i) = TS_RELEASE_LATENCY \<and>
     (case last_sched a (ts_cpu (a ! i)) i of
        None \<Rightarrow> False
      | Some j \<Rightarrow>
          (case find_np_upper_bound (ts_cpu (a ! i)) (Suc i) a of
             None \<Rightarrow> False
           | Some q \<Rightarrow>
               ts_timestamp (a ! j) < ts_timestamp (a ! q) \<and>
               below_latency cycles (ucast (ts_timestamp (a ! q)) - ucast (ts_timestamp (a ! j)))
                 (ts_timestamp (a ! i))))"

lemma last_sched_Some:
  "last_sched a cpu k = Some j \<Longrightarrow>
     j < k \<and> ev (a ! j) = TS_SCHED_START \<and> ts_cpu (a ! j) = cpu \<and>
     (\<forall>m. j \<le> m \<and> m < k \<longrightarrow> ts_seq_no (a ! m) + 1 = ts_seq_no (a ! Suc m)) \<and>
     (\<forall>m. j < m \<and> m < k \<longrightarrow> \<not> (ev (a ! m) = TS_SCHED_START \<and> ts_cpu (a ! m) = cpu))"
  by (induction k) (auto simp: less_Suc_eq split: if_splits)

text \<open>The search for the bound reads only the records from \<open>start - 1\<close> on.\<close>

lemma np_loop_cong:
  "length b = length a \<Longrightarrow> 0 < pos \<Longrightarrow> (\<And>i. pos - 1 \<le> i \<Longrightarrow> i < length a \<Longrightarrow> b ! i = a ! i) \<Longrightarrow>
   np_loop b cpu pos = np_loop a cpu pos"
proof (induction a cpu pos rule: np_loop.induct)
  case (1 a cpu pos)
  have same: "pos < length a \<Longrightarrow> b ! (pos - 1) = a ! (pos - 1) \<and> b ! pos = a ! pos"
    using 1(3,4) by simp
  show ?case
  proof (cases "pos < length a \<and> ts_seq_no (a ! (pos - 1)) + 1 = ts_seq_no (a ! pos) \<and>
      \<not> (ts_cpu (a ! pos) = cpu \<and> (ev (a ! pos) = TS_RELEASE_START \<or> ev (a ! pos) = TS_SCHED_START))")
    case True
    have "np_loop b cpu (Suc pos) = np_loop a cpu (Suc pos)"
    proof (rule 1(1))
      show "b ! i = a ! i" if "Suc pos - 1 \<le> i" "i < length a" for i
        using that by (intro 1(4)) simp_all
    qed (use True 1(2) in auto)
    moreover have "np_loop a cpu pos = np_loop a cpu (Suc pos)"
      using True by (subst np_loop.simps) (simp only: if_True if_False simp_thms)
    moreover have "np_loop b cpu pos = np_loop b cpu (Suc pos)"
      using True same 1(2) by (subst np_loop.simps) (simp only: if_True if_False simp_thms)
    ultimately show ?thesis by simp
  next
    case False
    show ?thesis
    proof (cases "pos < length a \<and> ts_seq_no (a ! (pos - 1)) + 1 = ts_seq_no (a ! pos)")
      case c: True
      with False have r: "ts_cpu (a ! pos) = cpu \<and>
          (ev (a ! pos) = TS_RELEASE_START \<or> ev (a ! pos) = TS_SCHED_START)" by blast
      have "np_loop a cpu pos = Some pos"
        using c r by (subst np_loop.simps) simp
      moreover have "np_loop b cpu pos = Some pos"
        using c r same 1(2) by (subst np_loop.simps) simp
      ultimately show ?thesis by simp
    next
      case c: False
      have "np_loop a cpu pos = None"
        by (subst np_loop.simps) (simp only: c if_False)
      moreover have "\<not> (pos < length b \<and> ts_seq_no (b ! (pos - 1)) + 1 = ts_seq_no (b ! pos))"
        using c same 1(2) by auto
      then have "np_loop b cpu pos = None"
        by (subst np_loop.simps) (simp only: if_False)
      ultimately show ?thesis by simp
    qed
  qed
qed

lemma np_loop_Some:
  "np_loop a cpu pos = Some q \<Longrightarrow> 0 < pos \<Longrightarrow>
     pos \<le> q \<and> q < length a \<and> ts_cpu (a ! q) = cpu \<and>
     (ev (a ! q) = TS_RELEASE_START \<or> ev (a ! q) = TS_SCHED_START) \<and>
     (\<forall>m. pos \<le> Suc m \<and> m < q \<longrightarrow> ts_seq_no (a ! m) + 1 = ts_seq_no (a ! Suc m))"
proof (induction a cpu pos rule: np_loop.induct)
  case (1 a cpu pos)
  let ?here = "ts_cpu (a ! pos) = cpu \<and> (ev (a ! pos) = TS_RELEASE_START \<or> ev (a ! pos) = TS_SCHED_START)"
  have c: "pos < length a \<and> ts_seq_no (a ! (pos - 1)) + 1 = ts_seq_no (a ! pos)"
    using 1 by (subst (asm) np_loop.simps) (simp split: if_splits)
  show ?case
  proof (cases ?here)
    case True
    then have "q = pos" using 1 c by (subst (asm) np_loop.simps) simp
    moreover have "ts_seq_no (a ! m) + 1 = ts_seq_no (a ! Suc m)" if "pos \<le> Suc m" "m < pos" for m
    proof -
      from that have "Suc m = pos" by simp
      with c show ?thesis by (auto simp: diff_Suc_1 dest: sym)
    qed
    ultimately show ?thesis using True c 1 by auto
  next
    case False
    then have "np_loop a cpu (Suc pos) = Some q"
      using 1(2) c by (subst (asm) np_loop.simps) (simp only: if_True if_False simp_thms)
    then have IH: "Suc pos \<le> q \<and> q < length a \<and> ts_cpu (a ! q) = cpu \<and>
       (ev (a ! q) = TS_RELEASE_START \<or> ev (a ! q) = TS_SCHED_START) \<and>
       (\<forall>m. Suc pos \<le> Suc m \<and> m < q \<longrightarrow> ts_seq_no (a ! m) + 1 = ts_seq_no (a ! Suc m))"
      using 1(1) c False by simp
    moreover have "ts_seq_no (a ! m) + 1 = ts_seq_no (a ! Suc m)"
      if "pos \<le> Suc m" "m < q" for m
      using that IH c 1(3) by (cases "m = pos - 1") auto
    ultimately show ?thesis by auto
  qed
qed

text \<open>The pass after \<open>k\<close> iterations: the tables describe \<open>last_sched\<close>, the places below \<open>k\<close>
  are decided and the others untouched.\<close>

definition filter_inv :: "rat \<Rightarrow> sort_state \<Rightarrow> nat \<Rightarrow> filter_state \<Rightarrow> bool" where
  "filter_inv cycles s k st \<longleftrightarrow>
     (let a = recs s; b = recs (fs st) in
      length b = length a \<and> length (lp_valid st) = MAX_CPUS \<and> length (last_preemptable st) = MAX_CPUS \<and>
      fs st = s\<lparr>recs := b, implausible := implausible s + of_nat (marks a b)\<rparr> \<and>
      (\<forall>i < length a. b ! i =
         (if i < k \<and> latency_test cycles a i then (a ! i)\<lparr>ts_event := BAD_EVENT\<rparr> else a ! i)) \<and>
      (\<forall>c. unat c < MAX_CPUS \<longrightarrow>
         (case last_sched a c k of
            None \<Rightarrow> \<not> lp_valid st ! unat c
          | Some j \<Rightarrow> lp_valid st ! unat c \<and>
                      last_preemptable st ! unat c = ucast (ts_timestamp (a ! j)))))"


text \<open>A marked release latency is counted once.\<close>

lemma marks_next:
  assumes "length b = length a" and "k < length a" and "ev (a ! k) = TS_RELEASE_LATENCY"
    and "\<forall>i < length a. b ! i = (if i < k \<and> P i then (a ! i)\<lparr>ts_event := BAD_EVENT\<rparr> else a ! i)"
  shows "marks a (set_bad k b) = Suc (marks a b)"
proof (rule marks_set_bad)
  show "only_marks a b" using assms by (auto simp: only_marks_def)
  show "ts_event (a ! k) \<noteq> BAD_EVENT" using assms(3) by (auto simp: ev_def BAD_EVENT_def event_ids)
qed (use assms in simp_all)

lemma last_sched_same:
  assumes "ts_seq_no (a ! k) + 1 = ts_seq_no (a ! Suc k)" and "ev (a ! k) \<noteq> TS_SCHED_START"
  shows "last_sched a c (Suc k) = last_sched a c k"
  using assms by simp

lemma filter_inv_step:
  assumes inv: "filter_inv cycles s k st" and k: "Suc k < length (recs s)"
    and step: "filter_step cycles k st = Some st'"
  shows "filter_inv cycles s (Suc k) st'"
proof -
  obtain a b where a: "recs s = a" and b: "recs (fs st) = b" by simp
  let ?cpu = "ts_cpu (a ! k)"
  have len: "length b = length a" "length (lp_valid st) = MAX_CPUS" "length (last_preemptable st) = MAX_CPUS"
    and fs: "fs st = s\<lparr>recs := b, implausible := implausible s + of_nat (marks a b)\<rparr>"
    and val: "\<forall>i < length a. b ! i =
      (if i < k \<and> latency_test cycles a i then (a ! i)\<lparr>ts_event := BAD_EVENT\<rparr> else a ! i)"
    and tab: "\<And>c. unat c < MAX_CPUS \<Longrightarrow>
      (case last_sched a c k of None \<Rightarrow> \<not> lp_valid st ! unat c
       | Some j \<Rightarrow> lp_valid st ! unat c \<and> last_preemptable st ! unat c = ucast (ts_timestamp (a ! j)))"
    using inv by (auto simp: filter_inv_def Let_def a b)
  have same: "b ! i = a ! i" if "k \<le> i" "i < length a" for i using that val by simp
  have bk: "b ! k = a ! k" "b ! Suc k = a ! Suc k" using same k a by simp_all
  have val_next: "\<forall>i < length a. b ! i =
      (if i < Suc k \<and> latency_test cycles a i then (a ! i)\<lparr>ts_event := BAD_EVENT\<rparr> else a ! i)"
    if "\<not> latency_test cycles a k"
    using val that by (auto simp: less_Suc_eq)
  note defs = filter_inv_def Let_def a b
  consider (hole) "ts_seq_no (a ! k) + 1 \<noteq> ts_seq_no (a ! Suc k)"
    | (sched) "ts_seq_no (a ! k) + 1 = ts_seq_no (a ! Suc k)" "ev (a ! k) = TS_SCHED_START"
    | (latency) "ts_seq_no (a ! k) + 1 = ts_seq_no (a ! Suc k)" "ev (a ! k) = TS_RELEASE_LATENCY"
    | (other) "ts_seq_no (a ! k) + 1 = ts_seq_no (a ! Suc k)" "ev (a ! k) \<noteq> TS_SCHED_START"
        "ev (a ! k) \<noteq> TS_RELEASE_LATENCY"
    by blast
  then show ?thesis
  proof cases
    case hole
    then have "st' = st\<lparr>lp_valid := replicate MAX_CPUS False\<rparr>"
      using step by (simp add: filter_step_def b bk Let_def)
    moreover have "\<not> latency_test cycles a k" using hole by (simp add: latency_test_def)
    ultimately show ?thesis using hole len fs val_next by (simp add: defs)
  next
    case sched
    then have st': "unat ?cpu < MAX_CPUS" "st' = st\<lparr>lp_valid := (lp_valid st)[unat ?cpu := True],
        last_preemptable := (last_preemptable st)[unat ?cpu := ucast (ts_timestamp (a ! k))]\<rparr>"
      using step by (auto simp: filter_step_def b bk Let_def split: if_splits)
    have "case last_sched a c (Suc k) of None \<Rightarrow> \<not> lp_valid st' ! unat c
        | Some j \<Rightarrow> lp_valid st' ! unat c \<and> last_preemptable st' ! unat c = ucast (ts_timestamp (a ! j))"
      if "unat c < MAX_CPUS" for c
    proof (cases "c = ?cpu")
      case True
      then show ?thesis using sched st' len by simp
    next
      case False
      then have "unat c \<noteq> unat ?cpu" by (simp add: word_unat_eq_iff)
      then show ?thesis using False sched st'(2) tab [OF that] by (simp split: option.splits)
    qed
    moreover have "\<not> latency_test cycles a k"
      using sched by (simp add: latency_test_def event_ids)
    moreover have "length (lp_valid st') = MAX_CPUS" "length (last_preemptable st') = MAX_CPUS"
      "fs st' = fs st"
      by (simp_all add: st'(2) len)
    ultimately show ?thesis using len(1) fs val_next by (simp add: defs del: last_sched.simps)
  next
    case latency
    then have cpu: "unat ?cpu < MAX_CPUS"
      using step by (auto simp: filter_step_def b bk Let_def event_ids split: if_splits)
    have tab': "\<forall>c. unat c < MAX_CPUS \<longrightarrow>
      (case last_sched a c (Suc k) of None \<Rightarrow> \<not> lp_valid st ! unat c
       | Some j \<Rightarrow> lp_valid st ! unat c \<and> last_preemptable st ! unat c = ucast (ts_timestamp (a ! j)))"
      using tab latency by (simp add: event_ids)
    have np: "find_np_upper_bound ?cpu (Suc k) b = find_np_upper_bound ?cpu (Suc k) a"
      unfolding find_np_upper_bound_def
    proof (rule np_loop_cong)
      show "b ! i = a ! i" if "Suc k - 1 \<le> i" "i < length a" for i
        using same [of i] that by simp
    qed (use len in simp_all)
    have up: "(ucast (y :: u48) :: u64) < ucast x \<longleftrightarrow> y < x" for x y
      by simp
    have tq: "ts_timestamp (b ! q) = ts_timestamp (a ! q)"
      if "find_np_upper_bound ?cpu (Suc k) a = Some q" for q
      using that np_loop_Some [of a ?cpu "Suc k" q] same [of q] by (simp add: find_np_upper_bound_def)
    have st': "st' = (if latency_test cycles a k
        then st\<lparr>fs := (fs st)\<lparr>recs := set_bad k b, implausible := implausible (fs st) + 1\<rparr>\<rparr> else st)"
      using step latency cpu tab [OF cpu] k tq
      by (auto simp: filter_step_def b bk Let_def np latency_test_def up a event_ids
          split: option.splits if_splits)
    show ?thesis
    proof (cases "latency_test cycles a k")
      case True
      have "marks a (set_bad k b) = Suc (marks a b)"
        using marks_next [OF len(1) _ latency(2) val] k a by simp
      then have "fs st' = s\<lparr>recs := set_bad k b, implausible := implausible s + of_nat (marks a (set_bad k b))\<rparr>"
        using True by (simp add: st' fs)
      moreover have "set_bad k b ! i = (if i < Suc k \<and> latency_test cycles a i
          then (a ! i)\<lparr>ts_event := BAD_EVENT\<rparr> else a ! i)" if "i < length a" for i
        using that val True len(1) bk by (auto simp: nth_set_bad less_Suc_eq)
      moreover have "lp_valid st' = lp_valid st" "last_preemptable st' = last_preemptable st"
        "recs (fs st') = set_bad k b"
        using True by (simp_all add: st')
      ultimately show ?thesis using len tab'
        by (auto simp: defs split: option.splits simp del: last_sched.simps)
    next
      case False
      then show ?thesis using len fs tab' val_next by (simp add: defs st' del: last_sched.simps)
    qed
  next
    case other
    then have "st' = st" using step by (simp add: filter_step_def b bk Let_def)
    moreover have "\<not> latency_test cycles a k" using other by (simp add: latency_test_def)
    ultimately show ?thesis using other len fs val_next tab by (simp add: defs)
  qed
qed


lemma filter_upto_inv:
  "filter_upto lp0 cycles k s = Some st \<Longrightarrow> length lp0 = MAX_CPUS \<Longrightarrow> k \<le> length (recs s) - 1 \<Longrightarrow>
   filter_inv cycles s k st"
proof (induction k arbitrary: st)
  case 0
  then show ?case by (auto simp: filter_inv_def)
next
  case (Suc k)
  then obtain st0 where "filter_upto lp0 cycles k s = Some st0" "filter_step cycles k st0 = Some st"
    by (auto split: option.splits)
  with Suc show ?case using filter_inv_step [of cycles s k st0 st] by simp
qed

text \<open>The outcome of the pass; it does not depend on the uninitialised table.\<close>

lemma filter_sound:
  assumes "filter_implausible_latencies lp0 cycles s = Some s'" and "length lp0 = MAX_CPUS"
  shows "recs s' = map (\<lambda>i. if latency_test cycles (recs s) i
           then (recs s ! i)\<lparr>ts_event := BAD_EVENT\<rparr> else recs s ! i) [0..<length (recs s)]"
    and "s' = s\<lparr>recs := recs s', implausible := implausible s + of_nat (marks (recs s) (recs s'))\<rparr>"
proof -
  let ?n = "length (recs s)"
  obtain st where "filter_upto lp0 cycles (?n - 1) s = Some st" and s': "s' = fs st"
    using assms(1) by (auto simp: filter_implausible_latencies_def)
  then have inv: "filter_inv cycles s (?n - 1) st" using filter_upto_inv assms(2) by simp
  then show "s' = s\<lparr>recs := recs s', implausible := implausible s + of_nat (marks (recs s) (recs s'))\<rparr>"
    by (simp add: filter_inv_def Let_def s')
  have "latency_test cycles (recs s) i \<Longrightarrow> i < ?n - 1" for i
    by (auto simp: latency_test_def)
  then show "recs s' = map (\<lambda>i. if latency_test cycles (recs s) i
      then (recs s ! i)\<lparr>ts_event := BAD_EVENT\<rparr> else recs s ! i) [0..<?n]"
    using inv by (auto simp: filter_inv_def Let_def s' intro!: nth_equalityI)
qed

text \<open>It returns unless a relevant record comes from CPU 255.\<close>

lemma filter_step_Some:
  assumes "filter_inv cycles s k st" and "Suc k < length (recs s)"
    and "unat (ts_cpu (recs s ! k)) < MAX_CPUS"
  shows "\<exists>st'. filter_step cycles k st = Some st'"
proof -
  have "ts_cpu (recs (fs st) ! k) = ts_cpu (recs s ! k)"
    using assms(1,2) by (auto simp: filter_inv_def Let_def)
  then show ?thesis using assms(3) by (auto simp: filter_step_def Let_def split: option.splits)
qed

lemma filter_total:
  assumes "length lp0 = MAX_CPUS" and "\<forall>r \<in> set (recs s). unat (ts_cpu r) < MAX_CPUS"
  shows "\<exists>s'. filter_implausible_latencies lp0 cycles s = Some s'"
proof -
  have "k \<le> length (recs s) - 1 \<Longrightarrow> \<exists>st. filter_upto lp0 cycles k s = Some st" for k
  proof (induction k)
    case (Suc k)
    then obtain st where st: "filter_upto lp0 cycles k s = Some st" by auto
    then have "filter_inv cycles s k st" using filter_upto_inv assms(1) Suc.prems by simp
    then obtain st' where "filter_step cycles k st = Some st'"
      using filter_step_Some assms(2) Suc.prems by fastforce
    with st show ?case by simp
  qed simp
  then show ?thesis by (fastforce simp: filter_implausible_latencies_def)
qed

text \<open>
  With an undefined table entry for a wrong initial length out of the way, the pass is a
  marking pass for every content of the table.
\<close>

lemma filter_marks:
  assumes "filter_implausible_latencies (replicate MAX_CPUS lp) cycles s = Some s'"
  shows "only_marks (recs s) (recs s')"
  using filter_sound(1) [OF assms] by (simp add: only_marks_def)

interpretation latency_filter:
    marking_pass "filter_implausible_latencies (replicate MAX_CPUS lp) cycles" for lp cycles
  by unfold_locales (rule filter_marks)

text \<open>
  What the test means.  The records from \<open>j\<close> to \<open>q\<close> are a stretch without holes; \<open>j\<close> is the
  latest scheduler invocation on the CPU before the latency record \<open>i\<close>, and \<open>q\<close> the first
  release or scheduler invocation on the CPU after it; and the latency is longer than the
  time from \<open>j\<close> to \<open>q\<close>.
\<close>

definition without_hole :: "timestamp list \<Rightarrow> nat \<Rightarrow> nat \<Rightarrow> bool" where
  "without_hole a j q \<longleftrightarrow> (\<forall>m. j \<le> m \<and> m < q \<longrightarrow> ts_seq_no (a ! m) + 1 = ts_seq_no (a ! Suc m))"

definition starts_schedule :: "timestamp list \<Rightarrow> u8 \<Rightarrow> nat \<Rightarrow> bool" where
  "starts_schedule a cpu m \<longleftrightarrow> ev (a ! m) = TS_SCHED_START \<and> ts_cpu (a ! m) = cpu"

definition starts_release :: "timestamp list \<Rightarrow> u8 \<Rightarrow> nat \<Rightarrow> bool" where
  "starts_release a cpu m \<longleftrightarrow> ev (a ! m) = TS_RELEASE_START \<and> ts_cpu (a ! m) = cpu"

definition implausible_at :: "rat \<Rightarrow> timestamp list \<Rightarrow> nat \<Rightarrow> bool" where
  "implausible_at cycles a i \<longleftrightarrow> ev (a ! i) = TS_RELEASE_LATENCY \<and>
     (let cpu = ts_cpu (a ! i) in
      \<exists>j q. j < i \<and> i < q \<and> q < length a \<and> without_hole a j q \<and>
        starts_schedule a cpu j \<and> (\<forall>m. j < m \<and> m < i \<longrightarrow> \<not> starts_schedule a cpu m) \<and>
        (starts_release a cpu q \<or> starts_schedule a cpu q) \<and>
        (\<forall>m. i < m \<and> m < q \<longrightarrow> \<not> starts_release a cpu m \<and> \<not> starts_schedule a cpu m) \<and>
        ts_timestamp (a ! j) < ts_timestamp (a ! q) \<and>
        below_latency cycles (ucast (ts_timestamp (a ! q)) - ucast (ts_timestamp (a ! j))) (ts_timestamp (a ! i)))"

lemma without_hole_same [simp]: "without_hole a k k"
  by (auto simp: without_hole_def)

lemma without_hole_step [simp]: "without_hole a k (Suc k) \<longleftrightarrow> ts_seq_no (a ! k) + 1 = ts_seq_no (a ! Suc k)"
  by (auto simp: without_hole_def le_less_Suc_eq)

lemma without_hole_append: "j \<le> i \<Longrightarrow> i \<le> q \<Longrightarrow> without_hole a j q \<longleftrightarrow> without_hole a j i \<and> without_hole a i q"
  unfolding without_hole_def by (meson le_less_trans less_le_trans not_le order_trans)

lemma last_sched_iff:
  "last_sched a cpu k = Some j \<longleftrightarrow>
     j < k \<and> starts_schedule a cpu j \<and> without_hole a j k \<and> (\<forall>m. j < m \<and> m < k \<longrightarrow> \<not> starts_schedule a cpu m)"
proof (induction k)
  case (Suc k)
  show ?case
  proof (cases "ts_seq_no (a ! k) + 1 = ts_seq_no (a ! Suc k)")
    case False
    then have "\<not> without_hole a j (Suc k)" if "j < Suc k" using that by (auto simp: without_hole_def intro!: exI [of _ k])
    then show ?thesis using False by auto
  next
    case True
    then have un: "without_hole a j (Suc k) \<longleftrightarrow> without_hole a j k" for j by (auto simp: without_hole_def less_Suc_eq)
    show ?thesis
    proof (cases "starts_schedule a cpu k")
      case here: True
      then have "last_sched a cpu (Suc k) = Some k" using True by (simp add: starts_schedule_def)
      then show ?thesis using here True by (auto simp: less_Suc_eq)
    next
      case False
      then have "last_sched a cpu (Suc k) = last_sched a cpu k" using True by (auto simp: starts_schedule_def)
      then show ?thesis using Suc.IH un False by (auto simp: less_Suc_eq)
    qed
  qed
qed simp

lemma np_loop_iff:
  "np_loop a cpu (Suc i) = Some q \<longleftrightarrow>
     i < q \<and> q < length a \<and> without_hole a i q \<and> (starts_release a cpu q \<or> starts_schedule a cpu q) \<and>
     (\<forall>m. i < m \<and> m < q \<longrightarrow> \<not> starts_release a cpu m \<and> \<not> starts_schedule a cpu m)"
proof (induction "length a - i" arbitrary: i rule: less_induct)
  case less
  let ?here = "starts_release a cpu (Suc i) \<or> starts_schedule a cpu (Suc i)"
  let ?link = "Suc i < length a \<and> ts_seq_no (a ! i) + 1 = ts_seq_no (a ! Suc i)"
  have step: "np_loop a cpu (Suc i) = (if ?link then if ?here then Some (Suc i) else np_loop a cpu (Suc (Suc i)) else None)"
    by (subst np_loop.simps) (auto simp: starts_release_def starts_schedule_def)
  have first: "without_hole a i q \<longleftrightarrow> ts_seq_no (a ! i) + 1 = ts_seq_no (a ! Suc i) \<and> without_hole a (Suc i) q" if "i < q" for q
    using that by (auto simp: without_hole_def less_eq_Suc_le [of i] order_le_less)
  show ?case
  proof (cases ?link)
    case False
    then show ?thesis using step first by auto
  next
    case True
    show ?thesis
    proof (cases ?here)
      case here: True
      then show ?thesis using step True here first by (auto simp: not_less_eq dest: Suc_lessI)
    next
      case False
      have "length a - Suc i < length a - i" using True by linarith
      note IH = less.hyps [OF this]
      show ?thesis
      proof (cases "q = Suc i")
        case q: True
        then show ?thesis using step True False IH by simp
      next
        case q: False
        then have "i < q \<longleftrightarrow> Suc i < q" by linarith
        moreover have "i < m \<longleftrightarrow> m = Suc i \<or> Suc i < m" for m by linarith
        then have "(\<forall>m. i < m \<and> m < q \<longrightarrow> \<not> starts_release a cpu m \<and> \<not> starts_schedule a cpu m) \<longleftrightarrow>
            (\<forall>m. Suc i < m \<and> m < q \<longrightarrow> \<not> starts_release a cpu m \<and> \<not> starts_schedule a cpu m)"
          using False by auto
        ultimately show ?thesis using step True False IH first by auto
      qed
    qed
  qed
qed

lemma latency_test_iff: "latency_test cycles a i \<longleftrightarrow> implausible_at cycles a i"
proof -
  let ?cpu = "ts_cpu (a ! i)"
  have "latency_test cycles a i \<longleftrightarrow> Suc i < length a \<and> ts_seq_no (a ! i) + 1 = ts_seq_no (a ! Suc i) \<and>
      ev (a ! i) = TS_RELEASE_LATENCY \<and>
      (\<exists>j q. last_sched a ?cpu i = Some j \<and> np_loop a ?cpu (Suc i) = Some q \<and>
        ts_timestamp (a ! j) < ts_timestamp (a ! q) \<and>
        below_latency cycles (ucast (ts_timestamp (a ! q)) - ucast (ts_timestamp (a ! j))) (ts_timestamp (a ! i)))"
    by (auto simp: latency_test_def find_np_upper_bound_def split: option.splits)
  also have "\<dots> \<longleftrightarrow> implausible_at cycles a i" (is "?l \<longleftrightarrow> ?r")
  proof
    assume ?l
    then obtain j q where "ev (a ! i) = TS_RELEASE_LATENCY" "last_sched a ?cpu i = Some j"
      "np_loop a ?cpu (Suc i) = Some q" "ts_timestamp (a ! j) < ts_timestamp (a ! q)"
      "below_latency cycles (ucast (ts_timestamp (a ! q)) - ucast (ts_timestamp (a ! j))) (ts_timestamp (a ! i))"
      by blast
    then show ?r unfolding last_sched_iff np_loop_iff implausible_at_def Let_def
      using without_hole_append [of j i q a] by (intro conjI exI [of _ j] exI [of _ q]) simp_all
  next
    assume r: ?r
    then obtain j q where "j < i" "i < q" "q < length a" "without_hole a j q" "starts_schedule a ?cpu j"
      "\<forall>m. j < m \<and> m < i \<longrightarrow> \<not> starts_schedule a ?cpu m" "starts_release a ?cpu q \<or> starts_schedule a ?cpu q"
      "\<forall>m. i < m \<and> m < q \<longrightarrow> \<not> starts_release a ?cpu m \<and> \<not> starts_schedule a ?cpu m"
      "ts_timestamp (a ! j) < ts_timestamp (a ! q)"
      "below_latency cycles (ucast (ts_timestamp (a ! q)) - ucast (ts_timestamp (a ! j))) (ts_timestamp (a ! i))"
      unfolding implausible_at_def Let_def by blast
    moreover from this have "without_hole a j i" "without_hole a i q" "Suc i < length a" "without_hole a i (Suc i)"
      using without_hole_append [of j i q a] without_hole_append [of i "Suc i" q a] by simp_all
    moreover have "ev (a ! i) = TS_RELEASE_LATENCY" using r by (simp add: implausible_at_def)
    ultimately show ?l unfolding last_sched_iff np_loop_iff without_hole_step by blast
  qed
  finally show ?thesis .
qed

text \<open>Rounding in the division never accuses a plausible latency.\<close>

lemma below_latency_exact:
  assumes "below_latency cycles delta latency" and "0 < cycles" and "unat delta < 2 ^ 53" and "0 < delta"
  shows "of_nat (unat delta) / cycles < of_nat (unat latency)"
proof -
  have l: "unat latency < 2 ^ 53"
    using unsigned_less [where 'a = nat, of latency] by simp
  define d where "d = unat delta"
  have d: "0 < d" "d < 2 ^ 53" using assms(3,4) by (simp_all add: d_def word_less_nat_alt)
  have "round_bits 53 (of_nat d) = of_nat d" "round_bits 53 (of_nat (unat latency)) = of_nat (unat latency)"
    by (rule fl_of_nat; use d(2) l in simp)+
  then have f: "round_bits 53 (of_nat d / cycles) < of_nat (unat latency)"
    using assms(1) unfolding below_latency_def to_double_def d_def [symmetric] by simp
  have z: "0 < of_nat d / cycles" using d(1) assms(2) by simp
  have "of_nat d / cycles < of_nat (unat latency)"
    by (rule fl_less_of_nat [OF f _ z]) (use l in simp_all)
  then show ?thesis by (simp only: d_def)
qed

end
