(* ===== verification/Layout.thy ===== *)
theory Layout
  imports FT_Prelude
begin

text \<open>
  Records in a file: numbers in the little-endian layout of the machines the tools and the
  traced kernel run on, and arrays of records of a fixed size.
\<close>

section \<open>Little-endian numbers\<close>

fun le_val :: "u8 list \<Rightarrow> nat" where
  "le_val [] = 0"
| "le_val (b # bs) = unat b + 256 * le_val bs"

fun le_bytes :: "nat \<Rightarrow> nat \<Rightarrow> u8 list" where
  "le_bytes 0 k = []"
| "le_bytes (Suc n) k = of_nat (k mod 256) # le_bytes n (k div 256)"

lemma length_le_bytes [simp]: "length (le_bytes n k) = n"
  by (induction n arbitrary: k) simp_all

lemma le_val_bound: "le_val bs < 256 ^ length bs"
proof (induction bs)
  case (Cons b bs)
  have "unat b + 256 * le_val bs < 256 + 256 * le_val bs" by simp
  also have "\<dots> \<le> 256 * 256 ^ length bs" using Cons by simp
  finally show ?case by simp
qed simp

lemma le_val_bytes: "le_val (le_bytes n k) = k mod 256 ^ n"
proof (induction n arbitrary: k)
  case (Suc n)
  have "unat (of_nat (k mod 256) :: u8) = k mod 256" by (simp add: unat_of_nat)
  then show ?case by (simp add: Suc mod_mult2_eq)
qed simp

lemma le_bytes_val: "length bs = n \<Longrightarrow> le_bytes n (le_val bs) = bs"
proof (induction bs arbitrary: n)
  case (Cons b bs)
  have "(unat b + 256 * le_val bs) mod 256 = unat b" by simp
  moreover have "(unat b + 256 * le_val bs) div 256 = le_val bs" by simp
  ultimately show ?case using Cons by auto
qed simp

text \<open>A field of \<open>n\<close> bytes at offset \<open>i\<close>.\<close>

definition field :: "nat \<Rightarrow> nat \<Rightarrow> u8 list \<Rightarrow> nat" where
  "field i n bs = le_val (take n (drop i bs))"

lemma unat_bound16: "unat (w :: u16) < 65536"
  using unsigned_less [where 'a = nat, of w] by simp

lemma unat_bound64: "unat (w :: u64) < 18446744073709551616"
  using unsigned_less [where 'a = nat, of w] by simp

text \<open>A field that is read at its full width is written back as its bytes.\<close>

lemma field_bytes:
  fixes w :: "'a :: len word"
  assumes "w = of_nat (field i n bs)" and "i + n \<le> length bs" and "(256 :: nat) ^ n = 2 ^ LENGTH('a)"
  shows "le_bytes n (unat w) = take n (drop i bs)"
proof -
  have len: "length (take n (drop i bs)) = n" using assms(2) by simp
  then have "field i n bs < 2 ^ LENGTH('a)"
    using le_val_bound [of "take n (drop i bs)"] assms(3) by (simp add: field_def)
  then have "unat w = field i n bs" by (simp add: assms(1) unat_of_nat)
  then show ?thesis using le_bytes_val [OF len] by (simp add: field_def)
qed

section \<open>Arrays of records\<close>

fun array_of :: "nat \<Rightarrow> (u8 list \<Rightarrow> 'a) \<Rightarrow> nat \<Rightarrow> u8 list \<Rightarrow> 'a list" where
  "array_of sz rd 0 bs = []"
| "array_of sz rd (Suc n) bs = rd (take sz bs) # array_of sz rd n (drop sz bs)"

lemma length_array_of [simp]: "length (array_of sz rd n bs) = n"
  by (induction n arbitrary: bs) simp_all

lemma array_of_concat:
  assumes "\<And>r. length (wr r) = sz" and "\<And>r. rd (wr r) = r"
  shows "array_of sz rd (length rs) (concat (map wr rs) @ rest) = rs"
  by (induction rs) (simp_all add: assms)

end
