(* ===== verification/File_Map.thy ===== *)
theory File_Map
  imports FT_Prelude
begin

text \<open>
  Mapping a file into memory: \<^verbatim>\<open>src/mapping.c\<close> (used by \<^verbatim>\<open>ftsort\<close> and \<^verbatim>\<open>ft2csv\<close>) and
  the variant in \<^verbatim>\<open>src/load.c\<close> (used by the schedule tools).  The system calls are
  parameters: a record of functions that give the results of \<^verbatim>\<open>stat\<close>, \<^verbatim>\<open>open\<close>,
  \<^verbatim>\<open>mmap\<close> and \<^verbatim>\<open>madvise\<close>.  A mapped region is its contents, a list of bytes; the value
  of a pointer that a function has not written is \<open>None\<close> in its result.
\<close>

section \<open>System calls\<close>

datatype open_mode = Read_write | Read_only
datatype map_flag = Shared | Private

record os =
  os_stat :: "string \<Rightarrow> nat option"
  os_open :: "string \<Rightarrow> open_mode \<Rightarrow> int"
  os_mmap :: "int \<Rightarrow> nat \<Rightarrow> map_flag \<Rightarrow> u8 list option"
  os_madvise :: "u8 list \<Rightarrow> nat \<Rightarrow> nat \<Rightarrow> int"

text \<open>What a pointer \<^verbatim>\<open>*addr\<close> is set to.\<close>

datatype mapping = Null | Map_failed | Region "u8 list"

text \<open>The values of \<^verbatim>\<open><sys/mman.h>\<close>; they are not flags of a bit set.\<close>

definition MADV_SEQUENTIAL :: nat where "MADV_SEQUENTIAL = 2"
definition MADV_WILLNEED :: nat where "MADV_WILLNEED = 3"

unbundle bit_operations_syntax

section \<open>Mapping\<close>

record map_result =
  map_error :: int
  map_addr :: "mapping option"
  map_size :: "nat option"

text \<open>
  \<open>_map_file\<close>: a failing \<^verbatim>\<open>stat\<close> (\<open>- 1\<close>) sets neither the address nor the size; an
  empty file has the null address.
\<close>

definition map_file_with :: "os \<Rightarrow> string \<Rightarrow> bool \<Rightarrow> map_result" where
  "map_file_with os filename writable =
     (let flags = (if writable then Shared else Private) in
      case os_stat os filename of
        None \<Rightarrow> \<lparr>map_error = - 1, map_addr = None, map_size = None\<rparr>
      | Some n \<Rightarrow>
          if n > 0 then
            let fd = os_open os filename Read_write in
            if fd \<ge> 0 then
              (case os_mmap os fd n flags of
                 None \<Rightarrow> \<lparr>map_error = - 1, map_addr = Some Map_failed, map_size = Some n\<rparr>
               | Some m \<Rightarrow>
                   \<lparr>map_error = os_madvise os m n (MADV_SEQUENTIAL OR MADV_WILLNEED),
                    map_addr = Some (Region m), map_size = Some n\<rparr>)
            else \<lparr>map_error = fd, map_addr = None, map_size = Some n\<rparr>
          else \<lparr>map_error = 0, map_addr = Some Null, map_size = Some n\<rparr>)"

definition map_file :: "os \<Rightarrow> string \<Rightarrow> map_result" where
  "map_file os filename = map_file_with os filename False"

definition map_file_rw :: "os \<Rightarrow> string \<Rightarrow> map_result" where
  "map_file_rw os filename = map_file_with os filename True"

text \<open>The function of the same name in \<^verbatim>\<open>load.c\<close>: opened for reading, no advice.\<close>

definition load_map_file :: "os \<Rightarrow> string \<Rightarrow> map_result" where
  "load_map_file os filename =
     (case os_stat os filename of
        None \<Rightarrow> \<lparr>map_error = - 1, map_addr = None, map_size = None\<rparr>
      | Some n \<Rightarrow>
          if n > 0 then
            let fd = os_open os filename Read_only in
            if fd \<ge> 0 then
              (case os_mmap os fd n Private of
                 None \<Rightarrow> \<lparr>map_error = - 1, map_addr = Some Map_failed, map_size = Some n\<rparr>
               | Some m \<Rightarrow> \<lparr>map_error = 0, map_addr = Some (Region m), map_size = Some n\<rparr>)
            else \<lparr>map_error = fd, map_addr = None, map_size = Some n\<rparr>
          else \<lparr>map_error = 0, map_addr = Some Null, map_size = Some n\<rparr>)"

section \<open>A mapping that can be used\<close>

text \<open>The bytes a caller sees when it goes on after a zero result.\<close>

definition mapped_bytes :: "map_result \<Rightarrow> u8 list option" where
  "mapped_bytes r =
     (if map_error r \<noteq> 0 then None
      else case map_addr r of
        Some (Region m) \<Rightarrow> Some m
      | Some Null \<Rightarrow> Some []
      | _ \<Rightarrow> None)"

text \<open>
  What the code relies on from the system: the size of a file is the length of its
  contents, a descriptor stands for the file it was opened on, and a mapping of the whole
  file shows its contents.
\<close>

definition faithful_os :: "os \<Rightarrow> (string \<Rightarrow> u8 list option) \<Rightarrow> (int \<Rightarrow> string) \<Rightarrow> bool" where
  "faithful_os os contents file_of \<longleftrightarrow>
     (\<forall>f. os_stat os f = map_option length (contents f)) \<and>
     (\<forall>f mode. 0 \<le> os_open os f mode \<longrightarrow> file_of (os_open os f mode) = f) \<and>
     (\<forall>fd c fl m. contents (file_of fd) = Some c \<and> os_mmap os fd (length c) fl = Some m \<longrightarrow> m = c)"

lemma mapped_region:
  assumes "faithful_os os contents file_of" and "contents f = Some c" and "0 \<le> os_open os f mode"
    and "os_mmap os (os_open os f mode) (length c) fl = Some m"
  shows "m = c"
  using assms unfolding faithful_os_def by metis

lemma map_success:
  assumes os: "faithful_os os contents file_of" and ok: "map_error (map_file_with os f w) = 0"
  shows "\<exists>c. contents f = Some c \<and> mapped_bytes (map_file_with os f w) = Some c \<and>
    map_size (map_file_with os f w) = Some (length c)"
proof -
  have stat: "os_stat os f = map_option length (contents f)" using os by (simp add: faithful_os_def)
  with ok obtain c where c: "contents f = Some c"
    by (cases "contents f") (simp_all add: map_file_with_def)
  show ?thesis
    using ok c stat mapped_region [OF os c]
    by (cases "c = []") (auto simp: map_file_with_def mapped_bytes_def Let_def split: option.splits if_splits)
qed

lemma load_map_success:
  assumes os: "faithful_os os contents file_of" and ok: "map_error (load_map_file os f) = 0"
  shows "\<exists>c. contents f = Some c \<and> mapped_bytes (load_map_file os f) = Some c \<and>
    map_size (load_map_file os f) = Some (length c)"
proof -
  have stat: "os_stat os f = map_option length (contents f)" using os by (simp add: faithful_os_def)
  with ok obtain c where c: "contents f = Some c"
    by (cases "contents f") (simp_all add: load_map_file_def)
  show ?thesis
    using ok c stat mapped_region [OF os c]
    by (cases "c = []") (auto simp: load_map_file_def mapped_bytes_def Let_def split: option.splits if_splits)
qed

text \<open>The advice that is given is only the second of the two that are named.\<close>

lemma advice: "MADV_SEQUENTIAL OR MADV_WILLNEED = MADV_WILLNEED"
  by (simp add: MADV_SEQUENTIAL_def MADV_WILLNEED_def)

end
