(* ===== verification/Ts_File.thy ===== *)
theory Ts_File
  imports Layout File_Map Timestamp
begin

text \<open>
  Files of Feather-Trace records: \<^verbatim>\<open>struct timestamp\<close>, 16 bytes each, bit fields from the low
  end, the last byte unused.  \<open>mapped_records\<close> is the array that the tools work on once a
  file is mapped.
\<close>

section \<open>Bytes and records\<close>

definition TS_SIZE :: nat where "TS_SIZE = 16"

definition ts_of_bytes :: "u8 list \<Rightarrow> timestamp" where
  "ts_of_bytes bs =
     \<lparr>ts_timestamp = of_nat (field 0 6 bs), ts_pid = of_nat (field 6 2 bs),
      ts_seq_no = of_nat (field 8 4 bs), ts_cpu = bs ! 12, ts_event = bs ! 13,
      ts_task_type = ucast (bs ! 14), ts_irq_flag = ucast (drop_bit 2 (bs ! 14)),
      ts_irq_count = ucast (drop_bit 3 (bs ! 14))\<rparr>"

definition ts_array :: "nat \<Rightarrow> u8 list \<Rightarrow> timestamp list" where
  "ts_array n bs = array_of TS_SIZE ts_of_bytes n bs"

text \<open>
  A record as it is written; \<open>pad\<close> is the byte that no field uses, whose value after an
  assignment of the whole \<^verbatim>\<open>struct\<close> the C standard leaves open.
\<close>

unbundle bit_operations_syntax

definition flag_byte :: "timestamp \<Rightarrow> u8" where
  "flag_byte r =
     ucast (ts_task_type r) OR push_bit 2 (ucast (ts_irq_flag r)) OR push_bit 3 (ucast (ts_irq_count r))"

definition ts_to_bytes :: "u8 \<Rightarrow> timestamp \<Rightarrow> u8 list" where
  "ts_to_bytes pad r =
     le_bytes 6 (unat (ts_timestamp r)) @ le_bytes 2 (unat (ts_pid r)) @ le_bytes 4 (unat (ts_seq_no r)) @
     [ts_cpu r, ts_event r, flag_byte r, pad]"

fun write_records :: "(nat \<Rightarrow> u8) \<Rightarrow> nat \<Rightarrow> timestamp list \<Rightarrow> u8 list" where
  "write_records pad i [] = []"
| "write_records pad i (r # rs) = ts_to_bytes (pad i) r @ write_records pad (Suc i) rs"

lemma length_ts_to_bytes [simp]: "length (ts_to_bytes pad r) = TS_SIZE"
  by (simp add: ts_to_bytes_def TS_SIZE_def)

lemma length_write_records [simp]: "length (write_records pad i rs) = TS_SIZE * length rs"
  by (induction rs arbitrary: i) simp_all

lemma flag_byte_fields:
  "(ucast (flag_byte r) :: 2 word) = ts_task_type r"
  "(ucast (drop_bit 2 (flag_byte r)) :: 1 word) = ts_irq_flag r"
  "(ucast (drop_bit 3 (flag_byte r)) :: 5 word) = ts_irq_count r"
  by (rule bit_word_eqI, force simp: flag_byte_def bit_simps dest: bit_imp_le_length)+

lemma unat_bound48: "unat (w :: u48) < 281474976710656"
  using unsigned_less [where 'a = nat, of w] by simp

lemma ts_roundtrip: "ts_of_bytes (ts_to_bytes pad r) = r"
  using unat_bound48 [of "ts_timestamp r"] unat_bound16 [of "ts_pid r"] unat_bound32 [of "ts_seq_no r"]
  by (simp add: ts_of_bytes_def ts_to_bytes_def field_def le_val_bytes flag_byte_fields nth_append)

text \<open>All records of a file; a rest that is smaller than a record is not looked at.\<close>

definition ts_records :: "u8 list \<Rightarrow> timestamp list" where
  "ts_records bs = ts_array (length bs div TS_SIZE) bs"

lemma ts_array_written: "ts_array (length rs) (write_records pad i rs @ rest) = rs"
  by (induction rs arbitrary: i) (simp_all add: ts_array_def ts_roundtrip)

lemma ts_records_written:
  assumes "length rest < TS_SIZE"
  shows "ts_records (write_records pad i rs @ rest) = rs"
proof -
  have "length (write_records pad i rs @ rest) div TS_SIZE = length rs"
    using assms by (simp add: TS_SIZE_def)
  then show ?thesis by (simp add: ts_records_def ts_array_written)
qed

section \<open>The array of a mapped file\<close>

text \<open>
  \<^verbatim>\<open>ts = mapped; count = size / sizeof(struct timestamp)\<close>; \<open>None\<close> if that array is not
  within the mapping.
\<close>

definition mapped_records :: "map_result \<Rightarrow> timestamp list option" where
  "mapped_records r =
     (case (mapped_bytes r, map_size r) of
        (Some bs, Some sz) \<Rightarrow>
          let cnt = sz div TS_SIZE in
          if TS_SIZE * cnt \<le> length bs then Some (ts_array cnt bs) else None
      | _ \<Rightarrow> None)"

lemma mapped_records_ok:
  assumes "faithful_os os contents file_of" and "contents f = Some bs" and "map_error (map_file_with os f w) = 0"
  shows "mapped_records (map_file_with os f w) = Some (ts_records bs)"
    and "mapped_bytes (map_file_with os f w) = Some bs"
  using map_success [OF assms(1,3)] assms(2) by (auto simp: mapped_records_def ts_records_def Let_def)

end
