(* ===== verification/C_Format.thy ===== *)
theory C_Format
  imports FT_Prelude C_Float
begin

text \<open>
  The conversions of \<^verbatim>\<open>printf\<close> that the tools use: field widths, signed numbers, and two
  digits after the point.
\<close>

definition pad_left :: "nat \<Rightarrow> string \<Rightarrow> string" where
  "pad_left w s = replicate (w - length s) (CHR '' '') @ s"

definition pad_right :: "nat \<Rightarrow> string \<Rightarrow> string" where
  "pad_right w s = s @ replicate (w - length s) (CHR '' '')"

text \<open>\<^verbatim>\<open>%d\<close> and \<^verbatim>\<open>%.2f\<close>: a \<^verbatim>\<open>double\<close> is rounded to hundredths, ties to even.\<close>

definition dec_int :: "int \<Rightarrow> string" where
  "dec_int i = (if i < 0 then CHR ''-'' # dec (nat (- i)) else dec (nat i))"

definition fixed2 :: "rat \<Rightarrow> string" where
  "fixed2 x =
     (let n = nat (rne (\<bar>x\<bar> * 100)) in
      (if x < 0 then ''-'' else '''') @ dec (n div 100) @ ''.'' @
      [digit_char (n div 10 mod 10), digit_char (n mod 10)])"

end
