(* ===== verification/Ftsort.thy ===== *)
theory Ftsort
  imports Ftsort_Sorting Ftsort_Marking Ts_File C_Format
begin

text \<open>
  The byte-order repair of \<^verbatim>\<open>src/ftsort.c\<close> and the composition of the passes in its
  \<open>main\<close>: options, optional byte swap, monotonicity check, reordering, optional latency
  filter, write-back.  The lemmas carry the facts about the single passes over to the
  output of the program.
\<close>

section \<open>Byte order\<close>

definition bget :: "nat \<Rightarrow> u64 \<Rightarrow> u64" where
  "bget x quad = drop_bit (8 * x) (push_bit (8 * x) 0xff AND quad)"

definition bput :: "u64 \<Rightarrow> nat \<Rightarrow> u64" where
  "bput b pos = push_bit (8 * pos) b"

definition ntohx :: "u64 \<Rightarrow> u64" where
  "ntohx q =
     bput (bget 0 q) 7 OR bput (bget 1 q) 6 OR
     bput (bget 2 q) 5 OR bput (bget 3 q) 4 OR
     bput (bget 4 q) 3 OR bput (bget 5 q) 2 OR
     bput (bget 6 q) 1 OR bput (bget 7 q) 0"

text \<open>\<^verbatim>\<open>ntohl\<close> of the C library on a little-endian host.\<close>

definition ntohl :: "u32 \<Rightarrow> u32" where
  "ntohl q =
     push_bit 24 (q AND 0xff) OR push_bit 16 (drop_bit 8 q AND 0xff) OR
     push_bit 8 (drop_bit 16 q AND 0xff) OR (drop_bit 24 q AND 0xff)"

text \<open>The time stamp is a 48-bit field: it is widened for \<open>ntohx\<close> and the result is cut
  back to 48 bits by the assignment.\<close>

definition restore_record :: "timestamp \<Rightarrow> timestamp" where
  "restore_record r =
     r\<lparr>ts_timestamp := ucast (ntohx (ucast (ts_timestamp r))), ts_seq_no := ntohl (ts_seq_no r)\<rparr>"

fun restore_byte_order :: "timestamp list \<Rightarrow> timestamp list" where
  "restore_byte_order [] = []"
| "restore_byte_order (r # rs) = restore_record r # restore_byte_order rs"

section \<open>The program\<close>

text \<open>
  Options.  A pair is what \<^verbatim>\<open>getopt\<close> returns: the option letter and \<^verbatim>\<open>optarg\<close>;
  \<^verbatim>\<open>atof\<close> of the C library is a parameter.
\<close>

record ftsort_opts =
  swap_byte_order :: bool
  simulate :: bool
  want_verbose :: bool
  cycles_per_nanosecond :: rat

datatype ftsort_error =
  Bad_cycles | Unknown_option | Arguments_missing | Could_not_map | Out_of_bounds

definition ftsort_defaults :: ftsort_opts where
  "ftsort_defaults = \<lparr>swap_byte_order = False, simulate = False, want_verbose = False,
                      cycles_per_nanosecond = 0\<rparr>"

fun ftsort_options ::
    "(string \<Rightarrow> rat) \<Rightarrow> ftsort_opts \<Rightarrow> (char \<times> string) list \<Rightarrow> ftsort_error + ftsort_opts" where
  "ftsort_options atof opts [] = Inr opts"
| "ftsort_options atof opts ((opt, optarg) # rest) =
     (if opt = CHR ''e'' then ftsort_options atof (opts\<lparr>swap_byte_order := True\<rparr>) rest
      else if opt = CHR ''s'' then ftsort_options atof (opts\<lparr>simulate := True\<rparr>) rest
      else if opt = CHR ''v'' then ftsort_options atof (opts\<lparr>want_verbose := True\<rparr>) rest
      else if opt = CHR ''c'' then
        if atof optarg \<le> 0 then Inl Bad_cycles
        else ftsort_options atof (opts\<lparr>cycles_per_nanosecond := atof optarg\<rparr>) rest
      else Inl Unknown_option)"

definition initial_state :: "timestamp list \<Rightarrow> sort_state" where
  "initial_state ts =
     \<lparr>recs = ts, holes = 0, non_monotonic = 0, reordered = 0, aborted_moves = 0, implausible = 0\<rparr>"

text \<open>
  The part of \<open>main\<close> between mapping the file and printing the statistics, on the mapped
  records.  \<open>lp0\<close> is the content of an uninitialised array (see \<open>filter_upto\<close>).
\<close>

definition ftsort_passes :: "u64 list \<Rightarrow> ftsort_opts \<Rightarrow> timestamp list \<Rightarrow> sort_state option" where
  "ftsort_passes lp0 opts ts =
     (let s = initial_state (if swap_byte_order opts then restore_byte_order ts else ts) in
      case pre_check_cpu_monotonicity s of
        None \<Rightarrow> None
      | Some s1 \<Rightarrow>
          let s2 = reorder s1 in
          if cycles_per_nanosecond opts \<noteq> 0
          then filter_implausible_latencies lp0 (cycles_per_nanosecond opts) s2
          else Some s2)"

text \<open>The summary on the error stream, up to the size; the lines with wall-clock times are left out.\<close>

definition summary_line :: "string \<Rightarrow> string \<Rightarrow> string" where
  "summary_line label v = pad_right 16 label @ '': '' @ pad_left 10 v"

definition ftsort_summary :: "nat \<Rightarrow> sort_state \<Rightarrow> string list" where
  "ftsort_summary sz s =
     [summary_line ''Total'' (dec (unat (of_nat (sz div TS_SIZE) :: u32))),
      summary_line ''Holes'' (dec (unat (holes s))),
      summary_line ''Reordered'' (dec (unat (reordered s))),
      summary_line ''Non-monotonic'' (dec (unat (non_monotonic s))),
      summary_line ''Seq. constraint'' (dec (unat (aborted_moves s))),
      summary_line ''Implausible'' (dec (unat (implausible s))),
      summary_line ''Size'' (fixed2 (to_double (of_nat sz) / 1024 / 1024)) @ '' Mb'']"

text \<open>
  The program: the remaining arguments after the options must be one file name; with \<open>-s\<close>
  the mapping is private and the file keeps its contents.  \<open>pad\<close> gives the unused bytes of
  the records after the run.  The result has the contents of the file afterwards, the final
  state, and the summary.
\<close>

definition ftsort_main ::
    "(string \<Rightarrow> rat) \<Rightarrow> os \<Rightarrow> u64 list \<Rightarrow> (nat \<Rightarrow> u8) \<Rightarrow> (char \<times> string) list \<Rightarrow> string list \<Rightarrow>
     ftsort_error + u8 list \<times> sort_state \<times> string list" where
  "ftsort_main atof os lp0 pad args files =
     (case ftsort_options atof ftsort_defaults args of
        Inl e \<Rightarrow> Inl e
      | Inr opts \<Rightarrow>
          if length files \<noteq> 1 then Inl Arguments_missing
          else
            let r = (if simulate opts then map_file os (hd files) else map_file_rw os (hd files)) in
            if map_error r \<noteq> 0 then Inl Could_not_map
            else case (mapped_bytes r, map_size r, mapped_records r) of
              (Some bs, Some sz, Some ts) \<Rightarrow>
                (case ftsort_passes lp0 opts ts of
                   None \<Rightarrow> Inl Out_of_bounds
                 | Some s \<Rightarrow>
                     Inr (if simulate opts then bs
                          else write_records pad 0 (recs s) @ drop (TS_SIZE * length ts) bs,
                          s, ftsort_summary sz s))
            | _ \<Rightarrow> Inl Out_of_bounds)"

section \<open>Byte swaps\<close>

lemma bit_byte_mask: "bit (0xff :: u64) n \<longleftrightarrow> n < 8"
proof -
  have "(0xff :: u64) = mask 8" by (simp add: mask_eq_exp_minus_1)
  then have "bit (0xff :: u64) n \<longleftrightarrow> bit (mask 8 :: u64) n" by (simp only:)
  also have "\<dots> \<longleftrightarrow> n < 8" by (simp only: bit_mask_iff) auto
  finally show ?thesis .
qed

lemma bget_take: "bget x q = take_bit 8 (drop_bit (8 * x) q)"
proof (rule bit_word_eqI)
  fix n assume "n < LENGTH(64)"
  have "bit (bget x q) n \<longleftrightarrow> n < 8 \<and> 8 * x + n < 64 \<and> bit q (8 * x + n)"
    unfolding bget_def bit_drop_bit_eq comp_def bit_and_iff bit_push_bit_iff add_diff_cancel_left'
      bit_byte_mask by auto
  also have "\<dots> \<longleftrightarrow> bit (take_bit 8 (drop_bit (8 * x) q)) n"
    by (auto simp: bit_simps dest: bit_imp_le_length)
  finally show "bit (bget x q) n = bit (take_bit 8 (drop_bit (8 * x) q)) n" .
qed

lemma bit_ntohx:
  assumes "n < 64"
  shows "bit (ntohx q) n \<longleftrightarrow> bit q (8 * (7 - n div 8) + n mod 8)"
proof -
  define d m where "d = n div 8" and "m = n mod 8"
  then have n: "n = 8 * d + m" and m: "m < 8" and "d < 8" using assms by simp_all
  then have "d = 0 \<or> d = 1 \<or> d = 2 \<or> d = 3 \<or> d = 4 \<or> d = 5 \<or> d = 6 \<or> d = 7" by linarith
  then have "bit (ntohx q) (8 * d + m) \<longleftrightarrow> bit q (8 * (7 - d) + m)"
    using m by (elim disjE) (simp_all add: ntohx_def bput_def bget_take bit_simps)
  then show ?thesis by (simp add: n [symmetric] d_def [symmetric] m_def [symmetric])
qed

lemma ntohx_involution: "ntohx (ntohx q) = q"
proof (rule bit_word_eqI)
  fix n assume "n < LENGTH(64)"
  then have n: "n < 64" by simp
  then have "8 * (7 - n div 8) + n mod 8 < 64" by linarith
  moreover have "8 * (7 - (8 * (7 - n div 8) + n mod 8) div 8) + (8 * (7 - n div 8) + n mod 8) mod 8 = n"
    using n by simp
  ultimately show "bit (ntohx (ntohx q)) n = bit q n" using n by (simp add: bit_ntohx)
qed

text \<open>Byte \<open>i\<close> of the result is byte \<open>7 - i\<close> of the argument.\<close>

lemma bget_ntohx:
  assumes "i < 8"
  shows "bget i (ntohx q) = bget (7 - i) q"
proof (rule bit_word_eqI)
  fix n assume "n < LENGTH(64)"
  have "bit (ntohx q) (8 * i + n) \<longleftrightarrow> bit q (8 * (7 - i) + n)" if "n < 8"
    using bit_ntohx [of "8 * i + n" q] assms that by simp
  then show "bit (bget i (ntohx q)) n = bit (bget (7 - i) q) n"
    by (auto simp: bget_take bit_simps)
qed

lemma bit_ntohl:
  assumes "n < 32"
  shows "bit (ntohl q) n \<longleftrightarrow> bit q (8 * (3 - n div 8) + n mod 8)"
proof -
  have mask: "x AND 0xff = take_bit 8 x" for x :: u32
    by (simp add: take_bit_eq_mask mask_eq_exp_minus_1)
  define d m where "d = n div 8" and "m = n mod 8"
  then have n: "n = 8 * d + m" and m: "m < 8" and "d < 4" using assms by simp_all
  then have "d = 0 \<or> d = 1 \<or> d = 2 \<or> d = 3" by linarith
  then have "bit (ntohl q) (8 * d + m) \<longleftrightarrow> bit q (8 * (3 - d) + m)"
    using m unfolding ntohl_def mask by (elim disjE) (simp_all add: bit_simps)
  then show ?thesis by (simp add: n [symmetric] d_def [symmetric] m_def [symmetric])
qed

lemma ntohl_involution: "ntohl (ntohl q) = q"
proof (rule bit_word_eqI)
  fix n assume "n < LENGTH(32)"
  then have n: "n < 32" by simp
  then have "8 * (3 - n div 8) + n mod 8 < 32" by linarith
  moreover have "8 * (3 - (8 * (3 - n div 8) + n mod 8) div 8) + (8 * (3 - n div 8) + n mod 8) mod 8 = n"
    using n by simp
  ultimately show "bit (ntohl (ntohl q)) n = bit q n" using n by (simp add: bit_ntohl)
qed

lemma bit_restored:
  assumes "n < 48"
  shows "bit (ts_timestamp (restore_record r)) n \<longleftrightarrow>
    bit (ucast (ts_timestamp r) :: u64) (8 * (7 - n div 8) + n mod 8)"
  using assms by (simp add: restore_record_def bit_ucast_iff bit_ntohx)

lemma restored_low_bytes: "n < 16 \<Longrightarrow> \<not> bit (ts_timestamp (restore_record r)) n"
proof -
  assume n: "n < 16"
  then have "n div 8 < 2" by (simp add: less_mult_imp_div_less)
  then have "48 \<le> 8 * (7 - n div 8) + n mod 8" by linarith
  then show ?thesis
    using n bit_imp_le_length [of "ts_timestamp r" "8 * (7 - n div 8) + n mod 8"]
    by (auto simp: bit_restored bit_ucast_iff)
qed

lemma restored_forgets:
  assumes "drop_bit 16 (ts_timestamp r) = drop_bit 16 (ts_timestamp r')"
  shows "ts_timestamp (restore_record r) = ts_timestamp (restore_record r')"
proof (rule bit_word_eqI)
  fix n assume "n < LENGTH(48)"
  then have n: "n < 48" by simp
  let ?k = "8 * (7 - n div 8) + n mod 8"
  have "d < 6 \<Longrightarrow> 8 * (7 - d) + m = 16 + (8 * (5 - d) + m)" for d m :: nat by simp
  moreover have "n div 8 < 6" using n by (simp add: less_mult_imp_div_less)
  ultimately have k: "?k = 16 + (8 * (5 - n div 8) + n mod 8)" .
  have "bit (ts_timestamp r) (16 + j) = bit (ts_timestamp r') (16 + j)" for j
    using arg_cong [OF assms, where f = "\<lambda>w. bit w j"] by (simp only: bit_drop_bit_eq comp_apply)
  then have "bit (ts_timestamp r) ?k = bit (ts_timestamp r') ?k" unfolding k .
  then show "bit (ts_timestamp (restore_record r)) n = bit (ts_timestamp (restore_record r')) n"
    using n by (simp add: bit_restored bit_ucast_iff)
qed

lemma restore_byte_order_map: "restore_byte_order ts = map restore_record ts"
  by (induction ts) simp_all

section \<open>The passes together\<close>

text \<open>Marking checked records neither adds nor removes a constraint of \<open>move_record\<close>.\<close>

lemma violates_marked:
  assumes "only_marks a b" and "\<forall>i < length a. marked a b i \<longrightarrow> \<not> not_checked (a ! i)"
    and "i < length a" and "j < length a"
  shows "violates (b ! i) (b ! j) \<longleftrightarrow> violates (a ! i) (a ! j)"
proof -
  have "ev (b ! k) = TS_SEND_RESCHED_START \<longleftrightarrow> ev (a ! k) = TS_SEND_RESCHED_START"
    and "ts_cpu (b ! k) = ts_cpu (a ! k)" and "ts_pid (b ! k) = ts_pid (a ! k)" if "k < length a" for k
    using assms(1,2) that
    by (auto simp: only_marks_def marked_def not_checked_def ev_def BAD_EVENT_def event_ids)
  then show ?thesis using assms(3,4) by (simp add: violates_def)
qed

lemma only_marks_map:
  assumes "only_marks a b" and "\<And>r. f (r\<lparr>ts_event := BAD_EVENT\<rparr>) = f r"
  shows "map f b = map f a"
  using assms by (auto simp: only_marks_def intro!: nth_equalityI)

lemma bounded_disorder_marked:
  assumes "only_marks a b" and "\<forall>i < length a. marked a b i \<longrightarrow> \<not> not_checked (a ! i)"
    and "bounded_disorder s0 a"
  shows "bounded_disorder s0 b"
proof -
  have len: "length b = length a" using assms(1) by (simp add: only_marks_def)
  have off: "map (\<lambda>r. ahead s0 (ts_seq_no r)) b = map (\<lambda>r. ahead s0 (ts_seq_no r)) a"
    by (rule only_marks_map [OF assms(1)]) simp
  have at: "ahead s0 (ts_seq_no (b ! i)) = ahead s0 (ts_seq_no (a ! i))" if "i < length a" for i
    using off that len by (metis nth_map)
  have nonempty: "b \<noteq> [] \<longleftrightarrow> a \<noteq> []" using len by auto
  show ?thesis
    using assms(3) at violates_marked [OF assms(1,2)] nonempty
    unfolding bounded_disorder_def Let_def len off by (auto simp: less_trans)
qed

lemma passes_cases:
  assumes "ftsort_passes lp0 opts ts = Some s'"
  obtains s s1 where
    "recs s = (if swap_byte_order opts then restore_byte_order ts else ts)" and "holes s = 0"
    and "pre_check_cpu_monotonicity s = Some s1"
    and "s' = reorder s1 \<or>
      filter_implausible_latencies lp0 (cycles_per_nanosecond opts) (reorder s1) = Some s'"
proof -
  let ?s = "initial_state (if swap_byte_order opts then restore_byte_order ts else ts)"
  obtain s1 where "pre_check_cpu_monotonicity ?s = Some s1"
    and "s' = reorder s1 \<or>
      filter_implausible_latencies lp0 (cycles_per_nanosecond opts) (reorder s1) = Some s'"
    using assms by (auto simp: ftsort_passes_def Let_def split: option.splits if_splits)
  then show ?thesis by (intro that [of ?s s1]) (simp_all add: initial_state_def)
qed

text \<open>What happens to the events: the marked records are counted, the others are unchanged.\<close>

lemma passes_marks:
  assumes run: "ftsort_passes lp0 opts ts = Some s'" and lp: "length lp0 = MAX_CPUS"
    and ts': "ts' = (if swap_byte_order opts then restore_byte_order ts else ts)"
  shows "\<exists>us. only_marks ts' us \<and> mset (recs s') = mset us \<and>
    of_nat (marks ts' us) = non_monotonic s' + implausible s'"
proof -
  let ?s = "initial_state ts'"
  obtain s1 where pre: "pre_check_cpu_monotonicity ?s = Some s1"
    and last: "s' = reorder s1 \<or>
      filter_implausible_latencies lp0 (cycles_per_nanosecond opts) (reorder s1) = Some s'"
    using run by (auto simp: ftsort_passes_def Let_def ts' split: option.splits if_splits)
  note pc = pre_check_sound [OF pre]
  have s: "recs ?s = ts'" "non_monotonic ?s = 0" "implausible ?s = 0" by (simp_all add: initial_state_def)
  have one: "only_marks ts' (recs s1)" using pc(1) s by simp
  have s1: "non_monotonic s1 = of_nat (marks ts' (recs s1))" "implausible s1 = 0"
    by (subst pc(2), simp add: s)+
  have perm: "mset (recs (reorder s1)) = mset (recs s1)"
    by (rule reorder_invariant [where f = mset, OF stream_move_mset])
  have two: "only_marks (recs (reorder s1)) (recs s') \<and> non_monotonic s' = non_monotonic s1 \<and>
      implausible s' = of_nat (marks (recs (reorder s1)) (recs s'))"
    using last
  proof
    assume flt: "filter_implausible_latencies lp0 (cycles_per_nanosecond opts) (reorder s1) = Some s'"
    have "non_monotonic s' = non_monotonic s1"
      "implausible s' = of_nat (marks (recs (reorder s1)) (recs s'))"
      by (subst filter_sound(2) [OF flt lp], simp add: reorder_frame s1)+
    moreover have "only_marks (recs (reorder s1)) (recs s')"
      using filter_sound(1) [OF flt lp] by (simp add: only_marks_def)
    ultimately show ?thesis by simp
  qed (simp add: reorder_frame s1)
  obtain us where us: "only_marks (recs s1) us" "mset us = mset (recs s')"
    using only_marks_permuted [of _ _ "recs s1"] two perm by metis
  have marks: "only_marks ts' us" by (rule only_marks_trans [OF one us(1)])
  have eq: "bad_records us = bad_records (recs s')" "bad_records (recs (reorder s1)) = bad_records (recs s1)"
    using us(2) perm by (simp_all add: bad_records_def)
  have "marks ts' us = marks ts' (recs s1) + marks (recs (reorder s1)) (recs s')"
    using marks_bad_records [OF marks] marks_bad_records [OF one] marks_bad_records [of "recs (reorder s1)" "recs s'"]
      two eq by linarith
  then show ?thesis using marks us(2) s1 two by (intro exI [of _ us]) simp
qed

lemma passes_sort:
  assumes run: "ftsort_passes lp0 opts ts = Some s'" and "length lp0 = MAX_CPUS"
    and no_swap: "\<not> swap_byte_order opts" and bd: "bounded_disorder s0 ts"
  shows "map ts_seq_no (recs s') = map (\<lambda>i. s0 + of_nat i) [0..<length ts]" and "holes s' = 0"
proof -
  obtain s s1 where s: "recs s = ts" "holes s = 0" and pre: "pre_check_cpu_monotonicity s = Some s1"
    and last: "s' = reorder s1 \<or>
      filter_implausible_latencies lp0 (cycles_per_nanosecond opts) (reorder s1) = Some s'"
    by (rule passes_cases [OF run]) (use no_swap in auto)
  note pc = pre_check_sound [OF pre]
  have len: "length (recs s1) = length ts" using pc(1) s by (simp add: only_marks_def)
  have "bounded_disorder s0 (recs s1)"
    using bounded_disorder_marked [OF pc(1)] pc(3) bd s by blast
  then have srt: "map (\<lambda>r. ahead s0 (ts_seq_no r)) (recs (reorder s1)) = [0..<length ts]"
    and hol: "holes (reorder s1) = holes s1"
    using reorder_sorts [of s0 s1] len by simp_all
  have "map ts_seq_no (recs (reorder s1)) =
      map (\<lambda>k. s0 + of_nat k) (map (\<lambda>r. ahead s0 (ts_seq_no r)) (recs (reorder s1)))"
    by (auto intro: ahead_eqD)
  moreover have "holes s1 = 0" using pc(2) s(2) by (metis sort_state.ext_inject sort_state.surjective
        sort_state.update_convs(1) sort_state.update_convs(3))
  moreover have "map ts_seq_no (recs s') = map ts_seq_no (recs (reorder s1)) \<and> holes s' = holes (reorder s1)"
    using last
  proof
    assume flt: "filter_implausible_latencies lp0 (cycles_per_nanosecond opts) (reorder s1) = Some s'"
    then have "only_marks (recs (reorder s1)) (recs s')"
      using filter_sound(1) assms(2) by (simp add: only_marks_def)
    then have "map ts_seq_no (recs s') = map ts_seq_no (recs (reorder s1))"
      by (rule only_marks_map) simp
    moreover have "holes s' = holes (reorder s1)"
      by (subst filter_sound(2) [OF flt assms(2)]) simp
    ultimately show ?thesis ..
  qed simp
  ultimately show "map ts_seq_no (recs s') = map (\<lambda>i. s0 + of_nat i) [0..<length ts]" "holes s' = 0"
    using srt hol by simp_all
qed


text \<open>The passes return unless a record comes from CPU 255.\<close>

lemma passes_total:
  assumes "length lp0 = MAX_CPUS" and cpus: "\<forall>r \<in> set ts. ts_cpu r \<noteq> 255"
  shows "\<exists>s'. ftsort_passes lp0 opts ts = Some s'"
proof -
  let ?s = "initial_state (if swap_byte_order opts then restore_byte_order ts else ts)"
  have start: "\<forall>r \<in> set (recs ?s). ts_cpu r \<noteq> 255"
    using cpus by (auto simp: initial_state_def restore_byte_order_map restore_record_def)
  then obtain s1 where pre: "pre_check_cpu_monotonicity ?s = Some s1"
    using pre_check_None [of ?s] by fastforce
  have "ts_cpu ` set (recs (reorder s1)) = ts_cpu ` set (recs s1)"
    using mset_eq_setD [OF reorder_invariant [where f = mset and s = s1, OF stream_move_mset]] by simp
  also have "\<dots> = ts_cpu ` set (recs ?s)"
  proof -
    have "map ts_cpu (recs s1) = map ts_cpu (recs ?s)" by (rule pre_check.pass_keeps [OF pre]) simp
    then show ?thesis by (metis list.set_map)
  qed
  finally have cpu: "ts_cpu ` set (recs (reorder s1)) = ts_cpu ` set (recs ?s)" .
  have "ts_cpu r \<noteq> 255" if "r \<in> set (recs (reorder s1))" for r
  proof -
    have "ts_cpu r \<in> ts_cpu ` set (recs ?s)" using that unfolding cpu [symmetric] by (rule imageI)
    then show ?thesis using start by fastforce
  qed
  moreover have "unat c < MAX_CPUS" if "c \<noteq> 255" for c :: u8
  proof -
    have "unat c \<noteq> unat (255 :: u8)" using that by (simp only: word_unat_eq_iff [symmetric] not_False_eq_True)
    then show ?thesis using word_unat_bound8 [of c] by (simp add: MAX_CPUS_def del: word_unat_bound8)
  qed
  ultimately obtain s2 where
    "filter_implausible_latencies lp0 (cycles_per_nanosecond opts) (reorder s1) = Some s2"
    using filter_total [of lp0 "reorder s1"] assms(1) by blast
  then show ?thesis using pre by (simp add: ftsort_passes_def Let_def)
qed

section \<open>The file\<close>

lemma ftsort_writes:
  assumes os: "faithful_os os contents file_of" "contents f = Some bs" "map_error (map_file_rw os f) = 0"
    and opts: "ftsort_options atof ftsort_defaults args = Inr opts" "\<not> simulate opts"
    and run: "ftsort_passes lp0 opts (ts_records bs) = Some s" and len: "length (recs s) = length (ts_records bs)"
  shows "\<exists>bs'. ftsort_main atof os lp0 pad args [f] = Inr (bs', s, ftsort_summary (length bs) s) \<and>
    length bs' = length bs \<and> ts_records bs' = recs s"
proof -
  let ?n = "length bs div TS_SIZE"
  let ?bs = "write_records pad 0 (recs s) @ drop (TS_SIZE * ?n) bs"
  have n: "length (ts_records bs) = ?n" by (simp add: ts_records_def ts_array_def)
  have rest: "length (drop (TS_SIZE * ?n) bs) = length bs mod TS_SIZE" by (simp add: minus_mult_div_eq_mod)
  then have "ts_records ?bs = recs s" by (intro ts_records_written) (simp add: TS_SIZE_def)
  moreover have "length ?bs = length bs" using len n rest by simp
  moreover have "map_size (map_file_rw os f) = Some (length bs)"
    using map_success [OF os(1), of f True] os(2,3) by (auto simp: map_file_rw_def)
  then have "ftsort_main atof os lp0 pad args [f] = Inr (?bs, s, ftsort_summary (length bs) s)"
    using mapped_records_ok [OF os(1,2), of True] os(3) opts run n
    by (simp add: ftsort_main_def map_file_rw_def)
  ultimately show ?thesis by blast
qed

end
