(* ===== verification/Ft2csv.thy ===== *)
theory Ft2csv
  imports Ts_File C_Format
begin

text \<open>
  \<^verbatim>\<open>src/ft2csv.c\<close>: matching the start and the end record of an event pair in a
  Feather-Trace stream, by CPU or by PID, and reporting the elapsed time.  The static
  options and counters of the program are two records; the counters and the output are
  threaded through the functions in the order of the code.
\<close>

text \<open>A time stamp as \<^verbatim>\<open>uint64_t\<close>.\<close>

definition ts64 :: "timestamp \<Rightarrow> u64" where
  "ts64 r = ucast (ts_timestamp r)"

section \<open>Options, counters, output\<close>

record csv_opts =
  want_interleaved :: bool
  want_best_effort :: bool
  want_interrupted :: bool
  max_interleaved_skipped :: int
  find_by_pid :: int
  avoid_cpu :: int
  only_cpu :: int
  raw_output :: bool
  list_events :: bool

definition AUTO_SELECT :: int where "AUTO_SELECT = - 1"

definition csv_defaults :: csv_opts where
  "csv_defaults =
     \<lparr>want_interleaved = True, want_best_effort = False, want_interrupted = False,
      max_interleaved_skipped = 0, find_by_pid = AUTO_SELECT, avoid_cpu = - 1, only_cpu = - 1,
      raw_output = False, list_events = False\<rparr>"

text \<open>What is written to \<^verbatim>\<open>stdout\<close>: text of \<^verbatim>\<open>printf\<close>, or the value of a \<^verbatim>\<open>float\<close>.\<close>

datatype item = Text string | Float rat

record csv_state =
  complete :: u32
  incomplete :: u32
  interrupted :: u32
  skipped :: u32
  non_rt :: u32
  interleaved :: u32
  avoided :: u32
  out :: "item list"

definition csv_init :: csv_state where
  "csv_init = \<lparr>complete = 0, incomplete = 0, interrupted = 0, skipped = 0, non_rt = 0,
               interleaved = 0, avoided = 0, out = []\<rparr>"

definition newline :: string where "newline = [CHR 0x0A]"

definition print_pair_csv :: "timestamp \<Rightarrow> timestamp \<Rightarrow> u64 \<Rightarrow> item" where
  "print_pair_csv first second exec_time =
     Text (dec (unat (ts_timestamp first)) @ '', '' @ dec (unat (ts_timestamp second)) @ '', '' @
           dec (unat exec_time) @ newline)"

definition print_pair_bin :: "timestamp \<Rightarrow> timestamp \<Rightarrow> u64 \<Rightarrow> item" where
  "print_pair_bin first second exec_time = Float (to_float (of_nat (unat exec_time)))"

definition format_pair :: "csv_opts \<Rightarrow> timestamp \<Rightarrow> timestamp \<Rightarrow> u64 \<Rightarrow> item" where
  "format_pair opts = (if raw_output opts then print_pair_bin else print_pair_csv)"

definition print_single_csv :: "timestamp \<Rightarrow> item" where
  "print_single_csv r = Text (''0, 0, '' @ dec (unat (ts_timestamp r)) @ newline)"

definition print_single_bin :: "timestamp \<Rightarrow> item" where
  "print_single_bin r = Float (to_float (of_nat (unat (ts_timestamp r))))"

definition single_fmt :: "csv_opts \<Rightarrow> timestamp \<Rightarrow> item" where
  "single_fmt opts = (if raw_output opts then print_single_bin else print_single_csv)"

section \<open>Searching by CPU\<close>

function next_loop :: "timestamp list \<Rightarrow> u8 \<Rightarrow> u32 \<Rightarrow> nat \<Rightarrow> nat option" where
  "next_loop a cpu last_seqno pos =
     (if pos < length a then
        if last_seqno + 1 \<noteq> ts_seq_no (a ! pos) then None
        else if ts_cpu (a ! pos) = cpu then Some pos
        else next_loop a cpu (ts_seq_no (a ! pos)) (Suc pos)
      else None)"
  by pat_completeness auto
termination by (relation "measure (\<lambda>(a, cpu, l, pos). length a - pos)") auto

declare next_loop.simps [simp del]

text \<open>\<open>next\<close> of the source.\<close>

definition next_on_cpu :: "timestamp list \<Rightarrow> nat \<Rightarrow> u8 \<Rightarrow> nat option" where
  "next_on_cpu a first cpu = next_loop a cpu (ts_seq_no (a ! first)) (Suc first)"

text \<open>The specification of \<open>next_on_cpu\<close>: an unbroken run of sequence numbers.\<close>

definition unbroken :: "timestamp list \<Rightarrow> nat \<Rightarrow> nat \<Rightarrow> bool" where
  "unbroken a i j \<longleftrightarrow> (\<forall>k. i \<le> k \<and> k < j \<longrightarrow> ts_seq_no (a ! Suc k) = ts_seq_no (a ! k) + 1)"

lemma unbroken_refl [simp]: "unbroken a i i"
  by (auto simp: unbroken_def)

lemma unbroken_step: "i < j \<Longrightarrow> unbroken a i j \<longleftrightarrow>
    ts_seq_no (a ! Suc i) = ts_seq_no (a ! i) + 1 \<and> unbroken a (Suc i) j"
  by (auto simp: unbroken_def Suc_le_eq) (metis le_neq_implies_less)

lemma unbroken_trans: "unbroken a i j \<Longrightarrow> unbroken a j k \<Longrightarrow> unbroken a i k"
  by (auto simp: unbroken_def) (metis not_le)

lemma next_loop_Some:
  "next_loop a cpu (ts_seq_no (a ! i)) (Suc i) = Some j \<longleftrightarrow>
     i < j \<and> j < length a \<and> ts_cpu (a ! j) = cpu \<and> unbroken a i j \<and>
     (\<forall>k. i < k \<and> k < j \<longrightarrow> ts_cpu (a ! k) \<noteq> cpu)"
proof (induction "length a - i" arbitrary: i)
  case 0
  then show ?case by (subst next_loop.simps) auto
next
  case (Suc x)
  let ?seq = "ts_seq_no (a ! i) + 1 = ts_seq_no (a ! Suc i)"
  consider "length a \<le> Suc i \<or> \<not> ?seq" | "Suc i < length a" ?seq "ts_cpu (a ! Suc i) = cpu"
    | "Suc i < length a" ?seq "ts_cpu (a ! Suc i) \<noteq> cpu" by force
  then show ?case
  proof cases
    case 1
    then show ?thesis
      by (subst next_loop.simps) (auto simp: unbroken_step)
  next
    case 2
    then have "next_loop a cpu (ts_seq_no (a ! i)) (Suc i) = Some (Suc i)"
      by (subst next_loop.simps) simp
    with 2 show ?thesis
      by (auto simp: unbroken_step)
  next
    case 3
    then have "next_loop a cpu (ts_seq_no (a ! i)) (Suc i) =
        next_loop a cpu (ts_seq_no (a ! Suc i)) (Suc (Suc i))"
      by (subst next_loop.simps) simp
    also have "\<dots> = Some j \<longleftrightarrow> Suc i < j \<and> j < length a \<and> ts_cpu (a ! j) = cpu \<and>
        unbroken a (Suc i) j \<and> (\<forall>k. Suc i < k \<and> k < j \<longrightarrow> ts_cpu (a ! k) \<noteq> cpu)"
      using Suc by (intro Suc.hyps) simp
    finally show ?thesis
      using 3 by (auto simp: unbroken_step Suc_le_eq dest: Suc_lessI)
  qed
qed

lemma next_on_cpu_Some:
  "next_on_cpu a i cpu = Some j \<longleftrightarrow>
     i < j \<and> j < length a \<and> ts_cpu (a ! j) = cpu \<and> unbroken a i j \<and>
     (\<forall>k. i < k \<and> k < j \<longrightarrow> ts_cpu (a ! k) \<noteq> cpu)"
  by (simp add: next_on_cpu_def next_loop_Some)

text \<open>
  The loop of \<open>next_id\<close>; the result is the matching record, the new value of
  \<^verbatim>\<open>*interrupt_flag\<close> (set or left alone), and the counters.
\<close>

function next_id_loop ::
    "csv_opts \<Rightarrow> timestamp list \<Rightarrow> u8 \<Rightarrow> nat \<Rightarrow> nat \<Rightarrow> nat \<Rightarrow> nat \<Rightarrow> csv_state \<Rightarrow>
     nat option \<times> bool \<times> csv_state" where
  "next_id_loop opts a cpu eid stop_id restarts pos c =
     (case next_on_cpu a pos cpu of
        None \<Rightarrow> (None, False, c)
      | Some p \<Rightarrow>
          if ev (a ! p) = eid then
            let c1 = c\<lparr>interleaved := interleaved c + of_nat restarts\<rparr> in
            if irq (a ! p) then
              let c2 = c1\<lparr>interrupted := interrupted c1 + 1\<rparr> in
              if \<not> want_interrupted opts then (None, True, c2) else (Some p, False, c2)
            else (Some p, False, c1)
          else if ev (a ! p) = stop_id then (None, False, c)
          else if \<not> want_interleaved opts then (None, False, c)
          else if irq (a ! p) \<and> \<not> want_interrupted opts then (None, True, c)
          else next_id_loop opts a cpu eid stop_id (Suc restarts) p c)"
  by pat_completeness auto
termination
  by (relation "measure (\<lambda>(opts, a, cpu, eid, stop_id, restarts, pos, c). length a - pos)")
    (auto simp: next_on_cpu_Some)

declare next_id_loop.simps [simp del]

definition next_id ::
    "csv_opts \<Rightarrow> timestamp list \<Rightarrow> nat \<Rightarrow> u8 \<Rightarrow> nat \<Rightarrow> nat \<Rightarrow> csv_state \<Rightarrow>
     nat option \<times> bool \<times> csv_state" where
  "next_id opts a start cpu eid stop_id c = next_id_loop opts a cpu eid stop_id 0 start c"

definition find_second_ts ::
    "csv_opts \<Rightarrow> timestamp list \<Rightarrow> nat \<Rightarrow> csv_state \<Rightarrow> nat option \<times> bool \<times> csv_state" where
  "find_second_ts opts a start c =
     next_id opts a start (ts_cpu (a ! start)) (ev (a ! start) + 1) (ev (a ! start)) c"

section \<open>Searching by PID\<close>

text \<open>
  \<open>next_pid\<close>.  The search is in the records after \<open>first\<close>; the flag of the result says
  whether \<^verbatim>\<open>*interrupted_flag\<close> is set.
\<close>

function next_pid_loop ::
    "csv_opts \<Rightarrow> timestamp list \<Rightarrow> nat \<Rightarrow> nat \<Rightarrow> nat \<Rightarrow> bool \<Rightarrow> u32 \<Rightarrow> int \<Rightarrow> nat \<Rightarrow> csv_state \<Rightarrow>
     nat option \<times> bool \<times> csv_state" where
  "next_pid_loop opts a first id1 id2 significant last_seqno event_count pos c =
     (if pos < length a then
        let event_count = event_count + 1; r = a ! pos in
        if last_seqno + 1 \<noteq> ts_seq_no r then (None, False, c)
        else
          let hit = significant \<and> ts_cpu r = ts_cpu (a ! first) \<and> irq r;
              c' = (if hit then c\<lparr>interrupted := interrupted c + 1\<rparr> else c) in
          if hit \<and> \<not> want_interrupted opts then (None, True, c')
          else if ts_pid r = ts_pid (a ! first) then
            if ev r = id1 \<or> ev r = id2 then (Some pos, False, c')
            else if event_count > max_interleaved_skipped opts then (None, False, c')
            else next_pid_loop opts a first id1 id2 significant (ts_seq_no r) event_count (Suc pos) c'
          else next_pid_loop opts a first id1 id2 significant (ts_seq_no r) event_count (Suc pos) c'
      else (None, False, c))"
  by pat_completeness auto
termination
  by (relation "measure (\<lambda>(opts, a, first, id1, id2, sg, l, n, pos, c). length a - pos)") auto

declare next_pid_loop.simps [simp del]

definition next_pid ::
    "csv_opts \<Rightarrow> timestamp list \<Rightarrow> nat \<Rightarrow> nat \<Rightarrow> nat \<Rightarrow> bool \<Rightarrow> csv_state \<Rightarrow>
     nat option \<times> bool \<times> csv_state" where
  "next_pid opts a first id1 id2 significant c =
     next_pid_loop opts a first id1 id2 significant (ts_seq_no (a ! first)) 0 (Suc first) c"


text \<open>What a hit of \<open>next_pid\<close> is, and that the search moves forward.\<close>

lemma next_pid_loop_Some:
  "next_pid_loop opts a first id1 id2 sg (ts_seq_no (a ! i)) n (Suc i) c = (Some j, fl, c') \<Longrightarrow>
     i < j \<and> j < length a \<and> ts_pid (a ! j) = ts_pid (a ! first) \<and>
     (ev (a ! j) = id1 \<or> ev (a ! j) = id2) \<and> unbroken a i j \<and> \<not> fl \<and>
     (sg \<and> \<not> want_interrupted opts \<longrightarrow>
        (\<forall>k. i < k \<and> k \<le> j \<and> ts_cpu (a ! k) = ts_cpu (a ! first) \<longrightarrow> \<not> irq (a ! k)))"
proof (induction "length a - i" arbitrary: i n c)
  case 0
  then show ?case by (subst (asm) next_pid_loop.simps) auto
next
  case (Suc x)
  let ?r = "a ! Suc i"
  let ?hit = "sg \<and> ts_cpu ?r = ts_cpu (a ! first) \<and> irq ?r"
  let ?c = "if ?hit then c\<lparr>interrupted := interrupted c + 1\<rparr> else c"
  have len: "Suc i < length a" and seq: "ts_seq_no ?r = ts_seq_no (a ! i) + 1"
    and quiet: "\<not> (?hit \<and> \<not> want_interrupted opts)"
    using Suc.prems by (subst (asm) next_pid_loop.simps, auto simp: Let_def split: if_splits)+
  show ?case
  proof (cases "ts_pid ?r = ts_pid (a ! first) \<and> (ev ?r = id1 \<or> ev ?r = id2)")
    case True
    then have "j = Suc i" "\<not> fl"
      using Suc.prems len seq quiet
      by (subst (asm) next_pid_loop.simps, auto simp: Let_def split: if_splits)+
    with True show ?thesis
      using len seq quiet by (auto simp: unbroken_step le_Suc_eq dest: le_antisym)
  next
    case False
    then have "next_pid_loop opts a first id1 id2 sg (ts_seq_no ?r) (n + 1) (Suc (Suc i)) ?c = (Some j, fl, c')"
      using Suc.prems len seq quiet
      by (subst (asm) next_pid_loop.simps) (auto simp: Let_def split: if_splits)
    then have IH: "Suc i < j \<and> j < length a \<and> ts_pid (a ! j) = ts_pid (a ! first) \<and>
     (ev (a ! j) = id1 \<or> ev (a ! j) = id2) \<and> unbroken a (Suc i) j \<and> \<not> fl \<and>
     (sg \<and> \<not> want_interrupted opts \<longrightarrow>
        (\<forall>k. Suc i < k \<and> k \<le> j \<and> ts_cpu (a ! k) = ts_cpu (a ! first) \<longrightarrow> \<not> irq (a ! k)))"
      using Suc.hyps(2) by (intro Suc.hyps(1)) simp_all
    moreover have "\<not> irq (a ! k)"
      if "sg" "\<not> want_interrupted opts" "i < k" "k \<le> j" "ts_cpu (a ! k) = ts_cpu (a ! first)" for k
      using that quiet IH by (cases "k = Suc i") auto
    ultimately show ?thesis using seq by (auto simp: unbroken_step)
  qed
qed

text \<open>Places linked by the stream: a later record of the same task with no hole between.\<close>

definition pid_reach :: "timestamp list \<Rightarrow> nat \<Rightarrow> nat \<Rightarrow> bool" where
  "pid_reach a i j \<longleftrightarrow>
     i < j \<and> j < length a \<and> ts_pid (a ! j) = ts_pid (a ! i) \<and> unbroken a i j"

lemma pid_reach_trans: "pid_reach a i j \<Longrightarrow> pid_reach a j k \<Longrightarrow> pid_reach a i k"
  by (auto simp: pid_reach_def intro: unbroken_trans)

lemma next_pid_Some:
  "next_pid opts a first id1 id2 sg c = (Some j, fl, c') \<Longrightarrow>
     pid_reach a first j \<and> (ev (a ! j) = id1 \<or> ev (a ! j) = id2) \<and> \<not> fl"
  unfolding next_pid_def by (drule next_pid_loop_Some) (simp add: pid_reach_def)

section \<open>Suspensions\<close>

text \<open>\<open>skip_over_suspension\<close>; the second component is \<^verbatim>\<open>*last_time\<close> afterwards.\<close>

definition skip_over_suspension ::
    "csv_opts \<Rightarrow> timestamp list \<Rightarrow> nat \<Rightarrow> u64 \<Rightarrow> csv_state \<Rightarrow> nat option \<times> u64 \<times> csv_state" where
  "skip_over_suspension opts a pos last_time c =
     (case next_pid opts a pos TS_LOCK_RESUME TS_SCHED_START False c of
        (None, _, c1) \<Rightarrow> (None, last_time, c1)
      | (Some p, _, c1) \<Rightarrow>
          if ts64 (a ! p) < last_time then (None, last_time, c1)
          else let last_time = ts64 (a ! p) in
            if ev (a ! p) = TS_SCHED_START then
              (case next_pid opts a p TS_SCHED_END 0 False c1 of
                 (None, _, c2) \<Rightarrow> (None, last_time, c2)
               | (Some q, _, c2) \<Rightarrow>
                   if ts64 (a ! q) < last_time then (None, last_time, c2)
                   else (case next_pid opts a q TS_LOCK_RESUME 0 False c2 of
                           (r, _, c3) \<Rightarrow> (r, last_time, c3)))
            else (Some p, last_time, c1))"

lemma skip_over_suspension_Some:
  assumes "skip_over_suspension opts a pos last_time c = (Some q, last', c')"
  shows "pid_reach a pos q \<and> last_time \<le> last' \<and> (ev (a ! q) = TS_LOCK_RESUME \<or> ev (a ! q) = 0)"
proof -
  obtain p fl c1 where p: "next_pid opts a pos TS_LOCK_RESUME TS_SCHED_START False c = (Some p, fl, c1)"
    and t: "last_time \<le> ts64 (a ! p)"
    using assms by (auto simp: skip_over_suspension_def not_less split: prod.splits option.splits if_splits)
  note hit = next_pid_Some [OF p]
  show ?thesis
  proof (cases "ev (a ! p) = TS_SCHED_START")
    case False
    then show ?thesis
      using assms p t hit by (auto simp: skip_over_suspension_def Let_def split: if_splits)
  next
    case True
    then obtain r fl2 c2 fl3 where r: "next_pid opts a p TS_SCHED_END 0 False c1 = (Some r, fl2, c2)"
      and q: "next_pid opts a r TS_LOCK_RESUME 0 False c2 = (Some q, fl3, c')" and "last' = ts64 (a ! p)"
      using assms p
      by (auto simp: skip_over_suspension_def Let_def split: prod.splits option.splits if_splits)
    moreover have "pid_reach a pos q"
      using hit next_pid_Some [OF r] next_pid_Some [OF q] by (metis pid_reach_trans)
    ultimately show ?thesis using next_pid_Some [OF q] t by simp
  qed
qed

text \<open>The loop of \<open>accumulate_exec_time\<close>: the end record, \<^verbatim>\<open>*sum\<close>, the interrupt flag.\<close>

function acc_loop ::
    "csv_opts \<Rightarrow> timestamp list \<Rightarrow> nat \<Rightarrow> nat \<Rightarrow> u64 \<Rightarrow> u64 \<Rightarrow> csv_state \<Rightarrow>
     nat option \<times> u64 \<times> bool \<times> csv_state" where
  "acc_loop opts a stop_id pos last_time acc c =
     (let exec_start = ts64 (a ! pos) in
      case next_pid opts a pos TS_LOCK_SUSPEND stop_id True c of
        (None, fl, c1) \<Rightarrow> (None, acc, fl, c1)
      | (Some p, fl, c1) \<Rightarrow>
          if ts64 (a ! p) < last_time then (None, acc, fl, c1)
          else let acc = acc + (ts64 (a ! p) - exec_start) in
            if ev (a ! p) = stop_id then (Some p, acc, fl, c1)
            else
              (case skip_over_suspension opts a p (ts64 (a ! p)) c1 of
                 (None, _, c2) \<Rightarrow> (None, acc, fl, c2)
               | (Some q, last_time, c2) \<Rightarrow>
                   if ts64 (a ! q) < last_time then (None, acc, fl, c2)
                   else acc_loop opts a stop_id q (ts64 (a ! q)) acc c2))"
  by pat_completeness auto
termination
  by (relation "measure (\<lambda>(opts, a, stop_id, pos, last_time, acc, c). length a - pos)")
    (auto dest!: sym [of "(Some _, _, _)"] next_pid_Some skip_over_suspension_Some simp: pid_reach_def)

declare acc_loop.simps [simp del]

definition accumulate_exec_time ::
    "csv_opts \<Rightarrow> timestamp list \<Rightarrow> nat \<Rightarrow> nat \<Rightarrow> csv_state \<Rightarrow> nat option \<times> u64 \<times> bool \<times> csv_state" where
  "accumulate_exec_time opts a start stop_id c =
     acc_loop opts a stop_id start (ts64 (a ! start)) 0 c"


section \<open>Reporting\<close>

definition emit :: "item \<Rightarrow> csv_state \<Rightarrow> csv_state" where
  "emit x c = c\<lparr>out := out c @ [x], complete := complete c + 1\<rparr>"

definition find_event_by_pid :: "csv_opts \<Rightarrow> timestamp list \<Rightarrow> nat \<Rightarrow> csv_state \<Rightarrow> csv_state" where
  "find_event_by_pid opts a first c =
     (case
        (if ev (a ! first) \<ge> SUSPENSION_RANGE \<and> max_interleaved_skipped opts = 0
         then accumulate_exec_time opts a first (ev (a ! first) + 1) c
         else
           (case next_pid opts a first (ev (a ! first) + 1) 0 True c of
              (Some second, intr, c1) \<Rightarrow>
                if ts_timestamp (a ! second) > ts_timestamp (a ! first)
                then (Some second, ts64 (a ! second) - ts64 (a ! first), intr, c1)
                else (None, 0, intr, c1)
            | (None, intr, c1) \<Rightarrow> (None, 0, intr, c1)))
      of
        (Some second, exec_time, intr, c1) \<Rightarrow>
          emit (format_pair opts (a ! first) (a ! second) exec_time) c1
      | (None, exec_time, intr, c1) \<Rightarrow>
          if \<not> intr then c1\<lparr>incomplete := incomplete c1 + 1\<rparr> else c1)"

definition find_event_by_eid :: "csv_opts \<Rightarrow> timestamp list \<Rightarrow> nat \<Rightarrow> csv_state \<Rightarrow> csv_state" where
  "find_event_by_eid opts a first c =
     (case find_second_ts opts a first c of
        (found, intr, c1) \<Rightarrow>
          (case (case found of
                   None \<Rightarrow> None
                 | Some second \<Rightarrow>
                     if ts_timestamp (a ! second) > ts_timestamp (a ! first) then Some second
                     else None) of
             Some second \<Rightarrow>
               if task_type (a ! first) \<noteq> TSK_RT \<and> task_type (a ! second) \<noteq> TSK_RT \<and>
                  \<not> want_best_effort opts
               then c1\<lparr>non_rt := non_rt c1 + 1\<rparr>
               else emit (format_pair opts (a ! first) (a ! second)
                            (ts64 (a ! second) - ts64 (a ! first))) c1
           | None \<Rightarrow> if \<not> intr then c1\<lparr>incomplete := incomplete c1 + 1\<rparr> else c1))"

text \<open>\<^verbatim>\<open>first->cpu == avoid_cpu || (only_cpu != -1 && first->cpu != only_cpu)\<close>\<close>

definition cpu_excluded :: "csv_opts \<Rightarrow> timestamp \<Rightarrow> bool" where
  "cpu_excluded opts r \<longleftrightarrow>
     int (unat (ts_cpu r)) = avoid_cpu opts \<or>
     (only_cpu opts \<noteq> - 1 \<and> int (unat (ts_cpu r)) \<noteq> only_cpu opts)"

definition show_csv :: "csv_opts \<Rightarrow> timestamp list \<Rightarrow> nat \<Rightarrow> csv_state \<Rightarrow> csv_state" where
  "show_csv opts a first c =
     (if cpu_excluded opts (a ! first) then c\<lparr>avoided := avoided c + 1\<rparr>
      else if find_by_pid opts \<noteq> 0 then find_event_by_pid opts a first c
      else find_event_by_eid opts a first c)"

definition show_single :: "csv_opts \<Rightarrow> timestamp \<Rightarrow> csv_state \<Rightarrow> csv_state" where
  "show_single opts r c =
     (if cpu_excluded opts r then c\<lparr>avoided := avoided c + 1\<rparr>
      else if task_type r = TSK_RT then emit (single_fmt opts r) c
      else c\<lparr>non_rt := non_rt c + 1\<rparr>)"

text \<open>The first loop of \<open>show_id\<close> skips to the first end record; the second one reports.\<close>

fun skip_to_end :: "timestamp list \<Rightarrow> nat \<Rightarrow> nat" where
  "skip_to_end [] eid = 0"
| "skip_to_end (r # rs) eid = (if ev r \<noteq> eid + 1 then Suc (skip_to_end rs eid) else 0)"

definition show_id :: "csv_opts \<Rightarrow> timestamp list \<Rightarrow> nat \<Rightarrow> csv_state \<Rightarrow> csv_state" where
  "show_id opts a eid c =
     (let k = skip_to_end a eid in
      fold (\<lambda>start c. if ev (a ! start) = eid then show_csv opts a start c else c)
        [k..<length a] (c\<lparr>skipped := skipped c + of_nat k\<rparr>))"

fun show_single_records :: "csv_opts \<Rightarrow> timestamp list \<Rightarrow> nat \<Rightarrow> csv_state \<Rightarrow> csv_state" where
  "show_single_records opts [] eid c = c"
| "show_single_records opts (r # rs) eid c =
     show_single_records opts rs eid (if ev r = eid then show_single opts r c else c)"

text \<open>\<open>list_ids\<close>: one line per event, in the order of the first occurrences.\<close>

definition id_line :: "u8 \<Rightarrow> string" where
  "id_line e = (case event2str (ucast e) of Some name \<Rightarrow> name | None \<Rightarrow> dec (unat e)) @ newline"

fun list_ids_loop :: "bool list \<Rightarrow> timestamp list \<Rightarrow> item list" where
  "list_ids_loop already_seen [] = []"
| "list_ids_loop already_seen (r # rs) =
     (if \<not> already_seen ! ev r
      then Text (id_line (ts_event r)) # list_ids_loop (already_seen[ev r := True]) rs
      else list_ids_loop already_seen rs)"

definition list_ids :: "timestamp list \<Rightarrow> item list" where
  "list_ids a = list_ids_loop (replicate 256 False) a"

section \<open>The program\<close>

datatype csv_error =
  Help | Unknown_option | Arguments_missing | Could_not_map | Beyond_mapping | Unknown_event | Uninitialised_id

fun csv_options ::
    "(string \<Rightarrow> int) \<Rightarrow> csv_opts \<Rightarrow> (char \<times> string) list \<Rightarrow> csv_error + csv_opts" where
  "csv_options atoi opts [] = Inr opts"
| "csv_options atoi opts ((opt, optarg) # rest) =
     (if opt = CHR ''i'' then csv_options atoi (opts\<lparr>want_interleaved := False\<rparr>) rest
      else if opt = CHR ''s'' then
        csv_options atoi (opts\<lparr>max_interleaved_skipped := atoi optarg\<rparr>) rest
      else if opt = CHR ''x'' then csv_options atoi (opts\<lparr>want_interrupted := True\<rparr>) rest
      else if opt = CHR ''b'' then csv_options atoi (opts\<lparr>want_best_effort := True\<rparr>) rest
      else if opt = CHR ''r'' then csv_options atoi (opts\<lparr>raw_output := True\<rparr>) rest
      else if opt = CHR ''a'' then csv_options atoi (opts\<lparr>avoid_cpu := atoi optarg\<rparr>) rest
      else if opt = CHR ''o'' then csv_options atoi (opts\<lparr>only_cpu := atoi optarg\<rparr>) rest
      else if opt = CHR ''p'' then csv_options atoi (opts\<lparr>find_by_pid := 1\<rparr>) rest
      else if opt = CHR ''e'' then csv_options atoi (opts\<lparr>find_by_pid := 0\<rparr>) rest
      else if opt = CHR ''l'' then csv_options atoi (opts\<lparr>list_events := True\<rparr>) rest
      else if opt = CHR ''h'' then Inl Help
      else Inl Unknown_option)"

text \<open>
  The event argument: a name of the table, a number, or the name without \<^verbatim>\<open>_START\<close>
  (cut to the 79 characters that fit the buffer).  A result that counts as success without
  having stored an identifier leaves the variable uninitialised.
\<close>

definition event_argument :: "string \<Rightarrow> csv_error + u32" where
  "event_argument arg =
     (let stored = (\<lambda>v. case v of None \<Rightarrow> Inl Uninitialised_id | Some i \<Rightarrow> Inr i) in
      case str2event arg of (rc, v) \<Rightarrow>
        if rc \<noteq> 0 then stored v
        else case str2event (take 79 (arg @ ''_START'')) of (rc2, v2) \<Rightarrow>
          if rc2 \<noteq> 0 then stored v2 else Inl Unknown_event)"

definition csv_select :: "csv_opts \<Rightarrow> u32 \<Rightarrow> csv_opts" where
  "csv_select opts i =
     (if find_by_pid opts = AUTO_SELECT
      then opts\<lparr>find_by_pid := (if unat i \<le> PID_RECORDS_RANGE then 1 else 0)\<rparr> else opts)"

definition csv_process :: "csv_opts \<Rightarrow> timestamp list \<Rightarrow> u32 \<Rightarrow> csv_state" where
  "csv_process opts ts i =
     (if unat i \<ge> SINGLE_RECORDS_RANGE
      then show_single_records (csv_select opts i) ts (unat i) csv_init
      else show_id (csv_select opts i) ts (unat i) csv_init)"

text \<open>
  The summary on the error stream.  The event is called absent when all records have been
  skipped; otherwise the counters are printed as signed numbers.
\<close>

definition reported_absent :: "timestamp list \<Rightarrow> csv_state \<Rightarrow> bool" where
  "reported_absent ts c \<longleftrightarrow> length ts = unat (skipped c)"

definition csv_line :: "string \<Rightarrow> u32 \<Rightarrow> string" where
  "csv_line label n = pad_right 12 label @ '': '' @ pad_left 10 (dec_int (sint n)) @ newline"

definition csv_summary :: "string \<Rightarrow> timestamp list \<Rightarrow> csv_state \<Rightarrow> string" where
  "csv_summary arg ts c =
     (if reported_absent ts c then ''Event '' @ arg @ '' not present.'' @ newline
      else csv_line ''Total'' (of_nat (length ts)) @ csv_line ''Skipped'' (skipped c) @
        csv_line ''Avoided'' (avoided c) @ csv_line ''Complete'' (complete c) @
        csv_line ''Incomplete'' (incomplete c) @ csv_line ''Non RT'' (non_rt c) @
        csv_line ''Interleaved'' (interleaved c) @ csv_line ''Interrupted'' (interrupted c))"

text \<open>
  The arguments that are left after the options are the event and the file, or only the
  file with \<open>-l\<close>.  The result is the standard output and the summary.
\<close>

definition csv_map :: "os \<Rightarrow> string \<Rightarrow> csv_error + timestamp list" where
  "csv_map os f =
     (let r = map_file os f in
      if map_error r \<noteq> 0 then Inl Could_not_map
      else case mapped_records r of None \<Rightarrow> Inl Beyond_mapping | Some ts \<Rightarrow> Inr ts)"

definition ft2csv_main ::
    "(string \<Rightarrow> int) \<Rightarrow> os \<Rightarrow> (char \<times> string) list \<Rightarrow> string list \<Rightarrow> csv_error + item list \<times> string" where
  "ft2csv_main atoi os args rest =
     (case csv_options atoi csv_defaults args of
        Inl e \<Rightarrow> Inl e
      | Inr opts \<Rightarrow>
          if list_events opts then
            if length rest \<noteq> 1 then Inl Arguments_missing
            else (case csv_map os (rest ! 0) of Inl e \<Rightarrow> Inl e | Inr ts \<Rightarrow> Inr (list_ids ts, ''''))
          else if length rest \<noteq> 2 then Inl Arguments_missing
          else (case csv_map os (rest ! 1) of
                  Inl e \<Rightarrow> Inl e
                | Inr ts \<Rightarrow>
                    (case event_argument (rest ! 0) of
                       Inl e \<Rightarrow> Inl e
                     | Inr i \<Rightarrow> let c = csv_process opts ts i in Inr (out c, csv_summary (rest ! 0) ts c))))"

lemma csv_map_ok:
  assumes "faithful_os os contents file_of" and "contents f = Some bs" and "map_error (map_file os f) = 0"
  shows "csv_map os f = Inr (ts_records bs)"
  using mapped_records_ok(1) [OF assms(1,2), of False] assms(3) by (simp add: csv_map_def map_file_def)

end
