(* ===== verification/Ft2csv_Matching.thy ===== *)
theory Ft2csv_Matching
  imports Ft2csv
begin

text \<open>
  The searches of \<^verbatim>\<open>ft2csv\<close>: for each of \<open>next_id\<close>, \<open>next_pid\<close> and \<open>accumulate_exec_time\<close>
  a specification of the record it finds, of the time it accumulates and of the interrupt that
  ends it, and the lemma that the search finds exactly that.
\<close>

section \<open>Pairs matched by CPU\<close>

text \<open>
  The specification of a match of \<open>next_id\<close>: the first record with event \<open>eid\<close> on the CPU
  after \<open>i\<close>, with no hole, no \<open>stop_id\<close> and, depending on the options, no interrupt and no
  other record of the CPU in between.
\<close>

definition cpu_match :: "csv_opts \<Rightarrow> timestamp list \<Rightarrow> u8 \<Rightarrow> nat \<Rightarrow> nat \<Rightarrow> nat \<Rightarrow> nat \<Rightarrow> bool" where
  "cpu_match opts a cpu eid stop_id i j \<longleftrightarrow>
     i < j \<and> j < length a \<and> unbroken a i j \<and> ts_cpu (a ! j) = cpu \<and> ev (a ! j) = eid \<and>
     (\<forall>k. i < k \<and> k < j \<and> ts_cpu (a ! k) = cpu \<longrightarrow>
        ev (a ! k) \<noteq> eid \<and> ev (a ! k) \<noteq> stop_id \<and> want_interleaved opts) \<and>
     (\<not> want_interrupted opts \<longrightarrow>
        (\<forall>k. i < k \<and> k \<le> j \<and> ts_cpu (a ! k) = cpu \<longrightarrow> \<not> irq (a ! k)))"

lemma cpu_match_here:
  assumes "next_on_cpu a i cpu = Some p" and "ev (a ! p) = eid"
    and "irq (a ! p) \<Longrightarrow> want_interrupted opts"
  shows "cpu_match opts a cpu eid stop_id i p"
  using assms by (auto simp: cpu_match_def next_on_cpu_Some le_less)

lemma cpu_match_later:
  assumes "next_on_cpu a i cpu = Some p" and "cpu_match opts a cpu eid stop_id p j"
    and "ev (a ! p) \<noteq> eid" and "ev (a ! p) \<noteq> stop_id" and "want_interleaved opts"
    and "irq (a ! p) \<Longrightarrow> want_interrupted opts"
  shows "cpu_match opts a cpu eid stop_id i j"
proof -
  have p: "i < p" "ts_cpu (a ! p) = cpu" "unbroken a i p"
    and none: "\<And>k. i < k \<Longrightarrow> k < p \<Longrightarrow> ts_cpu (a ! k) \<noteq> cpu"
    using assms(1) by (auto simp: next_on_cpu_Some)
  have between: "k = p \<or> p < k" if "i < k" "ts_cpu (a ! k) = cpu" for k
    using none [OF that(1)] that(2) by (cases k p rule: linorder_cases) auto
  have j: "p < j" "j < length a" "unbroken a p j" "ts_cpu (a ! j) = cpu" "ev (a ! j) = eid"
    and mid: "\<And>k. p < k \<Longrightarrow> k < j \<Longrightarrow> ts_cpu (a ! k) = cpu \<Longrightarrow>
      ev (a ! k) \<noteq> eid \<and> ev (a ! k) \<noteq> stop_id \<and> want_interleaved opts"
    and quiet: "\<And>k. \<not> want_interrupted opts \<Longrightarrow> p < k \<Longrightarrow> k \<le> j \<Longrightarrow> ts_cpu (a ! k) = cpu \<Longrightarrow> \<not> irq (a ! k)"
    using assms(2) unfolding cpu_match_def by blast+
  show ?thesis
    unfolding cpu_match_def
  proof (intro conjI impI allI; (elim conjE)?)
    show "i < j" "j < length a" "ts_cpu (a ! j) = cpu" "ev (a ! j) = eid" using p j by simp_all
    show "unbroken a i j" using unbroken_trans [OF p(3) j(3)] .
  next
    fix k assume k: "i < k" "k < j" "ts_cpu (a ! k) = cpu"
    then show "ev (a ! k) \<noteq> eid" "ev (a ! k) \<noteq> stop_id" "want_interleaved opts"
      using between [OF k(1,3)] mid [of k] assms(3-5) by auto
  next
    fix k assume "\<not> want_interrupted opts" and k: "i < k" "k \<le> j" "ts_cpu (a ! k) = cpu"
    then show "\<not> irq (a ! k)"
      using between [OF k(1,3)] quiet [of k] assms(6) by auto
  qed
qed

lemma next_id_loop_Some:
  "next_id_loop opts a cpu eid stop_id r i c = (Some j, fl, c') \<Longrightarrow>
     cpu_match opts a cpu eid stop_id i j \<and> \<not> fl"
proof (induction "length a - i" arbitrary: i r c rule: less_induct)
  case less
  note eqn = less.prems [unfolded next_id_loop.simps [of opts a cpu eid stop_id r i c]]
  obtain p where p: "next_on_cpu a i cpu = Some p"
    using eqn by (cases "next_on_cpu a i cpu") simp_all
  note eqn = eqn [unfolded p option.case]
  show ?case
  proof (cases "ev (a ! p) = eid")
    case True
    then have "j = p \<and> \<not> fl \<and> (irq (a ! p) \<longrightarrow> want_interrupted opts)"
      using eqn by (auto simp: Let_def split: if_splits)
    with cpu_match_here [OF p True] show ?thesis by simp
  next
    case False
    then have go: "ev (a ! p) \<noteq> stop_id \<and> want_interleaved opts \<and>
        \<not> (irq (a ! p) \<and> \<not> want_interrupted opts)"
      using eqn by (auto split: if_splits)
    have rec: "next_id_loop opts a cpu eid stop_id (Suc r) p c = (Some j, fl, c')"
      using eqn go False by (simp only: if_False simp_thms)
    have "length a - p < length a - i" using p by (auto simp: next_on_cpu_Some)
    from less.hyps [OF this rec] show ?thesis
      using cpu_match_later [OF p _ False] go by blast
  qed
qed

lemma next_on_cpu_first:
  assumes "i < j" and "j < length a" and "unbroken a i j" and "ts_cpu (a ! j) = cpu"
  shows "\<exists>p. next_on_cpu a i cpu = Some p \<and> p \<le> j \<and> unbroken a p j"
proof -
  let ?P = "\<lambda>k. i < k \<and> ts_cpu (a ! k) = cpu"
  define p where "p = (LEAST k. ?P k)"
  have j: "?P j" using assms by simp
  have p: "?P p" "p \<le> j" using LeastI [of ?P, OF j] Least_le [of ?P, OF j] by (simp_all add: p_def)
  have none: "ts_cpu (a ! k) \<noteq> cpu" if "i < k" "k < p" for k
    using not_less_Least [of k ?P] that by (auto simp: p_def)
  have "unbroken a i p" "unbroken a p j" using assms(3) p by (auto simp: unbroken_def)
  then have "next_on_cpu a i cpu = Some p" using p none assms(2) by (auto simp: next_on_cpu_Some)
  with p(2) \<open>unbroken a p j\<close> show ?thesis by blast
qed

lemma cpu_match_first:
  assumes "cpu_match opts a cpu eid stop_id i j"
  shows "\<exists>p. next_on_cpu a i cpu = Some p \<and> p \<le> j \<and>
    (p < j \<longrightarrow> cpu_match opts a cpu eid stop_id p j)"
proof -
  have j: "i < j" "j < length a" "unbroken a i j" "ts_cpu (a ! j) = cpu"
    using assms by (auto simp: cpu_match_def)
  then obtain p where p: "next_on_cpu a i cpu = Some p" "p \<le> j" "unbroken a p j"
    using next_on_cpu_first by blast
  then have "i < p" by (simp add: next_on_cpu_Some)
  then have later: "i < k" if "p < k" for k using that by simp
  have "cpu_match opts a cpu eid stop_id p j" if "p < j"
    using assms later that p(3) unfolding cpu_match_def by (simp, blast)
  with p show ?thesis by blast
qed

lemma next_id_loop_complete:
  "cpu_match opts a cpu eid stop_id i j \<Longrightarrow>
     \<exists>c'. next_id_loop opts a cpu eid stop_id r i c = (Some j, False, c')"
proof (induction "length a - i" arbitrary: i r c rule: less_induct)
  case less
  obtain p where p: "next_on_cpu a i cpu = Some p" "p \<le> j"
    and later: "p < j \<Longrightarrow> cpu_match opts a cpu eid stop_id p j"
    using cpu_match_first [OF less.prems] by blast
  have ip: "i < p" "p < length a" "ts_cpu (a ! p) = cpu" using p by (auto simp: next_on_cpu_Some)
  note step = next_id_loop.simps [of opts a cpu eid stop_id r i c] p(1)
  show ?case
  proof (cases "p = j")
    case True
    with less.prems ip have "ev (a ! p) = eid" "\<not> (irq (a ! p) \<and> \<not> want_interrupted opts)"
      by (auto simp: cpu_match_def)
    with True show ?thesis by (simp add: step Let_def)
  next
    case False
    with p(2) have "p < j" by simp
    with less.prems ip have "ev (a ! p) \<noteq> eid" "ev (a ! p) \<noteq> stop_id" "want_interleaved opts"
      "\<not> (irq (a ! p) \<and> \<not> want_interrupted opts)"
      by (auto simp: cpu_match_def)
    then have "next_id_loop opts a cpu eid stop_id r i c = next_id_loop opts a cpu eid stop_id (Suc r) p c"
      by (simp add: step if_not_P)
    then show ?thesis using less.hyps [OF _ later [OF \<open>p < j\<close>]] ip by simp
  qed
qed

text \<open>
  The search ends at a record of the CPU with the interrupt flag: the end record, or another
  one that would have been passed over.
\<close>

definition cut_at :: "csv_opts \<Rightarrow> timestamp list \<Rightarrow> u8 \<Rightarrow> nat \<Rightarrow> nat \<Rightarrow> nat \<Rightarrow> nat \<Rightarrow> bool" where
  "cut_at opts a cpu eid stop_id i j \<longleftrightarrow>
     i < j \<and> j < length a \<and> unbroken a i j \<and> ts_cpu (a ! j) = cpu \<and> irq (a ! j) \<and>
     \<not> want_interrupted opts \<and>
     (ev (a ! j) = eid \<or> ev (a ! j) \<noteq> stop_id \<and> want_interleaved opts) \<and>
     (\<forall>k. i < k \<and> k < j \<and> ts_cpu (a ! k) = cpu \<longrightarrow>
        ev (a ! k) \<noteq> eid \<and> ev (a ! k) \<noteq> stop_id \<and> want_interleaved opts \<and> \<not> irq (a ! k))"

definition cpu_cut :: "csv_opts \<Rightarrow> timestamp list \<Rightarrow> u8 \<Rightarrow> nat \<Rightarrow> nat \<Rightarrow> nat \<Rightarrow> bool" where
  "cpu_cut opts a cpu eid stop_id i \<longleftrightarrow> (\<exists>j. cut_at opts a cpu eid stop_id i j)"

lemma cut_at_step:
  assumes "next_on_cpu a i cpu = Some p"
  shows "cut_at opts a cpu eid stop_id i j \<longleftrightarrow>
    j = p \<and> irq (a ! p) \<and> \<not> want_interrupted opts \<and>
      (ev (a ! p) = eid \<or> ev (a ! p) \<noteq> stop_id \<and> want_interleaved opts) \<or>
    ev (a ! p) \<noteq> eid \<and> ev (a ! p) \<noteq> stop_id \<and> want_interleaved opts \<and> \<not> irq (a ! p) \<and>
      cut_at opts a cpu eid stop_id p j"
    (is "_ \<longleftrightarrow> ?here \<or> ?later")
proof -
  have p: "i < p" "p < length a" "ts_cpu (a ! p) = cpu" "unbroken a i p"
    and none: "\<And>k. i < k \<Longrightarrow> k < p \<Longrightarrow> ts_cpu (a ! k) \<noteq> cpu"
    using assms by (auto simp: next_on_cpu_Some)
  show ?thesis
  proof (rule iffI; (elim disjE)?)
    assume cut: "cut_at opts a cpu eid stop_id i j"
    then have "p \<le> j" "unbroken a p j"
      using next_on_cpu_first [of i j a cpu] assms by (auto simp: cut_at_def)
    show "?here \<or> ?later"
    proof (cases "j = p")
      case True
      with cut show ?thesis by (simp add: cut_at_def)
    next
      case False
      then have "p < j" using \<open>p \<le> j\<close> by simp
      have mid: "i < k" if "p < k" for k using that p(1) by simp
      have "cut_at opts a cpu eid stop_id p j"
        using cut \<open>p < j\<close> \<open>unbroken a p j\<close> mid unfolding cut_at_def by (simp, blast)
      moreover have "ev (a ! p) \<noteq> eid \<and> ev (a ! p) \<noteq> stop_id \<and> want_interleaved opts \<and> \<not> irq (a ! p)"
        using cut \<open>p < j\<close> p unfolding cut_at_def by simp
      ultimately show ?thesis by blast
    qed
  next
    assume ?here
    then show "cut_at opts a cpu eid stop_id i j" using p none by (auto simp: cut_at_def)
  next
    assume later: ?later
    have "ev (a ! k) \<noteq> eid \<and> ev (a ! k) \<noteq> stop_id \<and> want_interleaved opts \<and> \<not> irq (a ! k)"
      if "i < k" "k < j" "ts_cpu (a ! k) = cpu" for k
      using later none [OF that(1)] that unfolding cut_at_def by (cases k p rule: linorder_cases) simp_all
    then show "cut_at opts a cpu eid stop_id i j"
      using later p unbroken_trans [OF p(4)] unfolding cut_at_def by auto
  qed
qed

lemma cpu_cut_step:
  "cpu_cut opts a cpu eid stop_id i \<longleftrightarrow>
     (case next_on_cpu a i cpu of
        None \<Rightarrow> False
      | Some p \<Rightarrow>
          if ev (a ! p) = eid then irq (a ! p) \<and> \<not> want_interrupted opts
          else ev (a ! p) \<noteq> stop_id \<and> want_interleaved opts \<and>
            (if irq (a ! p) \<and> \<not> want_interrupted opts then True else cpu_cut opts a cpu eid stop_id p))"
proof (cases "next_on_cpu a i cpu")
  case None
  have "\<not> cut_at opts a cpu eid stop_id i j" for j
    using next_on_cpu_first [of i j a cpu] None by (auto simp: cut_at_def)
  then show ?thesis using None by (simp add: cpu_cut_def)
next
  case (Some p)
  have "\<not> want_interrupted opts" if "cpu_cut opts a cpu eid stop_id p"
    using that by (auto simp: cpu_cut_def cut_at_def)
  then show ?thesis
    unfolding cpu_cut_def [of opts a cpu eid stop_id i] cut_at_step [OF Some] ex_disj_distrib
    by (auto simp: Some cpu_cut_def)
qed

lemma next_id_loop_flag:
  "fst (snd (next_id_loop opts a cpu eid stop_id r i c)) \<longleftrightarrow> cpu_cut opts a cpu eid stop_id i"
proof (induction "length a - i" arbitrary: i r c rule: less_induct)
  case less
  show ?case
  proof (cases "next_on_cpu a i cpu")
    case None
    then show ?thesis by (simp add: next_id_loop.simps [of opts a cpu eid stop_id r i c] cpu_cut_step [of opts a cpu eid stop_id i])
  next
    case (Some p)
    then have "length a - p < length a - i" by (auto simp: next_on_cpu_Some)
    from less.hyps [OF this] show ?thesis
      by (simp add: next_id_loop.simps [of opts a cpu eid stop_id r i c] cpu_cut_step [of opts a cpu eid stop_id i] Some Let_def)
  qed
qed

lemma find_second_ts_cut:
  "find_second_ts opts a i c = (r, fl, c') \<Longrightarrow>
     fl \<longleftrightarrow> cpu_cut opts a (ts_cpu (a ! i)) (ev (a ! i) + 1) (ev (a ! i)) i"
  unfolding find_second_ts_def next_id_def using next_id_loop_flag by (metis fst_conv snd_conv)

lemma find_second_ts_Some:
  "(\<exists>c'. find_second_ts opts a i c = (Some j, False, c')) \<longleftrightarrow>
     cpu_match opts a (ts_cpu (a ! i)) (ev (a ! i) + 1) (ev (a ! i)) i j"
  unfolding find_second_ts_def next_id_def
  by (meson next_id_loop_Some next_id_loop_complete)

lemma find_second_ts_flag: "find_second_ts opts a i c = (Some j, fl, c') \<Longrightarrow> \<not> fl"
  unfolding find_second_ts_def next_id_def by (drule next_id_loop_Some) simp

section \<open>Records of a task\<close>

text \<open>
  The specification of \<open>next_pid\<close>.  A record \<open>k\<close> after \<open>i\<close> on the CPU of \<open>i\<close> disturbs the
  search when it has the interrupt flag and \<^verbatim>\<open>-x\<close> is not given.  The search passes over the
  records of other tasks, and over other events of the task within the first
  \<open>max_interleaved_skipped\<close> records; without \<^verbatim>\<open>-s\<close> it therefore finds only the next record of
  the task.
\<close>

definition disturbs :: "csv_opts \<Rightarrow> timestamp list \<Rightarrow> nat \<Rightarrow> nat \<Rightarrow> bool" where
  "disturbs opts a i k \<longleftrightarrow> \<not> want_interrupted opts \<and> ts_cpu (a ! k) = ts_cpu (a ! i) \<and> irq (a ! k)"

definition passed_over ::
    "csv_opts \<Rightarrow> timestamp list \<Rightarrow> nat \<Rightarrow> nat \<Rightarrow> nat \<Rightarrow> bool \<Rightarrow> nat \<Rightarrow> bool" where
  "passed_over opts a i id1 id2 sg k \<longleftrightarrow>
     (ts_pid (a ! k) = ts_pid (a ! i) \<longrightarrow>
        ev (a ! k) \<noteq> id1 \<and> ev (a ! k) \<noteq> id2 \<and> int (k - i) \<le> max_interleaved_skipped opts) \<and>
     \<not> (sg \<and> disturbs opts a i k)"

definition pid_match ::
    "csv_opts \<Rightarrow> timestamp list \<Rightarrow> nat \<Rightarrow> nat \<Rightarrow> nat \<Rightarrow> bool \<Rightarrow> nat \<Rightarrow> bool" where
  "pid_match opts a i id1 id2 sg j \<longleftrightarrow>
     i < j \<and> j < length a \<and> unbroken a i j \<and> ts_pid (a ! j) = ts_pid (a ! i) \<and>
     (ev (a ! j) = id1 \<or> ev (a ! j) = id2) \<and> \<not> (sg \<and> disturbs opts a i j) \<and>
     (\<forall>k. i < k \<and> k < j \<longrightarrow> passed_over opts a i id1 id2 sg k)"

text \<open>The search ends at a disturbing record.\<close>

definition pid_cut :: "csv_opts \<Rightarrow> timestamp list \<Rightarrow> nat \<Rightarrow> nat \<Rightarrow> nat \<Rightarrow> bool" where
  "pid_cut opts a i id1 id2 \<longleftrightarrow>
     (\<exists>j. i < j \<and> j < length a \<and> unbroken a i j \<and> disturbs opts a i j \<and>
       (\<forall>k. i < k \<and> k < j \<longrightarrow> passed_over opts a i id1 id2 True k))"

lemma unbroken_next: "i \<le> m \<Longrightarrow> unbroken a i (Suc m) \<longleftrightarrow>
    unbroken a i m \<and> ts_seq_no (a ! Suc m) = ts_seq_no (a ! m) + 1"
  by (auto simp: unbroken_def less_Suc_eq)

lemma unbroken_prefix: "unbroken a i j \<Longrightarrow> m \<le> j \<Longrightarrow> unbroken a i m"
  by (auto simp: unbroken_def)

text \<open>A search that has passed over the records up to \<open>m\<close> ends at or after the next one.\<close>

lemma pid_match_next:
  assumes "pid_match opts a i id1 id2 sg j" and "i \<le> m"
    and "\<And>k. i < k \<Longrightarrow> k \<le> m \<Longrightarrow> passed_over opts a i id1 id2 sg k"
  shows "Suc m < length a \<and> ts_seq_no (a ! Suc m) = ts_seq_no (a ! m) + 1 \<and>
    (j = Suc m \<or> passed_over opts a i id1 id2 sg (Suc m))"
proof -
  have j: "i < j" "j < length a" "unbroken a i j" "\<not> passed_over opts a i id1 id2 sg j"
    using assms(1) by (auto simp: pid_match_def passed_over_def)
  then have m: "m < j" using assms(3) [of j] by (cases "j \<le> m") auto
  have "unbroken a i (Suc m)" using unbroken_prefix [OF j(3)] m by simp
  then have "ts_seq_no (a ! Suc m) = ts_seq_no (a ! m) + 1" by (simp add: unbroken_next assms(2))
  moreover have "j = Suc m \<or> passed_over opts a i id1 id2 sg (Suc m)"
    using assms(1,2) m by (cases "j = Suc m") (auto simp: pid_match_def)
  ultimately show ?thesis using m j(2) by simp
qed

lemma pid_cut_next:
  assumes "pid_cut opts a i id1 id2" and "i \<le> m"
    and "\<And>k. i < k \<Longrightarrow> k \<le> m \<Longrightarrow> passed_over opts a i id1 id2 True k"
  shows "Suc m < length a \<and> ts_seq_no (a ! Suc m) = ts_seq_no (a ! m) + 1 \<and>
    (disturbs opts a i (Suc m) \<or> passed_over opts a i id1 id2 True (Suc m))"
proof -
  obtain j where j: "i < j" "j < length a" "unbroken a i j" "disturbs opts a i j"
    and pass: "\<forall>k. i < k \<and> k < j \<longrightarrow> passed_over opts a i id1 id2 True k"
    using assms(1) unfolding pid_cut_def by blast
  then have m: "m < j" using assms(3) [of j] by (cases "j \<le> m") (auto simp: passed_over_def)
  have "unbroken a i (Suc m)" using unbroken_prefix [OF j(3)] m by simp
  then have "ts_seq_no (a ! Suc m) = ts_seq_no (a ! m) + 1" by (simp add: unbroken_next assms(2))
  moreover have "disturbs opts a i (Suc m) \<or> passed_over opts a i id1 id2 True (Suc m)"
    using pass assms(2) m j(4) by (cases "j = Suc m") auto
  ultimately show ?thesis using m j(2) by simp
qed

lemma next_pid_loop_iff:
  assumes "first \<le> m" and "unbroken a first m"
    and "\<And>k. first < k \<Longrightarrow> k \<le> m \<Longrightarrow> passed_over opts a first id1 id2 sg k"
  shows "\<exists>r fl c'. next_pid_loop opts a first id1 id2 sg (ts_seq_no (a ! m)) (int (m - first)) (Suc m) c = (r, fl, c') \<and>
    (\<forall>j. r = Some j \<longleftrightarrow> pid_match opts a first id1 id2 sg j) \<and> (fl \<longleftrightarrow> sg \<and> pid_cut opts a first id1 id2)"
  using assms
proof (induction "length a - m" arbitrary: m c rule: less_induct)
  case less
  let ?r = "a ! Suc m"
  let ?hit = "sg \<and> ts_cpu ?r = ts_cpu (a ! first) \<and> irq ?r"
  let ?c = "if ?hit then c\<lparr>interrupted := interrupted c + 1\<rparr> else c"
  note step = next_pid_loop.simps [of opts a first id1 id2 sg "ts_seq_no (a ! m)" "int (m - first)" "Suc m" c]
  note prem = less.prems
  have cuts: "Suc m < length a \<and> ts_seq_no ?r = ts_seq_no (a ! m) + 1 \<and>
      (disturbs opts a first (Suc m) \<or> passed_over opts a first id1 id2 True (Suc m))"
    if "sg" "pid_cut opts a first id1 id2"
    using pid_cut_next [OF that(2) prem(1)] prem(3) that(1) by simp
  note matches = pid_match_next [OF _ prem(1,3)]
  have int: "int (m - first) + 1 = int (Suc m - first)" using prem(1) by simp
  have unb: "unbroken a first (Suc m)" if "ts_seq_no ?r = ts_seq_no (a ! m) + 1"
    using that prem(1,2) by (simp add: unbroken_next)
  consider (out) "length a \<le> Suc m \<or> ts_seq_no ?r \<noteq> ts_seq_no (a ! m) + 1"
    | (cut) "Suc m < length a" "ts_seq_no ?r = ts_seq_no (a ! m) + 1" "sg" "disturbs opts a first (Suc m)"
    | (hit) "Suc m < length a" "ts_seq_no ?r = ts_seq_no (a ! m) + 1" "\<not> (sg \<and> disturbs opts a first (Suc m))"
        "ts_pid ?r = ts_pid (a ! first)" "ev ?r = id1 \<or> ev ?r = id2"
    | (odd) "Suc m < length a" "ts_seq_no ?r = ts_seq_no (a ! m) + 1" "\<not> (sg \<and> disturbs opts a first (Suc m))"
        "ts_pid ?r = ts_pid (a ! first)" "\<not> (ev ?r = id1 \<or> ev ?r = id2)"
        "max_interleaved_skipped opts < int (Suc m - first)"
    | (go) "Suc m < length a" "ts_seq_no ?r = ts_seq_no (a ! m) + 1" "passed_over opts a first id1 id2 sg (Suc m)"
    unfolding passed_over_def not_le [symmetric] by blast
  then show ?case
  proof cases
    case out
    then have "\<not> pid_match opts a first id1 id2 sg j" "\<not> (sg \<and> pid_cut opts a first id1 id2)" for j
      using matches [of j] cuts by auto
    moreover from out have "next_pid_loop opts a first id1 id2 sg (ts_seq_no (a ! m)) (int (m - first)) (Suc m) c = (None, False, c)"
      by (subst step) auto
    ultimately show ?thesis by auto
  next
    case cut
    then have "\<not> pid_match opts a first id1 id2 sg j" for j
      using matches [of j] by (auto simp: passed_over_def pid_match_def)
    moreover have "pid_cut opts a first id1 id2"
      unfolding pid_cut_def using cut prem unb by (intro exI [of _ "Suc m"]) auto
    moreover have "next_pid_loop opts a first id1 id2 sg (ts_seq_no (a ! m)) (int (m - first)) (Suc m) c = (None, True, ?c)"
      using cut by (subst step) (simp add: disturbs_def Let_def)
    ultimately show ?thesis using cut by auto
  next
    case hit
    then have "pid_match opts a first id1 id2 sg (Suc m)"
      unfolding pid_match_def using prem unb by auto
    moreover from hit have "j = Suc m" if "pid_match opts a first id1 id2 sg j" for j
      using matches [OF that] by (auto simp: passed_over_def)
    ultimately have "pid_match opts a first id1 id2 sg j \<longleftrightarrow> j = Suc m" for j by blast
    moreover have "\<not> (sg \<and> pid_cut opts a first id1 id2)"
      using cuts hit by (auto simp: passed_over_def)
    moreover have "next_pid_loop opts a first id1 id2 sg (ts_seq_no (a ! m)) (int (m - first)) (Suc m) c = (Some (Suc m), False, ?c)"
      using hit by (subst step) (auto simp: disturbs_def Let_def)
    ultimately show ?thesis by auto
  next
    case odd
    then have "\<not> pid_match opts a first id1 id2 sg j" for j
      using matches [of j] by (auto simp: passed_over_def pid_match_def)
    moreover have "\<not> (sg \<and> pid_cut opts a first id1 id2)"
      using cuts odd by (auto simp: passed_over_def)
    moreover have "next_pid_loop opts a first id1 id2 sg (ts_seq_no (a ! m)) (int (m - first)) (Suc m) c = (None, False, ?c)"
      using odd unfolding step Let_def int by (auto simp: disturbs_def)
    ultimately show ?thesis by auto
  next
    case go
    then have "next_pid_loop opts a first id1 id2 sg (ts_seq_no (a ! m)) (int (m - first)) (Suc m) c =
        next_pid_loop opts a first id1 id2 sg (ts_seq_no ?r) (int (Suc m - first)) (Suc (Suc m)) ?c"
      unfolding step Let_def int by (auto simp: disturbs_def passed_over_def)
    moreover have "passed_over opts a first id1 id2 sg k" if "first < k" "k \<le> Suc m" for k
      using that go(3) prem(3) by (cases "k = Suc m") auto
    ultimately show ?thesis
      using less.hyps [of "Suc m" ?c] go unb prem(1) by auto
  qed
qed

text \<open>\<open>next_pid\<close> finds what is specified, and sets the flag exactly when it is disturbed.\<close>

lemma next_pid_result:
  "\<exists>r fl c'. next_pid opts a i id1 id2 sg c = (r, fl, c') \<and>
    (\<forall>j. r = Some j \<longleftrightarrow> pid_match opts a i id1 id2 sg j) \<and> (fl \<longleftrightarrow> sg \<and> pid_cut opts a i id1 id2)"
  unfolding next_pid_def using next_pid_loop_iff [of i i a opts id1 id2 sg c] by simp

section \<open>Execution time with suspensions\<close>

text \<open>The duration between two records, as a number.\<close>

definition elapsed :: "timestamp list \<Rightarrow> nat \<Rightarrow> nat \<Rightarrow> nat" where
  "elapsed a i j = unat (ts_timestamp (a ! j)) - unat (ts_timestamp (a ! i))"

lemma ts64_le [simp]: "ts64 x \<le> ts64 y \<longleftrightarrow> ts_timestamp x \<le> ts_timestamp y"
  by (simp add: ts64_def word_le_nat_alt)

lemma ts64_less [simp]: "ts64 x < ts64 y \<longleftrightarrow> ts_timestamp x < ts_timestamp y"
  by (simp add: ts64_def)

lemma ts64_diff:
  assumes "ts_timestamp (a ! i) \<le> ts_timestamp (a ! j)"
  shows "ts64 (a ! j) - ts64 (a ! i) = of_nat (elapsed a i j)"
proof -
  have "ts64 r = of_nat (unat (ts_timestamp r))" for r
    using unat_ucast48 [of "ts_timestamp r"] by (simp add: ts64_def)
  then show ?thesis using assms by (simp add: elapsed_def word_le_nat_alt of_nat_diff)
qed

lemma elapsed_add:
  assumes "ts_timestamp (a ! i) \<le> ts_timestamp (a ! j)" and "ts_timestamp (a ! j) \<le> ts_timestamp (a ! k)"
  shows "elapsed a i j + elapsed a j k = elapsed a i k"
  using assms by (simp add: elapsed_def word_le_nat_alt)

text \<open>
  The record at which a task goes on after its suspension at \<open>p\<close>: the resume record, found
  directly or, when the task is scheduled out, after the scheduler records (the event 0 is
  accepted in place of the last two).
\<close>

definition resumes :: "csv_opts \<Rightarrow> timestamp list \<Rightarrow> nat \<Rightarrow> nat \<Rightarrow> bool" where
  "resumes opts a p q \<longleftrightarrow>
     (\<exists>r. pid_match opts a p TS_LOCK_RESUME TS_SCHED_START False r \<and> ts_timestamp (a ! p) \<le> ts_timestamp (a ! r) \<and>
       (if ev (a ! r) = TS_SCHED_START
        then (\<exists>s. pid_match opts a r TS_SCHED_END 0 False s \<and> ts_timestamp (a ! r) \<le> ts_timestamp (a ! s) \<and>
                pid_match opts a s TS_LOCK_RESUME 0 False q \<and> ts_timestamp (a ! r) \<le> ts_timestamp (a ! q))
        else q = r))"

text \<open>
  The specification of \<open>accumulate_exec_time\<close>: from \<open>i\<close> to \<open>j\<close> the task runs for \<open>t\<close> and is
  suspended for \<open>s\<close>.  A stretch in which it runs ends at the first suspension or end record
  of the task, so no suspension lies inside a stretch.
\<close>

inductive exec_path :: "csv_opts \<Rightarrow> timestamp list \<Rightarrow> nat \<Rightarrow> nat \<Rightarrow> nat \<Rightarrow> nat \<Rightarrow> nat \<Rightarrow> bool"
  for opts a stop_id where
  ends: "pid_match opts a i TS_LOCK_SUSPEND stop_id True j \<Longrightarrow> ev (a ! j) = stop_id \<Longrightarrow>
    ts_timestamp (a ! i) \<le> ts_timestamp (a ! j) \<Longrightarrow> exec_path opts a stop_id i j (elapsed a i j) 0"
| suspends: "pid_match opts a i TS_LOCK_SUSPEND stop_id True p \<Longrightarrow> ev (a ! p) \<noteq> stop_id \<Longrightarrow>
    ts_timestamp (a ! i) \<le> ts_timestamp (a ! p) \<Longrightarrow> resumes opts a p q \<Longrightarrow>
    exec_path opts a stop_id q j t s \<Longrightarrow>
    exec_path opts a stop_id i j (elapsed a i p + t) (elapsed a p q + s)"

inductive_simps exec_path_simps: "exec_path opts a stop_id i j t s"

text \<open>A stretch in which the task runs is disturbed by an interrupt.\<close>

inductive exec_cut :: "csv_opts \<Rightarrow> timestamp list \<Rightarrow> nat \<Rightarrow> nat \<Rightarrow> bool" for opts a stop_id where
  now: "pid_cut opts a i TS_LOCK_SUSPEND stop_id \<Longrightarrow> exec_cut opts a stop_id i"
| later: "pid_match opts a i TS_LOCK_SUSPEND stop_id True p \<Longrightarrow> ev (a ! p) \<noteq> stop_id \<Longrightarrow>
    ts_timestamp (a ! i) \<le> ts_timestamp (a ! p) \<Longrightarrow> resumes opts a p q \<Longrightarrow>
    exec_cut opts a stop_id q \<Longrightarrow> exec_cut opts a stop_id i"

inductive_simps exec_cut_simps: "exec_cut opts a stop_id i"

lemma pid_match_reach: "pid_match opts a i id1 id2 sg j \<Longrightarrow> pid_reach a i j"
  by (auto simp: pid_match_def pid_reach_def)

lemma resumes_reach:
  "resumes opts a p q \<Longrightarrow> pid_reach a p q \<and> ts_timestamp (a ! p) \<le> ts_timestamp (a ! q)"
proof -
  assume "resumes opts a p q"
  then obtain r where r: "pid_match opts a p TS_LOCK_RESUME TS_SCHED_START False r" "ts_timestamp (a ! p) \<le> ts_timestamp (a ! r)"
    and rest: "if ev (a ! r) = TS_SCHED_START
        then (\<exists>s. pid_match opts a r TS_SCHED_END 0 False s \<and> ts_timestamp (a ! r) \<le> ts_timestamp (a ! s) \<and>
                pid_match opts a s TS_LOCK_RESUME 0 False q \<and> ts_timestamp (a ! r) \<le> ts_timestamp (a ! q))
        else q = r"
    unfolding resumes_def by blast
  show ?thesis
  proof (cases "ev (a ! r) = TS_SCHED_START")
    case True
    with rest obtain s where s: "pid_reach a r s" "pid_reach a s q" "ts_timestamp (a ! r) \<le> ts_timestamp (a ! q)"
      by (metis (no_types, lifting) pid_match_reach)
    show ?thesis
      using pid_reach_trans [OF pid_match_reach [OF r(1)] pid_reach_trans [OF s(1,2)]] order_trans [OF r(2) s(3)] by simp
  next
    case False
    with rest r show ?thesis using pid_match_reach by simp
  qed
qed

text \<open>The time of execution and the time of suspension make up the whole distance.\<close>

lemma exec_path_total:
  "exec_path opts a stop_id i j t s \<Longrightarrow>
     pid_reach a i j \<and> ts_timestamp (a ! i) \<le> ts_timestamp (a ! j) \<and> ev (a ! j) = stop_id \<and>
     t + s = elapsed a i j"
proof (induction rule: exec_path.induct)
  case (ends i j)
  then show ?case by (simp add: pid_match_reach)
next
  case (suspends i p q j t s)
  note pq = resumes_reach [OF suspends(4)] and ip = pid_match_reach [OF suspends(1)]
  have "ts_timestamp (a ! i) \<le> ts_timestamp (a ! q)"
    using suspends(3) pq by (blast intro: order_trans)
  then have "elapsed a i p + elapsed a p q + elapsed a q j = elapsed a i j"
    using suspends pq elapsed_add [of a i p q] elapsed_add [of a i q j] by simp
  moreover have "pid_reach a i j"
    using suspends pq pid_reach_trans [OF ip pid_reach_trans [of a p q j]] by simp
  moreover have "ts_timestamp (a ! i) \<le> ts_timestamp (a ! j)"
    using suspends.IH \<open>ts_timestamp (a ! i) \<le> ts_timestamp (a ! q)\<close> by (blast intro: order_trans)
  ultimately show ?case using suspends.IH by simp
qed

lemma skip_result:
  "\<exists>r l c'. skip_over_suspension opts a p (ts64 (a ! p)) c = (r, l, c') \<and>
    (\<forall>q. r = Some q \<and> \<not> ts64 (a ! q) < l \<longleftrightarrow> resumes opts a p q)"
proof -
  obtain r fl c1 where r: "next_pid opts a p TS_LOCK_RESUME TS_SCHED_START False c = (r, fl, c1)"
    "\<And>j. r = Some j \<longleftrightarrow> pid_match opts a p TS_LOCK_RESUME TS_SCHED_START False j"
    using next_pid_result by metis
  show ?thesis
  proof (cases "\<exists>z. r = Some z \<and> \<not> ts64 (a ! z) < ts64 (a ! p) \<and> ev (a ! z) = TS_SCHED_START")
    case False
    have res: "resumes opts a p q \<longleftrightarrow> (\<exists>z. r = Some z \<and> \<not> ts64 (a ! z) < ts64 (a ! p) \<and> q = z)" for q
      using False unfolding resumes_def r(2) [symmetric] by (auto simp: not_less)
    show ?thesis
    proof (cases "\<exists>z. r = Some z \<and> \<not> ts64 (a ! z) < ts64 (a ! p)")
      case True
      then obtain z where "r = Some z" "\<not> ts64 (a ! z) < ts64 (a ! p)" by blast
      then have "skip_over_suspension opts a p (ts64 (a ! p)) c = (Some z, ts64 (a ! z), c1)"
        using r(1) False by (simp add: skip_over_suspension_def Let_def)
      with True \<open>r = Some z\<close> show ?thesis by (auto simp: res)
    next
      case False
      then have "skip_over_suspension opts a p (ts64 (a ! p)) c = (None, ts64 (a ! p), c1)"
        using r(1) by (cases r) (simp_all add: skip_over_suspension_def)
      with False show ?thesis by (simp add: res)
    qed
  next
    case True
    then obtain z where z: "r = Some z" "\<not> ts64 (a ! z) < ts64 (a ! p)" "ev (a ! z) = TS_SCHED_START" by blast
    obtain s fl2 c2 where s: "next_pid opts a z TS_SCHED_END 0 False c1 = (s, fl2, c2)"
      "\<And>j. s = Some j \<longleftrightarrow> pid_match opts a z TS_SCHED_END 0 False j"
      using next_pid_result by metis
    have only: "pid_match opts a p TS_LOCK_RESUME TS_SCHED_START False j \<longleftrightarrow> j = z" for j
      unfolding r(2) [symmetric] z(1) by blast
    have res: "resumes opts a p q \<longleftrightarrow> (\<exists>y. s = Some y \<and> \<not> ts64 (a ! y) < ts64 (a ! z) \<and>
        pid_match opts a y TS_LOCK_RESUME 0 False q \<and> \<not> ts64 (a ! q) < ts64 (a ! z))" for q
      using z(2,3) by (auto simp: resumes_def only s(2) not_less)
    show ?thesis
    proof (cases "\<exists>y. s = Some y \<and> \<not> ts64 (a ! y) < ts64 (a ! z)")
      case False
      then have "skip_over_suspension opts a p (ts64 (a ! p)) c = (None, ts64 (a ! z), c2)"
        using r z s by (cases s) (auto simp: skip_over_suspension_def Let_def)
      with False show ?thesis by (auto simp: res)
    next
      case True
      then obtain y where y: "s = Some y" "\<not> ts64 (a ! y) < ts64 (a ! z)" by blast
      obtain x fl3 c3 where x: "next_pid opts a y TS_LOCK_RESUME 0 False c2 = (x, fl3, c3)"
        "\<And>j. x = Some j \<longleftrightarrow> pid_match opts a y TS_LOCK_RESUME 0 False j"
        using next_pid_result by metis
      have "skip_over_suspension opts a p (ts64 (a ! p)) c = (x, ts64 (a ! z), c3)"
        using r z s y x(1) by (simp add: skip_over_suspension_def Let_def)
      with y show ?thesis by (auto simp: res x(2))
    qed
  qed
qed

lemma acc_loop_result:
  "\<exists>r tot fl c'. acc_loop opts a stop_id i (ts64 (a ! i)) acc c = (r, tot, fl, c') \<and>
    (\<forall>j. r = Some j \<longleftrightarrow> (\<exists>t s. exec_path opts a stop_id i j t s)) \<and>
    (\<forall>j t s. exec_path opts a stop_id i j t s \<longrightarrow> tot = acc + of_nat t) \<and>
    (fl \<longleftrightarrow> exec_cut opts a stop_id i)"
proof (induction "length a - i" arbitrary: i acc c rule: less_induct)
  case less
  note step = acc_loop.simps [of opts a stop_id i "ts64 (a ! i)" acc c, unfolded Let_def]
  obtain r fl c1 where r: "next_pid opts a i TS_LOCK_SUSPEND stop_id True c = (r, fl, c1)"
    "\<And>j. pid_match opts a i TS_LOCK_SUSPEND stop_id True j \<longleftrightarrow> r = Some j"
    "pid_cut opts a i TS_LOCK_SUSPEND stop_id \<longleftrightarrow> fl"
    using next_pid_result [of opts a i TS_LOCK_SUSPEND stop_id True c] by auto
  note paths = exec_path_simps [of opts a stop_id i, unfolded r(2)]
  note cuts = exec_cut_simps [of opts a stop_id i, unfolded r(2,3)]
  show ?case
  proof (cases "\<exists>p. r = Some p \<and> \<not> ts64 (a ! p) < ts64 (a ! i)")
    case False
    then have loop: "acc_loop opts a stop_id i (ts64 (a ! i)) acc c = (None, acc, fl, c1)"
      using r(1) unfolding step by (cases r) simp_all
    have none: "\<not> (r = Some p \<and> ts_timestamp (a ! i) \<le> ts_timestamp (a ! p))" for p
      using False by (simp add: not_less)
    then have "\<not> exec_path opts a stop_id i j t s" for j t s unfolding paths by blast
    moreover from none have "exec_cut opts a stop_id i \<longleftrightarrow> fl" unfolding cuts by blast
    ultimately show ?thesis unfolding loop by simp
  next
    case True
    then obtain p where p: "r = Some p" "\<not> ts64 (a ! p) < ts64 (a ! i)" by blast
    then have le: "ts_timestamp (a ! i) \<le> ts_timestamp (a ! p)" by simp
    have fl: "\<not> fl" using next_pid_Some [OF r(1) [unfolded p(1)]] by simp
    let ?acc = "acc + of_nat (elapsed a i p)"
    note step = step [unfolded r(1) p(1) prod.case option.case if_not_P [OF p(2)] ts64_diff [OF le]]
    show ?thesis
    proof (cases "ev (a ! p) = stop_id")
      case True
      have path: "exec_path opts a stop_id i j t s \<longleftrightarrow> j = p \<and> t = elapsed a i p \<and> s = 0" for j t s
        unfolding paths p(1) using True le by blast
      then have ends: "(\<exists>t s. exec_path opts a stop_id i j t s) \<longleftrightarrow> p = j" for j
        by (metis (full_types))
      have "\<not> exec_cut opts a stop_id i"
        unfolding cuts p(1) using True fl by blast
      with True fl show ?thesis
        by (intro exI [of _ "Some p"] exI [of _ ?acc] exI [of _ False] exI [of _ c1]) (simp add: step path ends)
    next
      case stop: False
      obtain x l c2 where x: "skip_over_suspension opts a p (ts64 (a ! p)) c1 = (x, l, c2)"
        "\<And>q. resumes opts a p q \<longleftrightarrow> x = Some q \<and> \<not> ts64 (a ! q) < l"
        using skip_result [of opts a p c1] by auto
      note step = step [unfolded if_not_P [OF stop] x(1) prod.case]
      show ?thesis
      proof (cases "\<exists>q. resumes opts a p q")
        case False
        then have "acc_loop opts a stop_id i (ts64 (a ! i)) acc c = (None, ?acc, fl, c2)"
          using x(2) by (cases x) (auto simp: step)
        moreover have "\<not> exec_path opts a stop_id i j t s" for j t s
          unfolding paths p(1) using False stop by blast
        moreover have "\<not> exec_cut opts a stop_id i"
          unfolding cuts p(1) using False fl by blast
        ultimately show ?thesis using fl by simp blast
      next
        case True
        then obtain q where q: "resumes opts a p q" by blast
        then have loop: "acc_loop opts a stop_id i (ts64 (a ! i)) acc c = acc_loop opts a stop_id q (ts64 (a ! q)) ?acc c2"
          using x(2) by (auto simp: step)
        have only: "resumes opts a p q' \<longleftrightarrow> q' = q" for q' using q x(2) by auto
        have "length a - q < length a - i"
          using resumes_reach [OF q] pid_match_reach [of opts a i TS_LOCK_SUSPEND stop_id True p] r(2) p
          by (auto simp: pid_reach_def)
        from less.hyps [OF this, of ?acc c2] obtain y tot fl' c' where
          y: "acc_loop opts a stop_id q (ts64 (a ! q)) ?acc c2 = (y, tot, fl', c')"
          and hit: "\<forall>j. y = Some j \<longleftrightarrow> (\<exists>t s. exec_path opts a stop_id q j t s)"
          and sum: "\<forall>j t s. exec_path opts a stop_id q j t s \<longrightarrow> tot = ?acc + of_nat t"
          and flag: "fl' \<longleftrightarrow> exec_cut opts a stop_id q"
          by (elim exE conjE)
        have path: "exec_path opts a stop_id i j t s \<longleftrightarrow>
            (\<exists>t' s'. exec_path opts a stop_id q j t' s' \<and> t = elapsed a i p + t' \<and> s = elapsed a p q + s')" for j t s
          unfolding paths p(1) using stop le by (auto simp: only)
        have cut: "exec_cut opts a stop_id i \<longleftrightarrow> exec_cut opts a stop_id q"
          unfolding cuts p(1) using stop le fl by (auto simp: only)
        show ?thesis
        proof (intro exI conjI allI impI)
          show "acc_loop opts a stop_id i (ts64 (a ! i)) acc c = (y, tot, fl', c')" unfolding loop y ..
          show "y = Some j \<longleftrightarrow> (\<exists>t s. exec_path opts a stop_id i j t s)" for j
            unfolding hit [rule_format] path by blast
          show "fl' \<longleftrightarrow> exec_cut opts a stop_id i" unfolding flag cut ..
        next
          fix j t s assume "exec_path opts a stop_id i j t s"
          then obtain t' s' where "exec_path opts a stop_id q j t' s'" "t = elapsed a i p + t'"
            unfolding path by blast
          with sum [rule_format] show "tot = acc + of_nat t" by (simp add: add.assoc)
        qed
      qed
    qed
  qed
qed

lemma accumulate_result:
  "\<exists>r tot fl c'. accumulate_exec_time opts a i stop_id c = (r, tot, fl, c') \<and>
    (\<forall>j. r = Some j \<longleftrightarrow> (\<exists>t s. exec_path opts a stop_id i j t s)) \<and>
    (\<forall>j t s. exec_path opts a stop_id i j t s \<longrightarrow> tot = of_nat t) \<and>
    (fl \<longleftrightarrow> exec_cut opts a stop_id i)"
  using acc_loop_result [of opts a stop_id i 0 c] by (simp add: accumulate_exec_time_def)

end
