(* ===== verification/Ft2csv_Correct.thy ===== *)
theory Ft2csv_Correct
  imports Ft2csv_Matching
begin

text \<open>
  Correctness of \<^verbatim>\<open>ft2csv\<close>: which pairs of records are reported and with which
  duration, and what the counters count.  The outcome of a start record is computed with the
  searches of the program, \<open>show_csv_core\<close> says that \<open>show_csv\<close> does to the output and
  the counters what belongs to the outcome, and \<open>outcome_by_event\<close> and \<open>outcome_by_pid\<close>
  give the outcome by the specification of the searches.
\<close>

section \<open>Outcomes and counters\<close>

text \<open>
  The searches return the same record whatever the counters are, and touch only the
  counters \<open>interrupted\<close> and \<open>interleaved\<close>.
\<close>

definition core :: "csv_state \<Rightarrow> u32 \<times> u32 \<times> u32 \<times> u32 \<times> u32 \<times> item list" where
  "core c = (complete c, incomplete c, skipped c, non_rt c, avoided c, out c)"

definition oblivious :: "(csv_state \<Rightarrow> nat option \<times> 'a \<times> csv_state) \<Rightarrow> bool" where
  "oblivious f \<longleftrightarrow> (\<exists>r x. \<forall>c. \<exists>c'. f c = (r, x, c') \<and> core c' = core c)"

lemma core_counters [simp]:
  "core (c\<lparr>interrupted := n\<rparr>) = core c" "core (c\<lparr>interleaved := n\<rparr>) = core c"
  by (simp_all add: core_def)

lemma obliviousI:
  "(\<And>c. fst (f c) = r) \<Longrightarrow> (\<And>c. fst (snd (f c)) = x) \<Longrightarrow> (\<And>c. core (snd (snd (f c))) = core c) \<Longrightarrow>
     oblivious f"
  unfolding oblivious_def by (intro exI [of _ r] exI [of _ x] allI) (metis prod.collapse)

lemma oblivious_cong: "(\<And>c. f c = g c) \<Longrightarrow> oblivious g \<Longrightarrow> oblivious f"
  by (metis ext)

lemma oblivious_leaf: "(\<And>c. core (g c) = core c) \<Longrightarrow> oblivious (\<lambda>c. (r, x, g c))"
  by (rule obliviousI) auto

lemma oblivious_if:
  "(P \<Longrightarrow> oblivious f) \<Longrightarrow> (\<not> P \<Longrightarrow> oblivious g) \<Longrightarrow> oblivious (\<lambda>c. if P then f c else g c)"
  by (cases P) simp_all

lemma oblivious_pre:
  assumes "oblivious f" and "\<And>c. core (g c) = core c"
  shows "oblivious (\<lambda>c. f (g c))"
  using assms unfolding oblivious_def by metis

lemma oblivious_next_id_loop: "oblivious (\<lambda>c. next_id_loop opts a cpu eid stop_id r i c)"
proof (induction "length a - i" arbitrary: i r rule: less_induct)
  case less
  show ?case
  proof (cases "next_on_cpu a i cpu")
    case None
    then show ?thesis
      by (intro oblivious_cong [OF next_id_loop.simps]) (simp add: oblivious_leaf)
  next
    case (Some p)
    then have "length a - p < length a - i" by (auto simp: next_on_cpu_Some)
    note rec = less.hyps [OF this]
    show ?thesis
      by (rule oblivious_cong [OF next_id_loop.simps], unfold Some option.case Let_def)
        (intro oblivious_if oblivious_leaf rec; simp)
  qed
qed

lemma oblivious_next_pid_loop:
  "oblivious (\<lambda>c. next_pid_loop opts a first id1 id2 sg l n pos c)"
proof (induction "length a - pos" arbitrary: pos l n rule: less_induct)
  case less
  have rec: "oblivious (\<lambda>c. next_pid_loop opts a first id1 id2 sg l m (Suc pos) (g c))"
    if "pos < length a" "\<And>c. core (g c) = core c" for l m g
    by (rule oblivious_pre, rule less.hyps) (use that in auto)
  show ?case
    by (rule oblivious_cong [OF next_pid_loop.simps], unfold Let_def)
      (intro oblivious_if oblivious_leaf rec; simp)
qed

lemma oblivious_next_id: "oblivious (next_id opts a i cpu eid stop_id)"
  using oblivious_next_id_loop by (rule oblivious_cong [OF next_id_def])

lemma oblivious_next_pid: "oblivious (next_pid opts a i id1 id2 sg)"
  using oblivious_next_pid_loop by (rule oblivious_cong [OF next_pid_def])

text \<open>Sequencing: what follows an oblivious search is run on its result.\<close>

lemma oblivious_bind:
  assumes f: "oblivious f" and n: "\<And>x. oblivious (n x)" and k: "\<And>p x. oblivious (k p x)"
  shows "oblivious (\<lambda>c. case f c of (None, x, c') \<Rightarrow> n x c' | (Some p, x, c') \<Rightarrow> k p x c')"
proof -
  obtain r x where r: "\<And>c. \<exists>c'. f c = (r, x, c') \<and> core c' = core c"
    using f unfolding oblivious_def by blast
  show ?thesis
  proof (cases r)
    case None
    obtain s y where "\<And>c. \<exists>c'. n x c = (s, y, c') \<and> core c' = core c"
      using n [of x] unfolding oblivious_def by blast
    with r None show ?thesis unfolding oblivious_def
      by (intro exI [of _ s] exI [of _ y] allI) (metis (no_types, lifting) option.case(1) prod.case)
  next
    case (Some p)
    obtain s y where "\<And>c. \<exists>c'. k p x c = (s, y, c') \<and> core c' = core c"
      using k [of p x] unfolding oblivious_def by blast
    with r Some show ?thesis unfolding oblivious_def
      by (intro exI [of _ s] exI [of _ y] allI) (metis (no_types, lifting) option.case(2) prod.case)
  qed
qed

lemma oblivious_skip: "oblivious (skip_over_suspension opts a i t)"
proof -
  have "oblivious (\<lambda>c. case next_pid opts a q TS_LOCK_RESUME 0 False c of (r, _, c3) \<Rightarrow> (r, t, c3))"
    for q and t :: u64
    using oblivious_next_pid [of opts a q TS_LOCK_RESUME 0 False] unfolding oblivious_def
    by (metis (mono_tags, lifting) prod.case)
  then show ?thesis
    by (intro oblivious_cong [OF skip_over_suspension_def], unfold Let_def)
      (intro oblivious_bind oblivious_next_pid oblivious_if oblivious_leaf; simp)
qed

lemma oblivious_acc_loop:
  "\<exists>r s fl. \<forall>c. \<exists>c'. acc_loop opts a stop_id i t acc c = (r, s, fl, c') \<and> core c' = core c"
proof (induction "length a - i" arbitrary: i t acc rule: less_induct)
  case less
  note step = acc_loop.simps [of opts a stop_id i t acc]
  obtain r fl where r: "\<And>c. \<exists>c'. next_pid opts a i TS_LOCK_SUSPEND stop_id True c = (r, fl, c') \<and> core c' = core c"
    using oblivious_next_pid unfolding oblivious_def by blast
  show ?case
  proof (cases r)
    case None
    have "\<exists>c'. acc_loop opts a stop_id i t acc c = (None, acc, fl, c') \<and> core c' = core c" for c
      using r [of c] None by (auto simp: step Let_def)
    then show ?thesis by blast
  next
    case (Some p)
    let ?acc = "acc + (ts64 (a ! p) - ts64 (a ! i))"
    have ip: "i < p" "p < length a"
      using r [of csv_init] Some by (auto dest!: next_pid_Some simp: pid_reach_def)
    obtain q l where q: "\<And>c. \<exists>c'. skip_over_suspension opts a p (ts64 (a ! p)) c = (q, l, c') \<and> core c' = core c"
      using oblivious_skip unfolding oblivious_def by blast
    let ?early = "ts64 (a ! p) < t" and ?stop = "ev (a ! p) = stop_id"
    have run: "\<exists>c1 c2. next_pid opts a i TS_LOCK_SUSPEND stop_id True c = (Some p, fl, c1) \<and> core c1 = core c \<and>
        skip_over_suspension opts a p (ts64 (a ! p)) c1 = (q, l, c2) \<and> core c2 = core c" for c
      using r q Some by metis
    show ?thesis
    proof (cases "?early \<or> ?stop \<or> q = None \<or> ts64 (a ! the q) < l")
      case True
      have "\<exists>c'. acc_loop opts a stop_id i t acc c =
          (if \<not> ?early \<and> ?stop then Some p else None, if ?early then acc else ?acc, fl, c') \<and> core c' = core c" for c
        using run [of c] True by (auto simp: step Let_def split: option.splits)
      then show ?thesis by blast
    next
      case False
      then obtain z where z: "q = Some z" by auto
      have "length a - z < length a - i"
        using q [of csv_init] ip z by (auto dest!: skip_over_suspension_Some simp: pid_reach_def)
      then obtain r' s' fl' where rec: "\<And>c. \<exists>c'. acc_loop opts a stop_id z (ts64 (a ! z)) ?acc c = (r', s', fl', c') \<and> core c' = core c"
        using less.hyps by meson
      have "\<exists>c2. acc_loop opts a stop_id i t acc c = acc_loop opts a stop_id z (ts64 (a ! z)) ?acc c2 \<and> core c2 = core c" for c
        using run [of c] False z by (auto simp: step [of c] Let_def if_not_P)
      then show ?thesis using rec by metis
    qed
  qed
qed


text \<open>
  What becomes of one start record: skipped because of its CPU, reported with a duration,
  neither end of it real-time, without a match, or dropped because of an interrupt.
\<close>

datatype outcome = Avoided | Reported nat u64 | Non_rt | Incomplete | Disturbed

definition pid_search ::
    "csv_opts \<Rightarrow> timestamp list \<Rightarrow> nat \<Rightarrow> nat option \<times> u64 \<times> bool" where
  "pid_search opts a i =
     (if ev (a ! i) \<ge> SUSPENSION_RANGE \<and> max_interleaved_skipped opts = 0
      then case accumulate_exec_time opts a i (ev (a ! i) + 1) csv_init of (r, t, fl, _) \<Rightarrow> (r, t, fl)
      else case next_pid opts a i (ev (a ! i) + 1) 0 True csv_init of (r, fl, _) \<Rightarrow>
        (case r of
           Some j \<Rightarrow> if ts_timestamp (a ! i) < ts_timestamp (a ! j)
             then (Some j, ts64 (a ! j) - ts64 (a ! i), fl) else (None, 0, fl)
         | None \<Rightarrow> (None, 0, fl)))"

definition eid_search :: "csv_opts \<Rightarrow> timestamp list \<Rightarrow> nat \<Rightarrow> nat option \<times> bool" where
  "eid_search opts a i =
     (case find_second_ts opts a i csv_init of (r, fl, _) \<Rightarrow>
        (case r of
           Some j \<Rightarrow> if ts_timestamp (a ! i) < ts_timestamp (a ! j) then (Some j, fl) else (None, fl)
         | None \<Rightarrow> (None, fl)))"

definition outcome :: "csv_opts \<Rightarrow> timestamp list \<Rightarrow> nat \<Rightarrow> outcome" where
  "outcome opts a i =
     (if cpu_excluded opts (a ! i) then Avoided
      else if find_by_pid opts \<noteq> 0 then
        (case pid_search opts a i of
           (Some j, t, _) \<Rightarrow> Reported j t
         | (None, _, fl) \<Rightarrow> if fl then Disturbed else Incomplete)
      else
        (case eid_search opts a i of
           (Some j, _) \<Rightarrow>
             if task_type (a ! i) \<noteq> TSK_RT \<and> task_type (a ! j) \<noteq> TSK_RT \<and> \<not> want_best_effort opts
             then Non_rt else Reported j (ts64 (a ! j) - ts64 (a ! i))
         | (None, fl) \<Rightarrow> if fl then Disturbed else Incomplete))"

fun tally :: "csv_opts \<Rightarrow> timestamp list \<Rightarrow> nat \<Rightarrow> outcome \<Rightarrow> csv_state \<Rightarrow> csv_state" where
  "tally opts a i Avoided c = c\<lparr>avoided := avoided c + 1\<rparr>"
| "tally opts a i (Reported j t) c = emit (format_pair opts (a ! i) (a ! j) t) c"
| "tally opts a i Non_rt c = c\<lparr>non_rt := non_rt c + 1\<rparr>"
| "tally opts a i Incomplete c = c\<lparr>incomplete := incomplete c + 1\<rparr>"
| "tally opts a i Disturbed c = c"

lemma core_cong:
  "core c = core d \<Longrightarrow> core (tally opts a i x c) = core (tally opts a i x d)"
  by (cases x) (simp_all add: core_def emit_def)

lemma find_event_by_pid_core:
  "core (find_event_by_pid opts a i c) =
     core (tally opts a i (case pid_search opts a i of
             (Some j, t, _) \<Rightarrow> Reported j t
           | (None, _, fl) \<Rightarrow> if fl then Disturbed else Incomplete) c)"
proof (cases "ev (a ! i) \<ge> SUSPENSION_RANGE \<and> max_interleaved_skipped opts = 0")
  case True
  obtain r t fl where "\<And>c. \<exists>c'. accumulate_exec_time opts a i (ev (a ! i) + 1) c = (r, t, fl, c') \<and> core c' = core c"
    using oblivious_acc_loop unfolding accumulate_exec_time_def by blast
  then obtain c1 c0 where "accumulate_exec_time opts a i (ev (a ! i) + 1) c = (r, t, fl, c1)" "core c1 = core c"
    "accumulate_exec_time opts a i (ev (a ! i) + 1) csv_init = (r, t, fl, c0)" by meson
  with True show ?thesis
    by (cases r) (auto simp: find_event_by_pid_def pid_search_def core_def emit_def)
next
  case False
  obtain r fl where "\<And>c. \<exists>c'. next_pid opts a i (ev (a ! i) + 1) 0 True c = (r, fl, c') \<and> core c' = core c"
    using oblivious_next_pid unfolding oblivious_def by blast
  then obtain c1 c0 where "next_pid opts a i (ev (a ! i) + 1) 0 True c = (r, fl, c1)" "core c1 = core c"
    "next_pid opts a i (ev (a ! i) + 1) 0 True csv_init = (r, fl, c0)" by meson
  then show ?thesis
    unfolding find_event_by_pid_def pid_search_def if_not_P [OF False]
    by (cases r) (auto simp: core_def emit_def)
qed

lemma find_event_by_eid_core:
  "core (find_event_by_eid opts a i c) =
     core (tally opts a i (case eid_search opts a i of
           (Some j, _) \<Rightarrow>
             if task_type (a ! i) \<noteq> TSK_RT \<and> task_type (a ! j) \<noteq> TSK_RT \<and> \<not> want_best_effort opts
             then Non_rt else Reported j (ts64 (a ! j) - ts64 (a ! i))
         | (None, fl) \<Rightarrow> if fl then Disturbed else Incomplete) c)"
proof -
  obtain r fl where "\<And>c. \<exists>c'. find_second_ts opts a i c = (r, fl, c') \<and> core c' = core c"
    using oblivious_next_id unfolding oblivious_def find_second_ts_def by blast
  then obtain c1 c0 where "find_second_ts opts a i c = (r, fl, c1)" "core c1 = core c"
    "find_second_ts opts a i csv_init = (r, fl, c0)" by meson
  then show ?thesis
    by (cases r) (auto simp: find_event_by_eid_def eid_search_def core_def emit_def)
qed

lemma show_csv_core: "core (show_csv opts a i c) = core (tally opts a i (outcome opts a i) c)"
  by (simp add: show_csv_def outcome_def find_event_by_pid_core find_event_by_eid_core)


section \<open>The report of an event\<close>

definition starts :: "timestamp list \<Rightarrow> nat \<Rightarrow> nat list" where
  "starts a eid = filter (\<lambda>i. ev (a ! i) = eid) [skip_to_end a eid..<length a]"

definition report :: "csv_opts \<Rightarrow> timestamp list \<Rightarrow> nat \<Rightarrow> item list" where
  "report opts a i = (case outcome opts a i of
     Reported j t \<Rightarrow> [format_pair opts (a ! i) (a ! j) t] | _ \<Rightarrow> [])"

text \<open>How many of the start records have an outcome, as a counter of the program.\<close>

definition number :: "('a \<Rightarrow> bool) \<Rightarrow> 'a list \<Rightarrow> u32" where
  "number P xs = of_nat (length (filter P xs))"

lemma number_simps [simp]:
  "number P [] = 0" "number P (x # xs) = (if P x then 1 else 0) + number P xs"
  by (simp_all add: number_def)

lemma fold_filter: "fold (\<lambda>x c. if P x then f x c else c) xs c = fold f (filter P xs) c"
  by (induction xs arbitrary: c) auto

lemma fold_show_csv:
  "core (fold (show_csv opts a) xs c) =
     (complete c + of_nat (length (concat (map (report opts a) xs))),
      incomplete c + number (\<lambda>i. outcome opts a i = Incomplete) xs,
      skipped c,
      non_rt c + number (\<lambda>i. outcome opts a i = Non_rt) xs,
      avoided c + number (\<lambda>i. outcome opts a i = Avoided) xs,
      out c @ concat (map (report opts a) xs))"
proof (induction xs arbitrary: c)
  case Nil
  then show ?case by (simp add: core_def)
next
  case (Cons i xs)
  have "core (show_csv opts a i c) = core (tally opts a i (outcome opts a i) c)"
    by (rule show_csv_core)
  then show ?case
    using Cons.IH [of "show_csv opts a i c"]
    by (cases "outcome opts a i") (simp_all add: core_def emit_def report_def add_ac)
qed

lemma show_id_counts:
  assumes "c = show_id opts a eid csv_init" and "os = map (outcome opts a) (starts a eid)"
  shows "out c = concat (map (report opts a) (starts a eid))"
    and "complete c = of_nat (length (out c))"
    and "incomplete c = number (\<lambda>x. x = Incomplete) os"
    and "non_rt c = number (\<lambda>x. x = Non_rt) os"
    and "avoided c = number (\<lambda>x. x = Avoided) os"
    and "skipped c = of_nat (skip_to_end a eid)"
proof -
  have "c = fold (show_csv opts a) (starts a eid) (csv_init\<lparr>skipped := of_nat (skip_to_end a eid)\<rparr>)"
    by (simp add: assms show_id_def Let_def fold_filter starts_def csv_init_def)
  then have *: "core c = core (fold (show_csv opts a) (starts a eid) (csv_init\<lparr>skipped := of_nat (skip_to_end a eid)\<rparr>))"
    by simp
  have n: "number (\<lambda>x. x = y) (map f xs) = number (\<lambda>i. f i = y) xs" for y and f :: "nat \<Rightarrow> outcome" and xs
    by (simp add: number_def filter_map o_def)
  show "out c = concat (map (report opts a) (starts a eid))" "complete c = of_nat (length (out c))"
    "incomplete c = number (\<lambda>x. x = Incomplete) os" "non_rt c = number (\<lambda>x. x = Non_rt) os"
    "avoided c = number (\<lambda>x. x = Avoided) os" "skipped c = of_nat (skip_to_end a eid)"
    using * unfolding fold_show_csv assms(2) n by (simp_all add: core_def csv_init_def)
qed

text \<open>Every start record is accounted for by exactly one outcome.\<close>

lemma reports_length:
  "of_nat (length (concat (map (report opts a) xs))) =
     number (\<lambda>i. \<exists>j t. outcome opts a i = Reported j t) xs"
  by (induction xs) (auto simp: report_def split: outcome.splits)

lemma outcomes_partition:
  "of_nat (length xs) =
     number (\<lambda>i. \<exists>j t. outcome opts a i = Reported j t) xs +
     number (\<lambda>i. outcome opts a i = Incomplete) xs + number (\<lambda>i. outcome opts a i = Non_rt) xs +
     number (\<lambda>i. outcome opts a i = Avoided) xs + number (\<lambda>i. outcome opts a i = Disturbed) xs"
proof (induction xs)
  case (Cons i xs)
  then show ?case by (cases "outcome opts a i") auto
qed simp

section \<open>What is reported\<close>

lemma elapsed_less: "elapsed a i j < 2 ^ 48"
  using unsigned_less [where 'a = nat, of "ts_timestamp (a ! j)"] by (simp add: elapsed_def)

text \<open>Matching by CPU: the pair, and the search that an interrupt has ended.\<close>

definition cpu_pair :: "csv_opts \<Rightarrow> timestamp list \<Rightarrow> nat \<Rightarrow> nat \<Rightarrow> bool" where
  "cpu_pair opts a i j \<longleftrightarrow>
     cpu_match opts a (ts_cpu (a ! i)) (ev (a ! i) + 1) (ev (a ! i)) i j \<and>
     ts_timestamp (a ! i) < ts_timestamp (a ! j)"

definition cpu_disturbed :: "csv_opts \<Rightarrow> timestamp list \<Rightarrow> nat \<Rightarrow> bool" where
  "cpu_disturbed opts a i \<longleftrightarrow> cpu_cut opts a (ts_cpu (a ! i)) (ev (a ! i) + 1) (ev (a ! i)) i"

lemma eid_search_result:
  "\<exists>r. eid_search opts a i = (r, cpu_disturbed opts a i) \<and> (\<forall>j. r = Some j \<longleftrightarrow> cpu_pair opts a i j)"
proof -
  obtain r fl c' where s: "find_second_ts opts a i csv_init = (r, fl, c')" by (cases "find_second_ts opts a i csv_init")
  have fl: "fl \<longleftrightarrow> cpu_disturbed opts a i"
    unfolding cpu_disturbed_def by (rule find_second_ts_cut [OF s])
  have "cpu_match opts a (ts_cpu (a ! i)) (ev (a ! i) + 1) (ev (a ! i)) i j \<longleftrightarrow> r = Some j \<and> \<not> fl" for j
    unfolding find_second_ts_Some [of opts a i csv_init j, symmetric] s by auto
  moreover have "\<not> fl" if "r = Some j" for j
    using find_second_ts_flag [of opts a i csv_init j fl c'] s that by simp
  ultimately have "cpu_pair opts a i j \<longleftrightarrow> r = Some j \<and> ts_timestamp (a ! i) < ts_timestamp (a ! j)" for j
    by (auto simp: cpu_pair_def)
  then show ?thesis
    unfolding eid_search_def s prod.case fl by (cases r) auto
qed

text \<open>
  Matching by PID: the time \<open>t\<close> in which the task executes and the time \<open>s\<close> in which it is
  suspended, for the end record \<open>j\<close>.
\<close>

definition locking :: "csv_opts \<Rightarrow> timestamp list \<Rightarrow> nat \<Rightarrow> bool" where
  "locking opts a i \<longleftrightarrow> ev (a ! i) \<ge> SUSPENSION_RANGE \<and> max_interleaved_skipped opts = 0"

definition pid_pair :: "csv_opts \<Rightarrow> timestamp list \<Rightarrow> nat \<Rightarrow> nat \<Rightarrow> nat \<Rightarrow> nat \<Rightarrow> bool" where
  "pid_pair opts a i j t s \<longleftrightarrow>
     (if locking opts a i then exec_path opts a (ev (a ! i) + 1) i j t s
      else pid_match opts a i (ev (a ! i) + 1) 0 True j \<and>
        ts_timestamp (a ! i) < ts_timestamp (a ! j) \<and> t = elapsed a i j \<and> s = 0)"

definition pid_disturbed :: "csv_opts \<Rightarrow> timestamp list \<Rightarrow> nat \<Rightarrow> bool" where
  "pid_disturbed opts a i \<longleftrightarrow>
     (if locking opts a i then exec_cut opts a (ev (a ! i) + 1) i
      else pid_cut opts a i (ev (a ! i) + 1) 0)"

lemma pid_pair_total: "pid_pair opts a i j t s \<Longrightarrow> pid_reach a i j \<and> t + s = elapsed a i j"
  unfolding pid_pair_def
  by (cases "locking opts a i") (auto dest: exec_path_total pid_match_reach)

lemma pid_search_result:
  "\<exists>r tot. pid_search opts a i = (r, tot, pid_disturbed opts a i) \<and>
     (\<forall>j. r = Some j \<longleftrightarrow> (\<exists>t s. pid_pair opts a i j t s)) \<and>
     (\<forall>j t s. pid_pair opts a i j t s \<longrightarrow> tot = of_nat t)"
proof (cases "locking opts a i")
  case True
  note L = True
  from accumulate_result [of opts a i "ev (a ! i) + 1" csv_init] obtain r tot fl c' where
    acc: "accumulate_exec_time opts a i (ev (a ! i) + 1) csv_init = (r, tot, fl, c')"
    and r: "\<forall>j. r = Some j \<longleftrightarrow> (\<exists>t s. exec_path opts a (ev (a ! i) + 1) i j t s)"
    and tot: "\<forall>j t s. exec_path opts a (ev (a ! i) + 1) i j t s \<longrightarrow> tot = of_nat t"
    and fl: "fl \<longleftrightarrow> exec_cut opts a (ev (a ! i) + 1) i"
    by (elim exE conjE)
  have "pid_search opts a i = (r, tot, pid_disturbed opts a i)"
    using L acc fl by (simp add: pid_search_def locking_def pid_disturbed_def)
  moreover have "pid_pair opts a i j t s \<longleftrightarrow> exec_path opts a (ev (a ! i) + 1) i j t s" for j t s
    using L by (simp add: pid_pair_def)
  ultimately show ?thesis using r tot by (intro exI [of _ r] exI [of _ tot]) presburger
next
  case False
  obtain r fl c' where n: "next_pid opts a i (ev (a ! i) + 1) 0 True csv_init = (r, fl, c')"
    "\<And>j. pid_match opts a i (ev (a ! i) + 1) 0 True j \<longleftrightarrow> r = Some j"
    "fl \<longleftrightarrow> pid_cut opts a i (ev (a ! i) + 1) 0"
    using next_pid_result [of opts a i "ev (a ! i) + 1" 0 True csv_init] by auto
  have pair: "pid_pair opts a i j t s \<longleftrightarrow>
      r = Some j \<and> ts_timestamp (a ! i) < ts_timestamp (a ! j) \<and> t = elapsed a i j \<and> s = 0" for j t s
    unfolding pid_pair_def if_not_P [OF False] n(2) ..
  have "pid_search opts a i = (case r of
      Some j \<Rightarrow> if ts_timestamp (a ! i) < ts_timestamp (a ! j)
        then (Some j, ts64 (a ! j) - ts64 (a ! i), pid_disturbed opts a i) else (None, 0, pid_disturbed opts a i)
    | None \<Rightarrow> (None, 0, pid_disturbed opts a i))"
    unfolding pid_search_def locking_def [symmetric] if_not_P [OF False] n(1) prod.case pid_disturbed_def n(3) ..
  then show ?thesis
    by (cases r) (auto simp: pair ts64_diff)
qed

lemma outcome_by_event:
  assumes "find_by_pid opts = 0" and "\<not> cpu_excluded opts (a ! i)"
  shows "cpu_pair opts a i j \<Longrightarrow> outcome opts a i =
      (if task_type (a ! i) = TSK_RT \<or> task_type (a ! j) = TSK_RT \<or> want_best_effort opts
       then Reported j (of_nat (elapsed a i j)) else Non_rt)"
    and "\<nexists>j. cpu_pair opts a i j \<Longrightarrow>
      outcome opts a i = (if cpu_disturbed opts a i then Disturbed else Incomplete)"
proof -
  obtain r where r: "eid_search opts a i = (r, cpu_disturbed opts a i)"
    "\<And>j. r = Some j \<longleftrightarrow> cpu_pair opts a i j"
    using eid_search_result by blast
  have out: "outcome opts a i = (case r of
      Some j \<Rightarrow> if task_type (a ! i) \<noteq> TSK_RT \<and> task_type (a ! j) \<noteq> TSK_RT \<and> \<not> want_best_effort opts
        then Non_rt else Reported j (ts64 (a ! j) - ts64 (a ! i))
    | None \<Rightarrow> if cpu_disturbed opts a i then Disturbed else Incomplete)"
    using assms r(1) by (simp add: outcome_def split: option.splits)
  show "outcome opts a i =
      (if task_type (a ! i) = TSK_RT \<or> task_type (a ! j) = TSK_RT \<or> want_best_effort opts
       then Reported j (of_nat (elapsed a i j)) else Non_rt)" if "cpu_pair opts a i j"
  proof -
    have "ts_timestamp (a ! i) \<le> ts_timestamp (a ! j)" using that by (auto simp: cpu_pair_def)
    then show ?thesis using r(2) [of j] that by (simp add: out ts64_diff)
  qed
  show "outcome opts a i = (if cpu_disturbed opts a i then Disturbed else Incomplete)"
    if "\<nexists>j. cpu_pair opts a i j"
    using that r(2) by (cases r) (auto simp: out)
qed

lemma outcome_by_pid:
  assumes "find_by_pid opts \<noteq> 0" and "\<not> cpu_excluded opts (a ! i)"
  shows "pid_pair opts a i j t s \<Longrightarrow> outcome opts a i = Reported j (of_nat t)"
    and "\<nexists>j t s. pid_pair opts a i j t s \<Longrightarrow>
      outcome opts a i = (if pid_disturbed opts a i then Disturbed else Incomplete)"
proof -
  from pid_search_result [of opts a i] obtain r tot where
    run: "pid_search opts a i = (r, tot, pid_disturbed opts a i)"
    and r: "\<forall>j. r = Some j \<longleftrightarrow> (\<exists>t s. pid_pair opts a i j t s)"
    and tot: "\<forall>j t s. pid_pair opts a i j t s \<longrightarrow> tot = of_nat t"
    by (elim exE conjE)
  have out: "outcome opts a i = (case r of
      Some j \<Rightarrow> Reported j tot | None \<Rightarrow> if pid_disturbed opts a i then Disturbed else Incomplete)"
    using assms run by (simp add: outcome_def split: option.splits)
  show "outcome opts a i = Reported j (of_nat t)" if "pid_pair opts a i j t s"
  proof -
    have "r = Some j" "tot = of_nat t" using r tot that by blast+
    then show ?thesis by (simp add: out)
  qed
  show "outcome opts a i = (if pid_disturbed opts a i then Disturbed else Incomplete)"
    if "\<nexists>j t s. pid_pair opts a i j t s"
  proof (cases r)
    case None
    then show ?thesis by (simp add: out)
  next
    case (Some j)
    with r that show ?thesis by blast
  qed
qed

lemma outcome_excluded: "cpu_excluded opts (a ! i) \<Longrightarrow> outcome opts a i = Avoided"
  by (simp add: outcome_def)


section \<open>Skipping, single records, listing\<close>

lemma skip_to_end_eq: "skip_to_end a eid = length (takeWhile (\<lambda>r. ev r \<noteq> eid + 1) a)"
  by (induction a) auto

definition single_hits :: "csv_opts \<Rightarrow> timestamp list \<Rightarrow> nat \<Rightarrow> timestamp list" where
  "single_hits opts a eid =
     filter (\<lambda>r. ev r = eid \<and> \<not> cpu_excluded opts r \<and> task_type r = TSK_RT) a"

lemma show_single_records_out:
  "out (show_single_records opts a eid c) = out c @ map (single_fmt opts) (single_hits opts a eid) \<and>
   complete (show_single_records opts a eid c) = complete c + of_nat (length (single_hits opts a eid)) \<and>
   avoided (show_single_records opts a eid c) =
     avoided c + number (\<lambda>r. ev r = eid \<and> cpu_excluded opts r) a \<and>
   non_rt (show_single_records opts a eid c) =
     non_rt c + number (\<lambda>r. ev r = eid \<and> \<not> cpu_excluded opts r \<and> task_type r \<noteq> TSK_RT) a \<and>
   skipped (show_single_records opts a eid c) = skipped c"
  by (induction a arbitrary: c) (auto simp: single_hits_def show_single_def emit_def)

text \<open>The identifiers of a trace in the order of their first occurrences.\<close>

definition first_seen :: "'a list \<Rightarrow> 'a list" where
  "first_seen xs = rev (remdups (rev xs))"

lemma remdups_snoc_filter: "filter (\<lambda>x. x \<noteq> y) (remdups xs) @ [y] = remdups (xs @ [y])"
  by (induction xs) auto

lemma first_seen_Cons: "first_seen (x # xs) = x # filter (\<lambda>y. y \<noteq> x) (first_seen xs)"
  by (simp add: first_seen_def flip: remdups_snoc_filter) (simp add: rev_filter)

lemma ev_bound: "ev r < 256"
  by (simp add: ev_def)

lemma list_ids_loop_eq:
  "length seen = 256 \<Longrightarrow>
     list_ids_loop seen a =
       map (\<lambda>e. Text (id_line e)) (filter (\<lambda>e. \<not> seen ! unat e) (first_seen (map ts_event a)))"
proof (induction a arbitrary: seen)
  case (Cons r rs)
  have "filter (\<lambda>e. \<not> seen[ev r := True] ! unat e) es =
      filter (\<lambda>e. \<not> seen ! unat e) (filter (\<lambda>e. e \<noteq> ts_event r) es)" for es
    using ev_bound [of r] Cons.prems
    by (induction es) (auto simp: nth_list_update ev_def word_unat_eq_iff)
  moreover have "filter (\<lambda>x. x \<noteq> ts_event r \<and> \<not> seen ! unat x) es = filter (\<lambda>x. \<not> seen ! unat x) es"
    if "seen ! ev r" for es
    using that by (intro filter_cong) (auto simp: ev_def)
  ultimately show ?case
    using Cons by (auto simp: first_seen_Cons ev_def)
qed (simp add: first_seen_def)

lemma list_ids_eq: "list_ids a = map (\<lambda>e. Text (id_line e)) (first_seen (map ts_event a))"
proof -
  have "\<not> replicate 256 False ! unat (e :: u8)" for e by (simp add: nth_replicate)
  then show ?thesis by (simp add: list_ids_def list_ids_loop_eq)
qed

lemma id_line_str2event:
  "\<exists>name. id_line e = name @ newline \<and> str2event name = (1, Some (ucast e))"
proof (cases "event2str (ucast e)")
  case None
  have "unat e < 2 ^ 32" using word_unat_bound8 [of e] by (simp add: less_trans [of _ 256])
  then have "str2event (dec (unat e)) = (1, Some (of_nat (unat e)))" by (rule str2event_dec)
  then show ?thesis using None by (simp add: id_line_def)
next
  case (Some name)
  then show ?thesis using event2str_str2event by (simp add: id_line_def)
qed

end
