(* ===== verification/Ftdump.thy ===== *)
theory Ftdump
  imports Ts_File C_Format
begin

text \<open>
  \<^verbatim>\<open>src/ftdump.c\<close>: print the records of a Feather-Trace file, with a warning wherever a
  sequence number is not the successor of the one before.
\<close>

definition pad_zero :: "nat \<Rightarrow> string \<Rightarrow> string" where
  "pad_zero w s = replicate (w - length s) (CHR ''0'') @ s"

definition warning :: string where
  "warning = ''==== non-consecutive sequence number ===='' @ [CHR 0x0A]"

definition dump_record :: "timestamp \<Rightarrow> string" where
  "dump_record x =
     (let rest = ''  timestamp:'' @ dec (unat (ts_timestamp x)) @ ''  cpu:'' @ dec (unat (ts_cpu x)) @
        ''  type:'' @ pad_right 8 (task_type2str (int (task_type x))) @ '' irq:'' @ dec (unat (ts_irq_flag x)) @
        '' irqc:'' @ pad_zero 2 (dec (unat (ts_irq_count x)))
      in case event2str (of_nat (ev x)) of
           Some name \<Rightarrow>
             pad_right 20 name @ '' seq:'' @ dec (unat (ts_seq_no x)) @ ''  pid:'' @ dec (unat (ts_pid x)) @
             rest @ '' '' @ [CHR 0x0A]
         | None \<Rightarrow>
             pad_left 16 ''event'' @ '':'' @ pad_left 3 (dec (ev x)) @ '' seq:'' @ dec (unat (ts_seq_no x)) @
             '' pid:'' @ dec (unat (ts_pid x)) @ rest @ [CHR 0x0A])"

text \<open>The loop: the records that are left, and the number of the one before.\<close>

fun dump_loop :: "u32 \<Rightarrow> timestamp list \<Rightarrow> string" where
  "dump_loop last_seq [] = ''''"
| "dump_loop last_seq (x # ts) =
     (let next_seq = last_seq + 1 in
      (if last_seq \<noteq> 0 \<and> next_seq \<noteq> ts_seq_no x then warning else '''') @
      dump_record x @ dump_loop (ts_seq_no x) ts)"

definition dump :: "timestamp list \<Rightarrow> string" where
  "dump ts = dump_loop 0 ts"

text \<open>The layout of the record as the program prints it.\<close>

definition layout_info :: string where
  "layout_info =
     ''struct timestamp:'' @ [CHR 0x0A] @
     [CHR 0x09] @ '' size              = '' @ pad_left 3 (dec TS_SIZE) @ [CHR 0x0A] @
     [CHR 0x09] @ '' offset(seq_no)    = '' @ pad_left 3 (dec 8) @ [CHR 0x0A] @
     [CHR 0x09] @ '' offset(cpu)       = '' @ pad_left 3 (dec 12) @ [CHR 0x0A] @
     [CHR 0x09] @ '' offset(event)     = '' @ pad_left 3 (dec 13) @ [CHR 0x0A]"

datatype ftdump_error = Wrong_usage | Could_not_map_file | Beyond_mapping

text \<open>The result is the output and the error the program ends with, if any.\<close>

definition ftdump_main :: "os \<Rightarrow> string list \<Rightarrow> string \<times> ftdump_error option" where
  "ftdump_main os args =
     (case args of
        [f] \<Rightarrow>
          (let r = map_file os f in
           if map_error r \<noteq> 0 then (layout_info, Some Could_not_map_file)
           else case mapped_records r of
             Some ts \<Rightarrow> (layout_info @ dump ts, None)
           | None \<Rightarrow> (layout_info, Some Beyond_mapping))
      | _ \<Rightarrow> (layout_info, Some Wrong_usage))"

lemma ftdump_prints:
  assumes "faithful_os os contents file_of" and "contents f = Some bs" and "map_error (map_file os f) = 0"
  shows "ftdump_main os [f] = (layout_info @ dump (ts_records bs), None)"
  using mapped_records_ok(1) [OF assms(1,2), of False] assms(3) by (simp add: ftdump_main_def map_file_def)

section \<open>Warnings\<close>

text \<open>No warning is printed exactly when each number follows a zero or its predecessor.\<close>

definition gap_at :: "timestamp list \<Rightarrow> nat \<Rightarrow> bool" where
  "gap_at ts i \<longleftrightarrow> 0 < i \<and> ts_seq_no (ts ! (i - 1)) \<noteq> 0 \<and>
     ts_seq_no (ts ! i) \<noteq> ts_seq_no (ts ! (i - 1)) + 1"

definition dump_line :: "timestamp list \<Rightarrow> nat \<Rightarrow> string" where
  "dump_line ts i = (if gap_at ts i then warning else '''') @ dump_record (ts ! i)"

lemma dump_loop_lines:
  "dump_loop (ts_seq_no x) ts = concat (map (dump_line (x # ts)) [1..<Suc (length ts)])"
proof (induction ts arbitrary: x)
  case (Cons y ts)
  have shift: "dump_line (x # y # ts) (Suc i) = dump_line (y # ts) i" if "i \<noteq> 0" for i
    using that by (auto simp: dump_line_def gap_at_def nth_Cons')
  have "map (dump_line (x # y # ts)) [Suc 1..<Suc (Suc (length ts))] = map (dump_line (y # ts)) [1..<Suc (length ts)]"
    unfolding map_Suc_upt [symmetric] map_map by (rule map_cong [OF refl]) (auto simp: shift simp del: upt_Suc)
  moreover have "dump_line (x # y # ts) 1 = (if ts_seq_no x \<noteq> 0 \<and> ts_seq_no x + 1 \<noteq> ts_seq_no y then warning else '''') @ dump_record y"
    by (auto simp: dump_line_def gap_at_def)
  moreover have "[1..<Suc (length (y # ts))] = 1 # [Suc 1..<Suc (Suc (length ts))]"
    by (simp add: upt_conv_Cons del: upt_Suc)
  ultimately show ?case using Cons [of y] by (simp del: upt_Suc)
qed simp

lemma dump_lines: "dump ts = concat (map (dump_line ts) [0..<length ts])"
proof (cases ts)
  case (Cons x xs)
  have "[0..<length (x # xs)] = 0 # [1..<Suc (length xs)]" by (simp add: upt_conv_Cons del: upt_Suc)
  moreover have "dump_line (x # xs) 0 = dump_record x" by (simp add: dump_line_def gap_at_def)
  ultimately show ?thesis unfolding Cons by (simp add: dump_def dump_loop_lines del: upt_Suc)
qed (simp add: dump_def)

text \<open>A sorted trace without holes is printed without a warning.\<close>

lemma dump_consecutive:
  assumes "map ts_seq_no ts = map (\<lambda>i. s0 + of_nat i) [0..<length ts]"
  shows "dump ts = concat (map dump_record ts)"
proof -
  have at: "ts_seq_no (ts ! i) = s0 + of_nat i" if "i < length ts" for i
    using arg_cong [OF assms, of "\<lambda>xs. xs ! i"] that by simp
  have "\<not> gap_at ts i" if "i < length ts" for i
    using at [OF that] at [of "i - 1"] that by (cases i) (auto simp: gap_at_def)
  then have "map (dump_line ts) [0..<length ts] = map (\<lambda>i. dump_record (ts ! i)) [0..<length ts]"
    by (intro map_cong [OF refl]) (simp add: dump_line_def)
  also have "\<dots> = map dump_record ts" by (rule nth_equalityI) simp_all
  finally show ?thesis unfolding dump_lines by simp
qed

end
