(* ===== verification/Ftcat.thy ===== *)
theory Ftcat
  imports Timestamp "HOL-Library.Monad_Syntax"
begin

text \<open>
  \<^verbatim>\<open>src/ftcat.c\<close>: enable events at a Feather-Trace device and copy what it delivers to the
  standard output.  The device is a parameter: what its \<^verbatim>\<open>ioctl\<close> and \<^verbatim>\<open>read\<close> return may
  depend on all earlier requests.  Messages are left out.  \<open>None\<close> stands for a loop that
  does not end or for an access beyond the array \<open>ids\<close>.
\<close>

section \<open>State\<close>

definition MAX_EVENTS :: nat where "MAX_EVENTS = 128"
definition ENABLE_CMD :: nat where "ENABLE_CMD = 0x0"
definition DISABLE_CMD :: nat where "DISABLE_CMD = 0x1"
definition CALIBRATE_CMD :: nat where "CALIBRATE_CMD = 0x1410"
definition BUF_SIZE :: nat where "BUF_SIZE = 4096"

type_synonym request = "nat \<times> u32"

record device =
  dv_ioctl :: "request list \<Rightarrow> request \<Rightarrow> int"
  dv_read :: "request list \<Rightarrow> nat \<Rightarrow> int \<times> u8 list"

text \<open>
  The static variables, and what happens outside the program: the requests made so far, the
  number of reads, the bytes written to the standard output, the files that got the PID.
\<close>

record ftcat_state =
  fc_ids :: "u32 list"
  event_count :: nat
  total_bytes :: u64
  requests :: "request list"
  n_reads :: nat
  stdout_bytes :: "u8 list"
  pinged :: "string list"

definition ftcat_init :: ftcat_state where
  "ftcat_init = \<lparr>fc_ids = replicate MAX_EVENTS 0, event_count = 0, total_bytes = 0, requests = [],
     n_reads = 0, stdout_bytes = [], pinged = []\<rparr>"

definition ioctl :: "device \<Rightarrow> nat \<Rightarrow> u32 \<Rightarrow> ftcat_state \<Rightarrow> int \<times> ftcat_state" where
  "ioctl dv cmd arg s =
     (dv_ioctl dv (requests s) (cmd, arg), s\<lparr>requests := requests s @ [(cmd, arg)]\<rparr>)"

section \<open>Events\<close>

text \<open>\<open>n\<close> identifiers are left, from index \<open>i\<close>.\<close>

fun disable_loop :: "device \<Rightarrow> nat \<Rightarrow> nat \<Rightarrow> nat \<Rightarrow> ftcat_state \<Rightarrow> nat \<times> ftcat_state" where
  "disable_loop dv 0 i disabled s = (disabled, s)"
| "disable_loop dv (Suc n) i disabled s =
     (case ioctl dv DISABLE_CMD (fc_ids s ! i) s of (rc, s1) \<Rightarrow>
        disable_loop dv n (Suc i) (if rc < 0 then disabled else disabled + 1) s1)"

definition disable_all :: "device \<Rightarrow> ftcat_state \<Rightarrow> bool \<times> ftcat_state" where
  "disable_all dv s =
     (case disable_loop dv (event_count s) 0 0 s of (disabled, s1) \<Rightarrow> (disabled = event_count s, s1))"

text \<open>The signal handler.\<close>

definition shutdown :: "device \<Rightarrow> ftcat_state \<Rightarrow> ftcat_state" where
  "shutdown dv s = snd (disable_all dv s)"

text \<open>
  \<open>enable_event\<close> in the steps in which the signal handler can see it: the identifier is
  stored behind those in use, then it is counted, then the request is made.  \<open>i\<close> is the
  pointer \<^verbatim>\<open>id\<close>, which is computed before.
\<close>

definition store_event :: "string \<Rightarrow> ftcat_state \<Rightarrow> (bool \<times> ftcat_state) option" where
  "store_event str s =
     (case str2event str of (rc, v) \<Rightarrow>
        if rc = 0 then Some (False, s)
        else if MAX_EVENTS \<le> event_count s then None
        else Some (True, case v of None \<Rightarrow> s | Some x \<Rightarrow> s\<lparr>fc_ids := (fc_ids s)[event_count s := x]\<rparr>))"

definition count_event :: "ftcat_state \<Rightarrow> ftcat_state" where
  "count_event s = s\<lparr>event_count := event_count s + 1\<rparr>"

definition request_event :: "device \<Rightarrow> nat \<Rightarrow> ftcat_state \<Rightarrow> bool \<times> ftcat_state" where
  "request_event dv i s = (case ioctl dv ENABLE_CMD (fc_ids s ! i) s of (err, s1) \<Rightarrow> (err = 0, s1))"

definition enable_event :: "device \<Rightarrow> string \<Rightarrow> ftcat_state \<Rightarrow> (bool \<times> ftcat_state) option" where
  "enable_event dv str s =
     (let i = event_count s in
      case store_event str s of
        None \<Rightarrow> None
      | Some (False, s1) \<Rightarrow> Some (False, s1)
      | Some (True, s1) \<Rightarrow> Some (request_event dv i (count_event s1)))"

fun enable_loop :: "device \<Rightarrow> string list \<Rightarrow> ftcat_state \<Rightarrow> (bool \<times> ftcat_state) option" where
  "enable_loop dv [] s = Some (True, s)"
| "enable_loop dv (arg # args) s =
     (case enable_event dv arg s of
        None \<Rightarrow> None
      | Some (ok, s1) \<Rightarrow> if \<not> ok then Some (False, s1) else enable_loop dv args s1)"

section \<open>Calibration\<close>

text \<open>\<open>migrate\<close> is \<^verbatim>\<open>be_migrate_to_cpu\<close> of liblitmus; a CPU that cannot be reached is skipped.\<close>

fun calibrate_loop ::
    "device \<Rightarrow> (nat \<Rightarrow> int) \<Rightarrow> bool \<Rightarrow> nat \<Rightarrow> nat \<Rightarrow> ftcat_state \<Rightarrow> bool \<times> ftcat_state" where
  "calibrate_loop dv migrate verbose 0 cpu s = (True, s)"
| "calibrate_loop dv migrate verbose (Suc n) cpu s =
     (if migrate cpu = 0 then
        (case ioctl dv CALIBRATE_CMD (if verbose then 1 else 0) s of (err, s1) \<Rightarrow>
           if err \<noteq> 0 then (False, s1) else calibrate_loop dv migrate verbose n (Suc cpu) s1)
      else calibrate_loop dv migrate verbose n (Suc cpu) s)"

definition calibrate_cycle_offsets ::
    "device \<Rightarrow> (nat \<Rightarrow> int) \<Rightarrow> int \<Rightarrow> bool \<Rightarrow> ftcat_state \<Rightarrow> bool \<times> ftcat_state" where
  "calibrate_cycle_offsets dv migrate max_cpus verbose s =
     calibrate_loop dv migrate verbose (nat max_cpus) 0 s"

section \<open>Copying\<close>

text \<open>One \<^verbatim>\<open>read\<close>: the number of bytes, the buffer, and the state.\<close>

definition read_device :: "device \<Rightarrow> ftcat_state \<Rightarrow> int \<times> u8 list \<times> ftcat_state" where
  "read_device dv s =
     (case dv_read dv (requests s) (n_reads s) of (rd, buf) \<Rightarrow> (rd, buf, s\<lparr>n_reads := n_reads s + 1\<rparr>))"

text \<open>
  One round of the loop: what was read is counted, then written, then the limit is tested.
  The result tells whether the loop goes on.
\<close>

definition count_chunk :: "device \<Rightarrow> ftcat_state \<Rightarrow> u8 list option \<times> ftcat_state" where
  "count_chunk dv s =
     (case read_device dv s of (rd, buf, s1) \<Rightarrow>
        if rd > 0 then (Some (take (nat rd) buf), s1\<lparr>total_bytes := total_bytes s1 + of_int rd\<rparr>)
        else (None, s1))"

definition write_chunk :: "u8 list \<Rightarrow> ftcat_state \<Rightarrow> ftcat_state" where
  "write_chunk bs s = s\<lparr>stdout_bytes := stdout_bytes s @ bs\<rparr>"

definition at_limit :: "u64 \<Rightarrow> ftcat_state \<Rightarrow> bool" where
  "at_limit stop_after_bytes s \<longleftrightarrow> stop_after_bytes \<noteq> 0 \<and> total_bytes s \<ge> stop_after_bytes"

definition copy_chunk :: "device \<Rightarrow> u64 \<Rightarrow> ftcat_state \<Rightarrow> bool \<times> ftcat_state" where
  "copy_chunk dv stop_after_bytes s =
     (case count_chunk dv s of
        (None, s1) \<Rightarrow> (False, s1)
      | (Some bs, s1) \<Rightarrow>
          let s2 = write_chunk bs s1 in
          if at_limit stop_after_bytes s2 then (False, s2) else (True, s2))"

partial_function (option) cat2stdout :: "device \<Rightarrow> u64 \<Rightarrow> ftcat_state \<Rightarrow> ftcat_state option" where
  "cat2stdout dv stop_after_bytes s =
     (case copy_chunk dv stop_after_bytes s of (again, s1) \<Rightarrow>
        if again then cat2stdout dv stop_after_bytes s1 else Some s1)"

definition ping :: "string \<Rightarrow> ftcat_state \<Rightarrow> ftcat_state" where
  "ping fname s = s\<lparr>pinged := pinged s @ [fname]\<rparr>"

section \<open>The program\<close>

record ftcat_opts =
  stop_after :: u64
  want_calibrate :: bool
  fc_verbose :: bool
  ping_file :: "string option"

definition ftcat_defaults :: ftcat_opts where
  "ftcat_defaults = \<lparr>stop_after = 0, want_calibrate = False, fc_verbose = False, ping_file = None\<rparr>"

text \<open>\<open>None\<close> stands for the usage message.\<close>

fun ftcat_options :: "(string \<Rightarrow> int) \<Rightarrow> ftcat_opts \<Rightarrow> (char \<times> string) list \<Rightarrow> ftcat_opts option" where
  "ftcat_options atol opts [] = Some opts"
| "ftcat_options atol opts ((opt, optarg) # rest) =
     (if opt = CHR ''s'' then
        (if (of_int (atol optarg) :: u64) = 0 then None
         else ftcat_options atol (opts\<lparr>stop_after := of_int (atol optarg)\<rparr>) rest)
      else if opt = CHR ''c'' then ftcat_options atol (opts\<lparr>want_calibrate := True\<rparr>) rest
      else if opt = CHR ''v'' then ftcat_options atol (opts\<lparr>fc_verbose := True\<rparr>) rest
      else if opt = CHR ''p'' then ftcat_options atol (opts\<lparr>ping_file := Some optarg\<rparr>) rest
      else None)"

text \<open>What the program is given by its environment.\<close>

record environment =
  env_atol :: "string \<Rightarrow> int"
  env_open :: "string \<Rightarrow> device option"
  env_migrate :: "nat \<Rightarrow> int"
  env_cpus :: int

text \<open>The exit code and the final state.\<close>

definition ftcat_main ::
    "environment \<Rightarrow> (char \<times> string) list \<Rightarrow> string list \<Rightarrow> (int \<times> ftcat_state) option" where
  "ftcat_main env args rest =
     (case ftcat_options (env_atol env) ftcat_defaults args of
        None \<Rightarrow> Some (1, ftcat_init)
      | Some opts \<Rightarrow>
          (case rest of
             [] \<Rightarrow> Some (1, ftcat_init)
           | trace_file # events \<Rightarrow>
               (case env_open env trace_file of
                  None \<Rightarrow> Some (1, ftcat_init)
                | Some dv \<Rightarrow>
                    (case (if want_calibrate opts
                           then calibrate_cycle_offsets dv (env_migrate env) (env_cpus env) (fc_verbose opts) ftcat_init
                           else (True, ftcat_init)) of
                       (False, s) \<Rightarrow> Some (3, s)
                     | (True, s) \<Rightarrow>
                         (case enable_loop dv events s of
                            None \<Rightarrow> None
                          | Some (False, s1) \<Rightarrow> Some (2, s1)
                          | Some (True, s1) \<Rightarrow>
                              let s2 = (case ping_file opts of None \<Rightarrow> s1 | Some f \<Rightarrow> ping f s1) in
                              (case cat2stdout dv (stop_after opts) s2 of
                                 None \<Rightarrow> None
                               | Some s3 \<Rightarrow> Some (0, s3)))))))"

end
