(* ===== verification/Ftcat_Correct.thy ===== *)
theory Ftcat_Correct
  imports Ftcat
begin

text \<open>
  What \<^verbatim>\<open>ftcat\<close> guarantees: the events that are asked for are enabled in order, the bytes of
  the device are copied in order and counted, and a limit on the size ends the program.  The
  signal handler may run at any time: the step relation \<open>ftcat_step\<close> lets it start between any
  two accesses of the program to what both use, also while a handler is running.
\<close>

section \<open>Enabling and disabling\<close>

text \<open>The identifier an argument stands for when it is accepted.\<close>

definition event_id :: "string \<Rightarrow> u32 option" where
  "event_id arg = (case str2event arg of (rc, v) \<Rightarrow> if rc = 0 then None else v)"

definition ids_ok :: "ftcat_state \<Rightarrow> bool" where
  "ids_ok s \<longleftrightarrow> event_count s \<le> MAX_EVENTS \<and> length (fc_ids s) = MAX_EVENTS"

definition enabled_ids :: "ftcat_state \<Rightarrow> u32 list" where
  "enabled_ids s = take (event_count s) (fc_ids s)"

lemma enable_event_ok:
  assumes "enable_event dv arg s = Some (ok, s')" and "ids_ok s"
  shows "ids_ok s' \<and>
    (s' = s \<and> \<not> ok \<or>
     (\<exists>x. enabled_ids s' = enabled_ids s @ [x] \<and> requests s' = requests s @ [(ENABLE_CMD, x)] \<and>
        (ok \<longleftrightarrow> dv_ioctl dv (requests s) (ENABLE_CMD, x) = 0) \<and>
        stdout_bytes s' = stdout_bytes s \<and> total_bytes s' = total_bytes s \<and>
        n_reads s' = n_reads s \<and> event_count s' = Suc (event_count s) \<and>
        (event_id arg \<noteq> None \<longrightarrow> event_id arg = Some x)))"
proof -
  obtain rc v where sv: "str2event arg = (rc, v)" by fastforce
  show ?thesis
  proof (cases "rc = 0")
    case True
    then show ?thesis using assms sv by (simp add: enable_event_def store_event_def)
  next
    case False
    let ?i = "event_count s"
    have room: "?i < MAX_EVENTS" using assms(1) False sv by (auto simp: enable_event_def store_event_def split: if_splits)
    define ids where "ids = (case v of None \<Rightarrow> fc_ids s | Some x \<Rightarrow> (fc_ids s)[?i := x])"
    have len: "length ids = MAX_EVENTS" using assms(2) by (simp add: ids_def ids_ok_def split: option.split)
    have "take ?i ids = take ?i (fc_ids s)" by (simp add: ids_def split: option.split)
    then have tk: "take (Suc ?i) ids = enabled_ids s @ [ids ! ?i]"
      using room len by (simp add: take_Suc_conv_app_nth enabled_ids_def)
    have s': "s' = s\<lparr>fc_ids := ids, event_count := Suc ?i, requests := requests s @ [(ENABLE_CMD, ids ! ?i)]\<rparr>"
      and ok: "ok \<longleftrightarrow> dv_ioctl dv (requests s) (ENABLE_CMD, ids ! ?i) = 0"
      using assms(1) False sv room by (auto simp: enable_event_def store_event_def count_event_def request_event_def ids_def ioctl_def Let_def
          split: option.splits)
    have "event_id arg \<noteq> None \<Longrightarrow> event_id arg = Some (ids ! ?i)"
      using sv False room assms(2) by (auto simp: event_id_def ids_def ids_ok_def)
    then show ?thesis using room len tk ok unfolding s' by (auto simp: ids_ok_def enabled_ids_def)
  qed
qed

lemma enable_loop_ok:
  assumes "enable_loop dv args s = Some (True, s')" and "ids_ok s"
  shows "ids_ok s' \<and> (\<exists>xs. length xs = length args \<and> enabled_ids s' = enabled_ids s @ xs \<and>
    requests s' = requests s @ map (Pair ENABLE_CMD) xs \<and> stdout_bytes s' = stdout_bytes s \<and>
    total_bytes s' = total_bytes s \<and> n_reads s' = n_reads s \<and>
    (\<forall>i < length args. event_id (args ! i) \<noteq> None \<longrightarrow> event_id (args ! i) = Some (xs ! i)))"
  using assms
proof (induction args arbitrary: s)
  case (Cons arg args)
  obtain s1 where e: "enable_event dv arg s = Some (True, s1)" and l: "enable_loop dv args s1 = Some (True, s')"
    using Cons.prems(1) by (auto split: option.splits prod.splits if_splits)
  obtain x where x: "ids_ok s1" "enabled_ids s1 = enabled_ids s @ [x]" "requests s1 = requests s @ [(ENABLE_CMD, x)]"
    "stdout_bytes s1 = stdout_bytes s" "total_bytes s1 = total_bytes s" "n_reads s1 = n_reads s"
    "event_id arg \<noteq> None \<longrightarrow> event_id arg = Some x"
    using enable_event_ok [OF e Cons.prems(2)] by blast
  obtain xs where xs: "length xs = length args" "ids_ok s'" "enabled_ids s' = enabled_ids s1 @ xs"
    "requests s' = requests s1 @ map (Pair ENABLE_CMD) xs" "stdout_bytes s' = stdout_bytes s1"
    "total_bytes s' = total_bytes s1" "n_reads s' = n_reads s1"
    "\<forall>i < length args. event_id (args ! i) \<noteq> None \<longrightarrow> event_id (args ! i) = Some (xs ! i)"
    using Cons.IH [OF l x(1)] by blast
  have "\<forall>i < length (arg # args). event_id ((arg # args) ! i) \<noteq> None \<longrightarrow>
      event_id ((arg # args) ! i) = Some ((x # xs) ! i)"
    using x(7) xs(8) by (auto simp: nth_Cons split: nat.split)
  then show ?case using x(2-6) xs(1-7) by (intro conjI exI [of _ "x # xs"]) simp_all
qed simp

text \<open>More events than the array has places are not refused.\<close>

lemma enable_event_overflow:
  "event_id arg \<noteq> None \<Longrightarrow> MAX_EVENTS \<le> event_count s \<Longrightarrow> enable_event dv arg s = None"
  by (auto simp: event_id_def enable_event_def store_event_def split: prod.splits if_splits)

lemma disable_loop_requests:
  assumes "i + n \<le> length (fc_ids s)"
  shows "snd (disable_loop dv n i d s) =
    s\<lparr>requests := requests s @ map (Pair DISABLE_CMD) (take n (drop i (fc_ids s)))\<rparr>"
  using assms
proof (induction n arbitrary: i d s)
  case (Suc n)
  then have "take (Suc n) (drop i (fc_ids s)) = fc_ids s ! i # take n (drop (Suc i) (fc_ids s))"
    by (simp add: Cons_nth_drop_Suc [symmetric])
  then show ?case using Suc by (simp add: ioctl_def)
qed simp

lemma shutdown_requests:
  assumes "ids_ok s"
  shows "shutdown dv s = s\<lparr>requests := requests s @ map (Pair DISABLE_CMD) (enabled_ids s)\<rparr>"
proof -
  have "shutdown dv s = snd (disable_loop dv (event_count s) 0 0 s)"
    by (simp add: shutdown_def disable_all_def split: prod.split)
  also have "\<dots> = s\<lparr>requests := requests s @ map (Pair DISABLE_CMD) (enabled_ids s)\<rparr>"
    using assms by (subst disable_loop_requests) (simp_all add: enabled_ids_def ids_ok_def)
  finally show ?thesis .
qed

section \<open>Copying\<close>

text \<open>What the documentation of \<^verbatim>\<open>read\<close> says of the number of bytes.\<close>

definition reads_ok :: "device \<Rightarrow> bool" where
  "reads_ok dv \<longleftrightarrow> (\<forall>h n. fst (dv_read dv h n) \<le> int BUF_SIZE \<and>
     nat (fst (dv_read dv h n)) \<le> length (snd (dv_read dv h n)))"

definition chunk :: "device \<Rightarrow> request list \<Rightarrow> nat \<Rightarrow> u8 list" where
  "chunk dv h n = take (nat (fst (dv_read dv h n))) (snd (dv_read dv h n))"

lemma copy_chunk_eq:
  "copy_chunk dv stop s =
     (let rd = fst (dv_read dv (requests s) (n_reads s));
          s1 = s\<lparr>n_reads := n_reads s + 1, total_bytes := total_bytes s + of_int (max 0 rd),
                stdout_bytes := stdout_bytes s @ chunk dv (requests s) (n_reads s)\<rparr>
      in (rd > 0 \<and> (stop = 0 \<or> total_bytes s1 < stop), s1))"
  by (auto simp: copy_chunk_def count_chunk_def write_chunk_def at_limit_def read_device_def chunk_def Let_def not_less
      split: prod.splits)

lemma chunk_length:
  assumes "reads_ok dv"
  shows "length (chunk dv h n) = nat (fst (dv_read dv h n)) \<and> length (chunk dv h n) \<le> BUF_SIZE"
proof -
  have "fst (dv_read dv h n) \<le> int BUF_SIZE" "nat (fst (dv_read dv h n)) \<le> length (snd (dv_read dv h n))"
    using assms by (auto simp: reads_ok_def)
  then show ?thesis unfolding chunk_def by simp
qed

text \<open>The count is the length of the output.\<close>

definition counted :: "ftcat_state \<Rightarrow> bool" where
  "counted s \<longleftrightarrow> total_bytes s = of_nat (length (stdout_bytes s))"

lemma copy_chunk_counted:
  assumes "reads_ok dv" and "counted s"
  shows "counted (snd (copy_chunk dv stop s))"
proof -
  have "of_int (max 0 (fst (dv_read dv (requests s) (n_reads s)))) =
      (of_nat (length (chunk dv (requests s) (n_reads s))) :: u64)"
    using chunk_length [OF assms(1)] by (simp add: max_def)
  then show ?thesis using assms(2) by (simp add: copy_chunk_eq counted_def Let_def)
qed

text \<open>With a limit, the loop returns, with less than one buffer more than asked for.\<close>

lemma cat2stdout_returns:
  assumes rd: "reads_ok dv" and stop: "stop \<noteq> 0" "unat stop + BUF_SIZE \<le> 2 ^ 64"
    and "counted s" and "length (stdout_bytes s) < unat stop"
  shows "\<exists>s'. cat2stdout dv stop s = Some s' \<and> counted s' \<and>
    length (stdout_bytes s') < unat stop + BUF_SIZE \<and>
    (\<exists>k. n_reads s' = n_reads s + k \<and> stdout_bytes s' = stdout_bytes s @
       concat (map (\<lambda>i. chunk dv (requests s) (n_reads s + i)) [0..<k]))"
  using assms(4,5)
proof (induction "unat stop - length (stdout_bytes s)" arbitrary: s rule: less_induct)
  case less
  obtain again s1 where c: "copy_chunk dv stop s = (again, s1)" by fastforce
  let ?c = "chunk dv (requests s) (n_reads s)" and ?rd = "fst (dv_read dv (requests s) (n_reads s))"
  have s1: "n_reads s1 = n_reads s + 1" "requests s1 = requests s" "stdout_bytes s1 = stdout_bytes s @ ?c"
    and again: "again \<longleftrightarrow> ?rd > 0 \<and> total_bytes s1 < stop"
    using c stop(1) by (auto simp: copy_chunk_eq Let_def)
  have cnt: "counted s1" using copy_chunk_counted [OF rd less.prems(1), of stop] c by simp
  have lc: "length ?c = nat ?rd" "length ?c \<le> BUF_SIZE" using chunk_length [OF rd, of "requests s" "n_reads s"] by simp_all
  have bound: "length (stdout_bytes s1) < unat stop + BUF_SIZE" using less.prems(2) lc s1 by simp
  show ?case
  proof (cases again)
    case False
    then have "cat2stdout dv stop s = Some s1" using c by (subst cat2stdout.simps) simp
    then show ?thesis using s1 cnt bound by (intro exI [of _ s1] conjI exI [of _ "1 :: nat"]) simp_all
  next
    case True
    have "unat (total_bytes s1) = length (stdout_bytes s1)"
      using cnt bound stop(2) by (simp add: counted_def unat_of_nat)
    then have small: "length (stdout_bytes s1) < unat stop" using True again by (simp add: word_less_nat_alt)
    have "length (stdout_bytes s) < length (stdout_bytes s1)" using lc(1) True again s1 by simp
    then have "unat stop - length (stdout_bytes s1) < unat stop - length (stdout_bytes s)"
      using less.prems(2) by simp
    from less.hyps [OF this cnt small] obtain s' k where
      r: "cat2stdout dv stop s1 = Some s'" "counted s'" "length (stdout_bytes s') < unat stop + BUF_SIZE"
      and k: "n_reads s' = n_reads s1 + k" "stdout_bytes s' = stdout_bytes s1 @
        concat (map (\<lambda>i. chunk dv (requests s1) (n_reads s1 + i)) [0..<k])" by blast
    have "cat2stdout dv stop s = Some s'" using c True r(1) by (subst cat2stdout.simps) simp
    moreover have "map (\<lambda>i. chunk dv (requests s) (n_reads s + i)) [0..<Suc k] =
        ?c # map (\<lambda>i. chunk dv (requests s1) (n_reads s1 + i)) [0..<k]"
      unfolding upt_conv_Cons [OF zero_less_Suc] map_Suc_upt [symmetric] using s1 by simp
    then have "stdout_bytes s' = stdout_bytes s @
        concat (map (\<lambda>i. chunk dv (requests s) (n_reads s + i)) [0..<Suc k])"
      using k s1 by (simp del: upt_Suc)
    ultimately show ?thesis using r k s1 by (intro exI [of _ s'] conjI exI [of _ "Suc k"]) simp_all
  qed
qed

section \<open>The whole program\<close>

text \<open>Enabling and calibrating write nothing.\<close>

lemma enable_event_total:
  assumes "ids_ok s" and "event_count s < MAX_EVENTS"
  shows "\<exists>ok s'. enable_event dv arg s = Some (ok, s')"
  using assms by (auto simp: enable_event_def store_event_def request_event_def ioctl_def Let_def split: prod.splits)

lemma enable_loop_total:
  "ids_ok s \<Longrightarrow> event_count s + length args \<le> MAX_EVENTS \<Longrightarrow>
   \<exists>ok s'. enable_loop dv args s = Some (ok, s') \<and> stdout_bytes s' = stdout_bytes s \<and>
     total_bytes s' = total_bytes s"
proof (induction args arbitrary: s)
  case (Cons arg args)
  then obtain ok s1 where e: "enable_event dv arg s = Some (ok, s1)"
    using enable_event_total [of s dv arg] by auto
  note e1 = enable_event_ok [OF e Cons.prems(1)]
  show ?case
  proof (cases ok)
    case True
    then have "ids_ok s1" "event_count s1 + length args \<le> MAX_EVENTS" "stdout_bytes s1 = stdout_bytes s"
      "total_bytes s1 = total_bytes s" using e1 Cons.prems(2) by auto
    then show ?thesis using Cons.IH [of s1] e True by auto
  next
    case False
    then show ?thesis using e e1 by auto
  qed
qed (auto intro: exI [of _ True])

lemma calibrate_keeps:
  "calibrate_loop dv mg v n cpu s = (ok, s') \<Longrightarrow> \<exists>rs. s' = s\<lparr>requests := rs\<rparr>"
proof (induction n arbitrary: cpu s)
  case 0
  then have "s' = s\<lparr>requests := requests s\<rparr>" by simp
  then show ?case by blast
next
  case (Suc n)
  show ?case
  proof (cases "mg cpu = 0 \<and> dv_ioctl dv (requests s) (CALIBRATE_CMD, if v then 1 else 0) = 0")
    case True
    then show ?thesis using Suc.prems Suc.IH by (fastforce simp: ioctl_def)
  next
    case False
    then show ?thesis using Suc.prems Suc.IH by (fastforce simp: ioctl_def split: if_splits)
  qed
qed

text \<open>The state in which the events are enabled.\<close>

definition start_state :: "environment \<Rightarrow> ftcat_opts \<Rightarrow> device \<Rightarrow> ftcat_state" where
  "start_state env opts dv =
     (if want_calibrate opts
      then snd (calibrate_cycle_offsets dv (env_migrate env) (env_cpus env) (fc_verbose opts) ftcat_init)
      else ftcat_init)"

lemma start_state_fields:
  "event_count (start_state env opts dv) = 0" "stdout_bytes (start_state env opts dv) = []"
  "total_bytes (start_state env opts dv) = 0" "ids_ok (start_state env opts dv)"
proof -
  obtain rs where "start_state env opts dv = ftcat_init\<lparr>requests := rs\<rparr>"
  proof (cases "want_calibrate opts")
    case True
    obtain ok s where run: "calibrate_loop dv (env_migrate env) (fc_verbose opts) (nat (env_cpus env)) 0 ftcat_init = (ok, s)"
      by fastforce
    then show ?thesis using calibrate_keeps [OF run] True that
      by (auto simp: start_state_def calibrate_cycle_offsets_def)
  next
    case False
    then have "start_state env opts dv = ftcat_init\<lparr>requests := requests ftcat_init\<rparr>"
      by (simp add: start_state_def)
    then show ?thesis by (rule that)
  qed
  then show "event_count (start_state env opts dv) = 0" "stdout_bytes (start_state env opts dv) = []"
    "total_bytes (start_state env opts dv) = 0" "ids_ok (start_state env opts dv)"
    by (simp_all add: ftcat_init_def ids_ok_def)
qed

lemma ftcat_main_cases:
  assumes "ftcat_options (env_atol env) ftcat_defaults args = Some opts" and "env_open env f = Some dv"
  shows "ftcat_main env args (f # events) = Some (3, start_state env opts dv) \<or>
    ftcat_main env args (f # events) =
      (case enable_loop dv events (start_state env opts dv) of
         None \<Rightarrow> None
       | Some (ok, s1) \<Rightarrow>
           if \<not> ok then Some (2, s1)
           else map_option (Pair 0) (cat2stdout dv (stop_after opts)
                  (case ping_file opts of None \<Rightarrow> s1 | Some p \<Rightarrow> ping p s1)))"
proof -
  obtain ok s where run: "(if want_calibrate opts
      then calibrate_cycle_offsets dv (env_migrate env) (env_cpus env) (fc_verbose opts) ftcat_init
      else (True, ftcat_init)) = (ok, s)" by fastforce
  then have s: "start_state env opts dv = s" by (auto simp: start_state_def split: if_splits)
  show ?thesis
  proof (cases ok)
    case False
    then show ?thesis using assms run s by (simp add: ftcat_main_def)
  next
    case True
    then show ?thesis using assms run s
      by (auto simp: ftcat_main_def Let_def split: option.splits bool.splits)
  qed
qed

lemma ftcat_returns:
  assumes opts: "ftcat_options (env_atol env) ftcat_defaults args = Some opts" and dv: "env_open env f = Some dv"
    and rd: "reads_ok dv" and stop: "stop_after opts \<noteq> 0" "unat (stop_after opts) + BUF_SIZE \<le> 2 ^ 64"
    and len: "length events \<le> MAX_EVENTS"
  shows "\<exists>rc s. ftcat_main env args (f # events) = Some (rc, s) \<and> counted s \<and>
    length (stdout_bytes s) < unat (stop_after opts) + BUF_SIZE"
proof -
  let ?s = "start_state env opts dv"
  have pos: "0 < unat (stop_after opts)" using stop(1) by (simp add: unat_gt_0)
  obtain ok s1 where e: "enable_loop dv events ?s = Some (ok, s1)" "stdout_bytes s1 = []" "total_bytes s1 = 0"
    using enable_loop_total [of ?s events dv] start_state_fields [of env opts dv] len by auto
  define s2 where "s2 = (case ping_file opts of None \<Rightarrow> s1 | Some p \<Rightarrow> ping p s1)"
  have s2: "stdout_bytes s2 = []" "total_bytes s2 = 0"
    using e by (simp_all add: s2_def ping_def split: option.split)
  obtain s3 where c: "cat2stdout dv (stop_after opts) s2 = Some s3" "counted s3"
    "length (stdout_bytes s3) < unat (stop_after opts) + BUF_SIZE"
    using cat2stdout_returns [OF rd stop, of s2] s2 pos by (auto simp: counted_def)
  have small: "length (stdout_bytes s) < unat (stop_after opts) + BUF_SIZE" "counted s"
    if "stdout_bytes s = []" "total_bytes s = 0" for s
    using that pos by (simp_all add: counted_def)
  from ftcat_main_cases [of env args opts f dv events, OF opts dv] show ?thesis
  proof
    assume "ftcat_main env args (f # events) = Some (3, ?s)"
    then show ?thesis using small [of ?s] start_state_fields by blast
  next
    assume "ftcat_main env args (f # events) = (case enable_loop dv events ?s of None \<Rightarrow> None
       | Some (ok, s1) \<Rightarrow> if \<not> ok then Some (2, s1)
           else map_option (Pair 0) (cat2stdout dv (stop_after opts)
                  (case ping_file opts of None \<Rightarrow> s1 | Some p \<Rightarrow> ping p s1)))"
    then have "ftcat_main env args (f # events) = (if \<not> ok then Some (2, s1) else Some (0, s3))"
      using e(1) c(1) by (simp add: s2_def)
    then show ?thesis using c small [of s1] e by (cases ok) auto
  qed
qed

section \<open>Signals\<close>

text \<open>
  Where the program is: events that are still to be enabled, then the steps of
  \<open>enable_event\<close> (with the pointer \<^verbatim>\<open>id\<close>), the copying loop with a chunk that is counted and
  not yet written, or the end with an exit code.
\<close>

datatype phase =
  Enabling "string list"
| Counting nat "string list"
| Requesting nat "string list"
| Copying
| Writing "u8 list"
| Ended int

inductive main_step :: "device \<Rightarrow> ftcat_opts \<Rightarrow> phase \<times> ftcat_state \<Rightarrow> phase \<times> ftcat_state \<Rightarrow> bool"
  for dv :: device and opts :: ftcat_opts where
  stored: "store_event arg s = Some (True, s') \<Longrightarrow>
    main_step dv opts (Enabling (arg # args), s) (Counting (event_count s) args, s')"
| refused: "store_event arg s = Some (False, s') \<Longrightarrow>
    main_step dv opts (Enabling (arg # args), s) (Ended 2, s')"
| counts: "main_step dv opts (Counting i args, s) (Requesting i args, count_event s)"
| requested: "request_event dv i s = (True, s') \<Longrightarrow>
    main_step dv opts (Requesting i args, s) (Enabling args, s')"
| failed: "request_event dv i s = (False, s') \<Longrightarrow>
    main_step dv opts (Requesting i args, s) (Ended 2, s')"
| ready: "main_step dv opts (Enabling [], s)
    (Copying, case ping_file opts of None \<Rightarrow> s | Some f \<Rightarrow> ping f s)"
| read: "count_chunk dv s = (Some bs, s') \<Longrightarrow> main_step dv opts (Copying, s) (Writing bs, s')"
| closed: "count_chunk dv s = (None, s') \<Longrightarrow> main_step dv opts (Copying, s) (Ended 0, s')"
| again: "\<not> at_limit (stop_after opts) s \<Longrightarrow> main_step dv opts (Writing bs, s) (Copying, write_chunk bs s)"
| full: "at_limit (stop_after opts) s \<Longrightarrow> main_step dv opts (Writing bs, s) (Ended 0, write_chunk bs s)"

inductive_cases main_stepE: "main_step dv opts (p, s) (p', s')"

text \<open>
  The handler is \<open>disable_all\<close>, one request at a time.  A signal is blocked while it is being
  handled, but the three signals are handled separately, so up to three handlers are nested.
  A configuration has the indices that the running handlers have reached, the innermost
  first; the program goes on when there are none.
\<close>

definition disable_one :: "device \<Rightarrow> nat \<Rightarrow> ftcat_state \<Rightarrow> ftcat_state" where
  "disable_one dv i s = snd (ioctl dv DISABLE_CMD (fc_ids s ! i) s)"

inductive ftcat_step ::
    "device \<Rightarrow> ftcat_opts \<Rightarrow> phase \<times> nat list \<times> ftcat_state \<Rightarrow> phase \<times> nat list \<times> ftcat_state \<Rightarrow> bool"
  for dv :: device and opts :: ftcat_opts where
  runs: "main_step dv opts (p, s) (p', s') \<Longrightarrow> ftcat_step dv opts (p, [], s) (p', [], s')"
| signalled: "length hs < 3 \<Longrightarrow> ftcat_step dv opts (p, hs, s) (p, 0 # hs, s)"
| disables: "i < event_count s \<Longrightarrow> ftcat_step dv opts (p, i # hs, s) (p, Suc i # hs, disable_one dv i s)"
| returns: "\<not> i < event_count s \<Longrightarrow> ftcat_step dv opts (p, i # hs, s) (p, hs, s)"

abbreviation ftcat_steps where
  "ftcat_steps dv opts \<equiv> (ftcat_step dv opts)\<^sup>*\<^sup>*"

inductive_cases ftcat_stepE: "ftcat_step dv opts c c'"

lemma rtranclp_first: "r a b \<Longrightarrow> r\<^sup>*\<^sup>* b c \<Longrightarrow> r\<^sup>*\<^sup>* a c"
  by (rule converse_rtranclp_into_rtranclp)

subsection \<open>The functions of the program as runs\<close>

lemma disable_loop_steps:
  "i + n = event_count s \<Longrightarrow>
   ftcat_steps dv opts (p, i # hs, s) (p, hs, snd (disable_loop dv n i d s))"
proof (induction n arbitrary: i d s)
  case 0
  then show ?case by (auto intro: ftcat_step.returns)
next
  case (Suc n)
  obtain rc where io: "ioctl dv DISABLE_CMD (fc_ids s ! i) s = (rc, disable_one dv i s)"
    by (simp add: disable_one_def ioctl_def)
  have "event_count (disable_one dv i s) = event_count s" by (simp add: disable_one_def ioctl_def)
  then have "Suc i + n = event_count (disable_one dv i s)" using Suc.prems by simp
  then have "ftcat_steps dv opts (p, Suc i # hs, disable_one dv i s)
      (p, hs, snd (disable_loop dv n (Suc i) (if rc < 0 then d else d + 1) (disable_one dv i s)))"
    by (rule Suc.IH)
  moreover have "ftcat_step dv opts (p, i # hs, s) (p, Suc i # hs, disable_one dv i s)"
    using Suc.prems by (intro ftcat_step.disables) simp
  ultimately show ?case using io by (auto intro: rtranclp_first)
qed

lemma shutdown_steps: "ftcat_steps dv opts (p, 0 # hs, s) (p, hs, shutdown dv s)"
proof -
  have "shutdown dv s = snd (disable_loop dv (event_count s) 0 0 s)"
    by (simp add: shutdown_def disable_all_def split: prod.split)
  then show ?thesis using disable_loop_steps [of 0 "event_count s" s dv opts p hs 0] by simp
qed

lemma enable_event_steps:
  assumes "enable_event dv arg s = Some (ok, s')"
  shows "ftcat_steps dv opts (Enabling (arg # args), [], s) (if ok then Enabling args else Ended 2, [], s')"
proof -
  obtain b s1 where st: "store_event arg s = Some (b, s1)"
    using assms by (cases "store_event arg s") (auto simp: enable_event_def)
  show ?thesis
  proof (cases b)
    case False
    then have "\<not> ok" "s' = s1" using assms st by (simp_all add: enable_event_def)
    moreover have "ftcat_step dv opts (Enabling (arg # args), [], s) (Ended 2, [], s1)"
      using st False by (intro ftcat_step.runs main_step.refused) simp
    ultimately show ?thesis by simp
  next
    case True
    then have rq: "request_event dv (event_count s) (count_event s1) = (ok, s')"
      using assms st by (simp add: enable_event_def)
    have "ftcat_step dv opts (Enabling (arg # args), [], s) (Counting (event_count s) args, [], s1)"
      using st True by (intro ftcat_step.runs main_step.stored) simp
    moreover have "ftcat_step dv opts (Counting (event_count s) args, [], s1)
        (Requesting (event_count s) args, [], count_event s1)"
      by (intro ftcat_step.runs main_step.counts)
    moreover have "ftcat_step dv opts (Requesting (event_count s) args, [], count_event s1)
        (if ok then Enabling args else Ended 2, [], s')"
      using rq by (cases ok) (auto intro: ftcat_step.runs main_step.requested main_step.failed)
    ultimately show ?thesis by (meson r_into_rtranclp rtranclp_trans)
  qed
qed

lemma enable_loop_steps:
  "enable_loop dv args s = Some (ok, s') \<Longrightarrow>
   ftcat_steps dv opts (Enabling args, [], s) (if ok then Enabling [] else Ended 2, [], s')"
proof (induction args arbitrary: s)
  case (Cons arg args)
  obtain ok1 s1 where e: "enable_event dv arg s = Some (ok1, s1)"
    and l: "(if \<not> ok1 then Some (False, s1) else enable_loop dv args s1) = Some (ok, s')"
    using Cons.prems by (auto split: option.splits)
  show ?case
  proof (cases ok1)
    case True
    then show ?thesis using enable_event_steps [OF e, of opts args] l Cons.IH [of s1] by (auto intro: rtranclp_trans)
  next
    case False
    then show ?thesis using enable_event_steps [OF e, of opts args] l by simp
  qed
qed simp

lemma copy_chunk_steps:
  assumes "copy_chunk dv (stop_after opts) s = (go, s')"
  shows "ftcat_steps dv opts (Copying, [], s) (if go then Copying else Ended 0, [], s')"
proof -
  obtain b s1 where c: "count_chunk dv s = (b, s1)" by fastforce
  show ?thesis
  proof (cases b)
    case None
    then have "\<not> go" "s' = s1" using assms c by (simp_all add: copy_chunk_def)
    then show ?thesis using c None by (auto intro: ftcat_step.runs main_step.closed)
  next
    case (Some bs)
    have lim: "at_limit (stop_after opts) (write_chunk bs s1) = at_limit (stop_after opts) s1"
      by (simp add: at_limit_def write_chunk_def)
    have "ftcat_step dv opts (Copying, [], s) (Writing bs, [], s1)"
      using c Some by (intro ftcat_step.runs main_step.read) simp
    moreover have "ftcat_step dv opts (Writing bs, [], s1) (if go then Copying else Ended 0, [], s')"
      using assms c Some lim
      by (auto simp: copy_chunk_def Let_def split: if_splits intro: ftcat_step.runs main_step.again main_step.full)
    ultimately show ?thesis by (meson r_into_rtranclp rtranclp_trans)
  qed
qed

lemma cat2stdout_steps:
  assumes run: "cat2stdout dv (stop_after opts) s = Some s'"
  shows "ftcat_steps dv opts (Copying, [], s) (Ended 0, [], s')"
proof -
  have "stop = stop_after opts \<longrightarrow> ftcat_steps dv opts (Copying, [], s) (Ended 0, [], s')"
    if "cat2stdout dv stop s = Some s'" for stop
  proof (rule cat2stdout.raw_induct [where P = "\<lambda>dv stop s s'. stop = stop_after opts \<longrightarrow>
        ftcat_steps dv opts (Copying, [], s) (Ended 0, [], s')", OF _ that])
    fix cat dv stop s s'
    assume IH: "\<And>dv stop s s'. cat dv stop s = Some s' \<Longrightarrow> stop = stop_after opts \<longrightarrow>
        ftcat_steps dv opts (Copying, [], s) (Ended 0, [], s')"
      and eq: "(case copy_chunk dv stop s of (again, s1) \<Rightarrow> if again then cat dv stop s1 else Some s1) = Some s'"
    obtain go s1 where c: "copy_chunk dv stop s = (go, s1)" by fastforce
    show "stop = stop_after opts \<longrightarrow> ftcat_steps dv opts (Copying, [], s) (Ended 0, [], s')"
      using copy_chunk_steps [of dv opts s go s1] IH [of dv stop s1 s'] eq c
      by (cases go) (auto intro: rtranclp_trans)
  qed
  then show ?thesis using run by simp
qed

subsection \<open>The invariant\<close>

text \<open>
  The requests to enable are those for the counted events, but for the one whose request is
  about to be made.  An event is disabled only after it has been enabled, or while it is
  counted and its request is the next one to be made: \<open>up\<close> is the identifier of that request
  if it is still to come.
\<close>

definition is_enable :: "request \<Rightarrow> bool" where
  "is_enable q \<longleftrightarrow> fst q = ENABLE_CMD"

fun requested_ids :: "phase \<Rightarrow> ftcat_state \<Rightarrow> u32 list" where
  "requested_ids (Requesting i args) s = butlast (enabled_ids s)"
| "requested_ids p s = enabled_ids s"

fun upcoming :: "phase \<Rightarrow> ftcat_state \<Rightarrow> u32 option" where
  "upcoming (Requesting i args) s = Some (fc_ids s ! i)"
| "upcoming p s = None"

fun unwritten :: "phase \<Rightarrow> u8 list" where
  "unwritten (Writing bs) = bs"
| "unwritten p = []"

fun next_enable :: "request list \<Rightarrow> u32 option \<Rightarrow> u32 option" where
  "next_enable [] up = up"
| "next_enable (q # qs) up = (if is_enable q then Some (snd q) else next_enable qs up)"

definition disables_ok :: "u32 option \<Rightarrow> request list \<Rightarrow> bool" where
  "disables_ok up rs \<longleftrightarrow> (\<forall>i < length rs. \<forall>x. rs ! i = (DISABLE_CMD, x) \<longrightarrow>
     (ENABLE_CMD, x) \<in> set (take i rs) \<or> next_enable (drop (Suc i) rs) up = Some x)"

lemma next_enable_append: "next_enable (rs @ qs) up = next_enable rs (next_enable qs up)"
  by (induction rs) auto

lemma next_enable_None: "next_enable rs None = Some x \<Longrightarrow> next_enable rs up = Some x"
  by (induction rs) (auto split: if_splits)

lemma disables_ok_up: "disables_ok None rs \<Longrightarrow> disables_ok up rs"
  unfolding disables_ok_def using next_enable_None by metis

lemma disables_ok_snoc:
  assumes "disables_ok (next_enable [q] up) rs" and "fst q = DISABLE_CMD \<Longrightarrow> (ENABLE_CMD, snd q) \<in> set rs \<or> up = Some (snd q)"
  shows "disables_ok up (rs @ [q])"
  unfolding disables_ok_def
proof (intro allI impI)
  fix i x assume i: "i < length (rs @ [q])" and x: "(rs @ [q]) ! i = (DISABLE_CMD, x)"
  show "(ENABLE_CMD, x) \<in> set (take i (rs @ [q])) \<or> next_enable (drop (Suc i) (rs @ [q])) up = Some x"
  proof (cases "i < length rs")
    case True
    then have "rs ! i = (DISABLE_CMD, x)" using x by (simp add: nth_append)
    then have "(ENABLE_CMD, x) \<in> set (take i rs) \<or> next_enable (drop (Suc i) rs) (next_enable [q] up) = Some x"
      using assms(1) True by (simp add: disables_ok_def)
    then show ?thesis using True by (simp add: next_enable_append del: next_enable.simps)
  next
    case False
    then have "i = length rs" "q = (DISABLE_CMD, x)" using i x by (auto simp: nth_append)
    then show ?thesis using assms(2) by auto
  qed
qed

lemma commands_distinct:
  "ENABLE_CMD \<noteq> DISABLE_CMD" "DISABLE_CMD \<noteq> ENABLE_CMD" "CALIBRATE_CMD \<noteq> DISABLE_CMD" "CALIBRATE_CMD \<noteq> ENABLE_CMD"
  by (simp_all add: ENABLE_CMD_def DISABLE_CMD_def CALIBRATE_CMD_def)

fun pointer_ok :: "phase \<Rightarrow> ftcat_state \<Rightarrow> bool" where
  "pointer_ok (Counting i args) s \<longleftrightarrow> i = event_count s \<and> i < MAX_EVENTS"
| "pointer_ok (Requesting i args) s \<longleftrightarrow> Suc i = event_count s"
| "pointer_ok p s \<longleftrightarrow> True"

definition main_inv :: "phase \<Rightarrow> ftcat_state \<Rightarrow> bool" where
  "main_inv p s \<longleftrightarrow> ids_ok s \<and> pointer_ok p s \<and>
     total_bytes s = of_nat (length (stdout_bytes s) + length (unwritten p)) \<and>
     filter is_enable (requests s) = map (Pair ENABLE_CMD) (requested_ids p s) \<and>
     disables_ok (upcoming p s) (requests s)"

lemma store_event_shape:
  assumes "store_event arg s = Some (ok, s')" and "ids_ok s"
  shows "\<exists>ids. s' = s\<lparr>fc_ids := ids\<rparr> \<and> length ids = MAX_EVENTS \<and>
    take (event_count s) ids = take (event_count s) (fc_ids s) \<and> (ok \<longrightarrow> event_count s < MAX_EVENTS)"
proof -
  obtain rc v where sv: "str2event arg = (rc, v)" by fastforce
  have s: "s = s\<lparr>fc_ids := fc_ids s\<rparr>" by simp
  show ?thesis
  proof (cases "rc = 0 \<or> v = None")
    case True
    then have "s' = s" "ok \<longrightarrow> event_count s < MAX_EVENTS"
      using assms sv by (auto simp: store_event_def split: if_splits)
    then show ?thesis using assms(2) by (intro exI [of _ "fc_ids s"]) (simp add: ids_ok_def)
  next
    case False
    then obtain x where "s' = s\<lparr>fc_ids := (fc_ids s)[event_count s := x]\<rparr>" "event_count s < MAX_EVENTS"
      using assms sv by (auto simp: store_event_def split: if_splits)
    then show ?thesis using assms(2) by (intro exI [of _ "(fc_ids s)[event_count s := x]"]) (simp add: ids_ok_def)
  qed
qed

lemma store_event_inv:
  assumes "store_event arg s = Some (ok, s')" and "main_inv (Enabling (arg # args)) s"
  shows "main_inv (if ok then Counting (event_count s) args else Ended 2) s'"
proof -
  obtain ids where "s' = s\<lparr>fc_ids := ids\<rparr>" "length ids = MAX_EVENTS"
    "take (event_count s) ids = take (event_count s) (fc_ids s)" "ok \<longrightarrow> event_count s < MAX_EVENTS"
    using store_event_shape [OF assms(1)] assms(2) by (auto simp: main_inv_def)
  then show ?thesis using assms(2) by (simp add: main_inv_def ids_ok_def enabled_ids_def)
qed

lemma enabled_Suc: "ids_ok s \<Longrightarrow> Suc i = event_count s \<Longrightarrow> enabled_ids s = take i (fc_ids s) @ [fc_ids s ! i]"
proof -
  assume "ids_ok s" and i: "Suc i = event_count s"
  then have "i < length (fc_ids s)" by (simp add: ids_ok_def)
  then show ?thesis using i by (simp add: enabled_ids_def take_Suc_conv_app_nth flip: i)
qed

lemma count_event_inv: "main_inv (Counting i args) s \<Longrightarrow> main_inv (Requesting i args) (count_event s)"
proof -
  assume inv: "main_inv (Counting i args) s"
  let ?s = "count_event s"
  have i: "i = event_count s" "i < MAX_EVENTS" and ok: "ids_ok ?s"
    using inv by (auto simp: main_inv_def ids_ok_def count_event_def)
  have "enabled_ids ?s = enabled_ids s @ [fc_ids s ! i]"
    using enabled_Suc [OF ok, of i] i by (simp add: count_event_def enabled_ids_def)
  then show ?thesis using inv i ok disables_ok_up by (simp add: main_inv_def count_event_def)
qed

lemma request_event_inv:
  assumes "request_event dv i s = (ok, s')" and inv: "main_inv (Requesting i args) s"
  shows "main_inv (if ok then Enabling args else Ended 2) s'"
proof -
  let ?q = "(ENABLE_CMD, fc_ids s ! i)"
  have s': "s' = s\<lparr>requests := requests s @ [?q]\<rparr>" using assms(1) by (auto simp: request_event_def ioctl_def)
  have "ids_ok s" "Suc i = event_count s" using inv by (simp_all add: main_inv_def)
  from enabled_Suc [OF this] have en: "enabled_ids s = butlast (enabled_ids s) @ [fc_ids s ! i]" by simp
  have "filter is_enable (requests s @ [?q]) = map (Pair ENABLE_CMD) (butlast (enabled_ids s) @ [fc_ids s ! i])"
    using inv by (simp add: main_inv_def is_enable_def)
  then have "filter is_enable (requests s') = map (Pair ENABLE_CMD) (enabled_ids s)"
    unfolding en [symmetric] by (simp add: s')
  moreover have "enabled_ids s' = enabled_ids s" by (simp add: s' enabled_ids_def)
  moreover have "disables_ok None (requests s')" unfolding s'
    using inv commands_distinct by (simp, intro disables_ok_snoc) (simp_all add: main_inv_def is_enable_def)
  ultimately show ?thesis using inv s' by (simp add: main_inv_def ids_ok_def)
qed

lemma disable_one_inv:
  assumes inv: "main_inv p s" and i: "i < event_count s"
  shows "main_inv p (disable_one dv i s)"
proof -
  let ?q = "(DISABLE_CMD, fc_ids s ! i)"
  have s': "disable_one dv i s = s\<lparr>requests := requests s @ [?q]\<rparr>" by (simp add: disable_one_def ioctl_def)
  have ids: "ids_ok s" using inv by (simp add: main_inv_def)
  have same: "requested_ids p (disable_one dv i s) = requested_ids p s" "upcoming p (disable_one dv i s) = upcoming p s"
    "pointer_ok p (disable_one dv i s) = pointer_ok p s"
    by (cases p; simp add: s' enabled_ids_def)+
  have mem: "fc_ids s ! i \<in> set (enabled_ids s)"
    using i ids by (auto simp: enabled_ids_def ids_ok_def in_set_conv_nth intro!: exI [of _ i])
  have "fc_ids s ! i \<in> set (requested_ids p s) \<or> upcoming p s = Some (fc_ids s ! i)"
  proof (cases p)
    case (Requesting k args)
    then have "enabled_ids s = take k (fc_ids s) @ [fc_ids s ! k]"
      using enabled_Suc [OF ids] inv by (simp add: main_inv_def)
    then show ?thesis using mem Requesting by auto
  qed (use mem in simp_all)
  moreover have "(ENABLE_CMD, x) \<in> set (requests s)" if "x \<in> set (requested_ids p s)" for x
  proof -
    have "(ENABLE_CMD, x) \<in> set (filter is_enable (requests s))" using inv that by (simp add: main_inv_def)
    then show ?thesis by simp
  qed
  ultimately have "(ENABLE_CMD, fc_ids s ! i) \<in> set (requests s) \<or> upcoming p s = Some (fc_ids s ! i)" by blast
  then have "disables_ok (upcoming p s) (requests s @ [?q])"
    using inv commands_distinct by (intro disables_ok_snoc) (simp_all add: main_inv_def is_enable_def)
  then show ?thesis using inv same commands_distinct
    by (simp add: main_inv_def s' ids_ok_def is_enable_def)
qed

lemma count_chunk_inv:
  assumes "reads_ok dv" and "count_chunk dv s = (b, s')" and inv: "main_inv Copying s"
  shows "main_inv (case b of None \<Rightarrow> Ended 0 | Some bs \<Rightarrow> Writing bs) s'"
proof -
  obtain rd buf where r: "dv_read dv (requests s) (n_reads s) = (rd, buf)" by fastforce
  have len: "nat rd \<le> length buf" using assms(1) r unfolding reads_ok_def by (metis fst_conv snd_conv)
  show ?thesis
  proof (cases "rd > 0")
    case True
    then have "(of_int rd :: u64) = of_nat (length (take (nat rd) buf))" using len by simp
    then show ?thesis using assms(2) r True inv
      by (auto simp: count_chunk_def read_device_def main_inv_def ids_ok_def enabled_ids_def)
  next
    case False
    then show ?thesis using assms(2) r inv
      by (auto simp: count_chunk_def read_device_def main_inv_def ids_ok_def enabled_ids_def)
  qed
qed

lemma write_chunk_inv: "main_inv (Writing bs) s \<Longrightarrow> main_inv Copying (write_chunk bs s) \<and> main_inv (Ended 0) (write_chunk bs s)"
  by (simp add: main_inv_def write_chunk_def ids_ok_def enabled_ids_def)

lemma main_step_inv:
  "main_step dv opts a b \<Longrightarrow> reads_ok dv \<Longrightarrow> main_inv (fst a) (snd a) \<Longrightarrow> main_inv (fst b) (snd b)"
proof (induction rule: main_step.induct)
  case (ready s)
  then show ?case by (simp add: main_inv_def ping_def ids_ok_def enabled_ids_def split: option.split)
qed (fastforce dest: store_event_inv count_event_inv request_event_inv count_chunk_inv write_chunk_inv)+

text \<open>With the handlers: none of them goes beyond the events in use.\<close>

definition ftcat_inv :: "phase \<times> nat list \<times> ftcat_state \<Rightarrow> bool" where
  "ftcat_inv c \<longleftrightarrow> (case c of (p, hs, s) \<Rightarrow> main_inv p s \<and> (\<forall>i \<in> set hs. i \<le> event_count s))"

lemma ftcat_step_inv:
  "ftcat_step dv opts c c' \<Longrightarrow> reads_ok dv \<Longrightarrow> ftcat_inv c \<Longrightarrow> ftcat_inv c'"
proof (induction rule: ftcat_step.induct)
  case (runs p s p' s')
  then show ?case using main_step_inv [OF runs.hyps] by (simp add: ftcat_inv_def)
next
  case (disables i s p hs)
  moreover have "event_count (disable_one dv i s) = event_count s" by (simp add: disable_one_def ioctl_def)
  ultimately show ?case using disable_one_inv [of p s i dv] by (auto simp: ftcat_inv_def)
qed (auto simp: ftcat_inv_def)

lemma ftcat_steps_inv:
  assumes "ftcat_steps dv opts a b" and "reads_ok dv" and "ftcat_inv a"
  shows "ftcat_inv b"
  using assms(1,3) by (induction rule: rtranclp_induct) (auto dest: ftcat_step_inv [OF _ assms(2)])

text \<open>Calibration makes no other requests.\<close>

lemma calibrate_requests:
  "\<forall>q \<in> set (requests s). fst q = CALIBRATE_CMD \<Longrightarrow>
   \<forall>q \<in> set (requests (snd (calibrate_loop dv mg v n cpu s))). fst q = CALIBRATE_CMD"
proof (induction n arbitrary: cpu s)
  case (Suc n)
  let ?s = "s\<lparr>requests := requests s @ [(CALIBRATE_CMD, if v then 1 else 0)]\<rparr>"
  have "\<forall>q \<in> set (requests ?s). fst q = CALIBRATE_CMD" using Suc.prems by auto
  from Suc.IH [OF this] Suc.IH [OF Suc.prems] show ?case using Suc.prems by (auto simp: ioctl_def split: if_splits)
qed simp

lemma start_state_inv: "ftcat_inv (Enabling events, [], start_state env opts dv)"
proof -
  let ?s = "start_state env opts dv"
  have cal: "\<forall>q \<in> set (requests ?s). fst q = CALIBRATE_CMD"
    using calibrate_requests [of ftcat_init]
    by (simp add: start_state_def calibrate_cycle_offsets_def ftcat_init_def)
  then have "filter is_enable (requests ?s) = []" using commands_distinct by (auto simp: filter_empty_conv is_enable_def)
  moreover have "disables_ok None (requests ?s)" unfolding disables_ok_def
    using cal commands_distinct by (metis fst_conv nth_mem)
  ultimately show ?thesis using start_state_fields [of env opts dv]
    by (simp add: ftcat_inv_def main_inv_def enabled_ids_def)
qed

end
