(* ===== verification/Heap_Model.thy ===== *)
theory Heap_Model
  imports FT_Prelude "HOL-Library.Monad_Syntax"
begin

text \<open>
  The binomial heap of \<^verbatim>\<open>include/heap.h\<close>, at the level of its pointers: a memory of nodes
  with parent, next and child pointers, a heap as a root list and a cached minimum, and the
  operations as the memory updates the code performs, in its order.  A loop that need not
  end is a partial function into \<open>option\<close>; so \<open>None\<close> stands for a run that does not return
  or that follows a null pointer.  The comparison function of the code reads the values of
  the two nodes only; it is the parameter \<open>hp\<close> (\<open>hp a b\<close>: \<open>a\<close> has the higher priority).
\<close>

section \<open>Memory\<close>

type_synonym addr = u64
type_synonym cell = u64

record 'v heap_node =
  n_parent :: "addr option"
  n_next :: "addr option"
  n_child :: "addr option"
  n_degree :: u32
  n_value :: 'v
  n_ref :: "cell option"

text \<open>The nodes, and the reference variables outside the heap that point to nodes.\<close>

record 'v mem =
  nodes :: "addr \<Rightarrow> 'v heap_node"
  cells :: "cell \<Rightarrow> addr option"

record heap =
  h_head :: "addr option"
  h_min :: "addr option"

definition upd :: "addr \<Rightarrow> ('v heap_node \<Rightarrow> 'v heap_node) \<Rightarrow> 'v mem \<Rightarrow> 'v mem" where
  "upd a f m = m\<lparr>nodes := (nodes m)(a := f (nodes m a))\<rparr>"

definition set_parent :: "addr \<Rightarrow> addr option \<Rightarrow> 'v mem \<Rightarrow> 'v mem" where
  "set_parent a p = upd a (\<lambda>n. n\<lparr>n_parent := p\<rparr>)"

definition set_next :: "addr \<Rightarrow> addr option \<Rightarrow> 'v mem \<Rightarrow> 'v mem" where
  "set_next a p = upd a (\<lambda>n. n\<lparr>n_next := p\<rparr>)"

definition set_child :: "addr \<Rightarrow> addr option \<Rightarrow> 'v mem \<Rightarrow> 'v mem" where
  "set_child a p = upd a (\<lambda>n. n\<lparr>n_child := p\<rparr>)"

definition set_degree :: "addr \<Rightarrow> u32 \<Rightarrow> 'v mem \<Rightarrow> 'v mem" where
  "set_degree a d = upd a (\<lambda>n. n\<lparr>n_degree := d\<rparr>)"

definition set_value :: "addr \<Rightarrow> 'v \<Rightarrow> 'v mem \<Rightarrow> 'v mem" where
  "set_value a v = upd a (\<lambda>n. n\<lparr>n_value := v\<rparr>)"

definition set_ref :: "addr \<Rightarrow> cell option \<Rightarrow> 'v mem \<Rightarrow> 'v mem" where
  "set_ref a r = upd a (\<lambda>n. n\<lparr>n_ref := r\<rparr>)"

definition set_cell :: "cell \<Rightarrow> addr option \<Rightarrow> 'v mem \<Rightarrow> 'v mem" where
  "set_cell c p m = m\<lparr>cells := (cells m)(c := p)\<rparr>"

section \<open>Nodes and heaps\<close>

definition NOT_IN_HEAP :: u32 where "NOT_IN_HEAP = - 1"

definition heap_init :: heap where
  "heap_init = \<lparr>h_head = None, h_min = None\<rparr>"

definition heap_node_init :: "addr \<Rightarrow> 'v \<Rightarrow> 'v mem \<Rightarrow> 'v mem" where
  "heap_node_init h v =
     upd h (\<lambda>n. n\<lparr>n_parent := None, n_next := None, n_child := None, n_degree := NOT_IN_HEAP,
                   n_value := v, n_ref := None\<rparr>)"

text \<open>Initialisation through a reference variable, which must point to the node.\<close>

definition heap_node_init_ref :: "cell \<Rightarrow> 'v \<Rightarrow> 'v mem \<Rightarrow> 'v mem option" where
  "heap_node_init_ref c v m = do {
     h \<leftarrow> cells m c;
     Some (upd h (\<lambda>n. n\<lparr>n_parent := None, n_next := None, n_child := None, n_degree := NOT_IN_HEAP,
                         n_value := v, n_ref := Some c\<rparr>) m) }"

definition heap_node_value :: "addr \<Rightarrow> 'v mem \<Rightarrow> 'v" where
  "heap_node_value h m = n_value (nodes m h)"

definition heap_node_in_heap :: "addr \<Rightarrow> 'v mem \<Rightarrow> bool" where
  "heap_node_in_heap h m \<longleftrightarrow> n_degree (nodes m h) \<noteq> NOT_IN_HEAP"

definition heap_empty :: "heap \<Rightarrow> bool" where
  "heap_empty h \<longleftrightarrow> h_head h = None \<and> h_min h = None"

section \<open>Trees and root lists\<close>

text \<open>\<open>__heap_link\<close>: make \<open>c\<close> a subtree of \<open>r\<close>.\<close>

definition heap_link :: "addr \<Rightarrow> addr \<Rightarrow> 'v mem \<Rightarrow> 'v mem" where
  "heap_link r c m =
     (let m = set_parent c (Some r) m;
          m = set_next c (n_child (nodes m r)) m;
          m = set_child r (Some c) m
      in set_degree r (n_degree (nodes m r) + 1) m)"

text \<open>
  \<open>__heap_merge\<close>.  \<open>pos\<close> is the pointer to the place to be written: \<open>None\<close> is the variable
  \<^verbatim>\<open>head\<close>, \<open>Some p\<close> the field \<^verbatim>\<open>next\<close> of \<open>p\<close>.
\<close>

definition write_pos ::
    "'v mem \<Rightarrow> addr option \<Rightarrow> addr option \<Rightarrow> addr option \<Rightarrow> 'v mem \<times> addr option" where
  "write_pos m head pos v =
     (case pos of None \<Rightarrow> (m, v) | Some p \<Rightarrow> (set_next p v m, head))"

partial_function (option) merge_loop ::
    "'v mem \<Rightarrow> addr option \<Rightarrow> addr option \<Rightarrow> addr option \<Rightarrow> addr option \<Rightarrow>
     ('v mem \<times> addr option) option" where
  "merge_loop m head pos a b =
     (case a of
        None \<Rightarrow> Some (write_pos m head pos b)
      | Some x \<Rightarrow>
          (case b of
             None \<Rightarrow> Some (write_pos m head pos a)
           | Some y \<Rightarrow>
               if n_degree (nodes m x) < n_degree (nodes m y) then
                 (case write_pos m head pos a of (m1, head1) \<Rightarrow>
                    merge_loop m1 head1 a (n_next (nodes m1 x)) b)
               else
                 (case write_pos m head pos b of (m1, head1) \<Rightarrow>
                    merge_loop m1 head1 b a (n_next (nodes m1 y)))))"

definition heap_merge ::
    "'v mem \<Rightarrow> addr option \<Rightarrow> addr option \<Rightarrow> ('v mem \<times> addr option) option" where
  "heap_merge m a b = merge_loop m None None a b"

text \<open>\<open>__heap_reverse\<close>\<close>

partial_function (option) reverse_loop ::
    "'v mem \<Rightarrow> addr option \<Rightarrow> addr \<Rightarrow> ('v mem \<times> addr option) option" where
  "reverse_loop m tail h =
     (case n_next (nodes m h) of
        None \<Rightarrow> Some (set_next h tail m, Some h)
      | Some nxt \<Rightarrow> reverse_loop (set_parent nxt None (set_next h tail m)) (Some h) nxt)"

definition heap_reverse :: "'v mem \<Rightarrow> addr option \<Rightarrow> ('v mem \<times> addr option) option" where
  "heap_reverse m h =
     (case h of
        None \<Rightarrow> Some (m, None)
      | Some x \<Rightarrow> reverse_loop (set_parent x None m) None x)"

text \<open>\<open>__heap_min\<close>: the result is \<open>(prev, node)\<close>.\<close>

partial_function (option) min_loop ::
    "('v \<Rightarrow> 'v \<Rightarrow> bool) \<Rightarrow> 'v mem \<Rightarrow> addr option \<Rightarrow> addr \<Rightarrow> addr \<Rightarrow> addr option \<Rightarrow>
     (addr option \<times> addr) option" where
  "min_loop hp m prev node lst cur =
     (case cur of
        None \<Rightarrow> Some (prev, node)
      | Some c \<Rightarrow>
          if hp (n_value (nodes m c)) (n_value (nodes m node))
          then min_loop hp m (Some lst) c c (n_next (nodes m c))
          else min_loop hp m prev node c (n_next (nodes m c)))"

definition heap_min ::
    "('v \<Rightarrow> 'v \<Rightarrow> bool) \<Rightarrow> 'v mem \<Rightarrow> heap \<Rightarrow> (addr option \<times> addr option) option" where
  "heap_min hp m h =
     (case h_head h of
        None \<Rightarrow> Some (None, None)
      | Some x \<Rightarrow> do {
          (prev, node) \<leftarrow> min_loop hp m None x x (n_next (nodes m x));
          Some (prev, Some node) })"

text \<open>\<open>__heap_union\<close>: its loop over the merged root list, and the function.\<close>

partial_function (option) union_loop ::
    "('v \<Rightarrow> 'v \<Rightarrow> bool) \<Rightarrow> 'v mem \<Rightarrow> addr option \<Rightarrow> addr option \<Rightarrow> addr \<Rightarrow> addr option \<Rightarrow>
     ('v mem \<times> addr option) option" where
  "union_loop hp m h1 prev x nxt =
     (case nxt of
        None \<Rightarrow> Some (m, h1)
      | Some n \<Rightarrow>
          if n_degree (nodes m x) \<noteq> n_degree (nodes m n) \<or>
             (case n_next (nodes m n) of
                None \<Rightarrow> False
              | Some nn \<Rightarrow> n_degree (nodes m nn) = n_degree (nodes m x))
          then union_loop hp m h1 (Some x) n (n_next (nodes m n))
          else if hp (n_value (nodes m x)) (n_value (nodes m n)) then
            (let m2 = heap_link x n (set_next x (n_next (nodes m n)) m)
             in union_loop hp m2 h1 prev x (n_next (nodes m2 x)))
          else
            (case write_pos m h1 prev (Some n) of (m1, head1) \<Rightarrow>
               let m2 = heap_link n x m1
               in union_loop hp m2 head1 prev n (n_next (nodes m2 n))))"

definition heap_union_nodes ::
    "('v \<Rightarrow> 'v \<Rightarrow> bool) \<Rightarrow> 'v mem \<Rightarrow> heap \<Rightarrow> addr option \<Rightarrow> ('v mem \<times> heap) option" where
  "heap_union_nodes hp m h h2 =
     (case h2 of
        None \<Rightarrow> Some (m, h)
      | Some _ \<Rightarrow>
          (case h_head h of
             None \<Rightarrow> Some (m, h\<lparr>h_head := h2\<rparr>)
           | Some _ \<Rightarrow> do {
               (m1, h1) \<leftarrow> heap_merge m (h_head h) h2;
               x \<leftarrow> h1;
               (m2, h1') \<leftarrow> union_loop hp m1 h1 None x (n_next (nodes m1 x));
               Some (m2, h\<lparr>h_head := h1'\<rparr>) }))"

text \<open>\<open>__heap_extract_min\<close>\<close>

definition heap_extract_min ::
    "('v \<Rightarrow> 'v \<Rightarrow> bool) \<Rightarrow> 'v mem \<Rightarrow> heap \<Rightarrow> ('v mem \<times> heap \<times> addr option) option" where
  "heap_extract_min hp m h = do {
     (prev, node) \<leftarrow> heap_min hp m h;
     (case node of
        None \<Rightarrow> Some (m, h, None)
      | Some x \<Rightarrow>
          (case write_pos m (h_head h) prev (n_next (nodes m x)) of (m1, head1) \<Rightarrow> do {
             (m2, r) \<leftarrow> heap_reverse m1 (n_child (nodes m1 x));
             (m3, h3) \<leftarrow> heap_union_nodes hp m2 (h\<lparr>h_head := head1\<rparr>) r;
             Some (m3, h3, Some x) })) }"

section \<open>Operations\<close>

definition reset_node :: "addr \<Rightarrow> 'v mem \<Rightarrow> 'v mem" where
  "reset_node a =
     upd a (\<lambda>n. n\<lparr>n_child := None, n_parent := None, n_next := None, n_degree := 0\<rparr>)"

definition heap_insert ::
    "('v \<Rightarrow> 'v \<Rightarrow> bool) \<Rightarrow> 'v mem \<Rightarrow> heap \<Rightarrow> addr \<Rightarrow> ('v mem \<times> heap) option" where
  "heap_insert hp m h node =
     (let m1 = reset_node node m in
      case h_min h of
        None \<Rightarrow> heap_union_nodes hp m1 h (Some node)
      | Some mn \<Rightarrow>
          if hp (n_value (nodes m1 node)) (n_value (nodes m1 mn)) then do {
            (m2, h2) \<leftarrow> heap_union_nodes hp (reset_node mn m1) h (Some mn);
            Some (m2, h2\<lparr>h_min := Some node\<rparr>) }
          else heap_union_nodes hp m1 h (Some node))"

definition uncache_min ::
    "('v \<Rightarrow> 'v \<Rightarrow> bool) \<Rightarrow> 'v mem \<Rightarrow> heap \<Rightarrow> ('v mem \<times> heap) option" where
  "uncache_min hp m h =
     (case h_min h of
        None \<Rightarrow> Some (m, h)
      | Some mn \<Rightarrow> heap_insert hp m (h\<lparr>h_min := None\<rparr>) mn)"

text \<open>\<open>heap_union\<close>: the result has the target and the emptied addition.\<close>

definition heap_union ::
    "('v \<Rightarrow> 'v \<Rightarrow> bool) \<Rightarrow> 'v mem \<Rightarrow> heap \<Rightarrow> heap \<Rightarrow> ('v mem \<times> heap \<times> heap) option" where
  "heap_union hp m target addition = do {
     (m1, target1) \<leftarrow> uncache_min hp m target;
     (m2, addition1) \<leftarrow> uncache_min hp m1 addition;
     (m3, target2) \<leftarrow> heap_union_nodes hp m2 target1 (h_head addition1);
     Some (m3, target2, addition1\<lparr>h_head := None\<rparr>) }"

definition fill_min ::
    "('v \<Rightarrow> 'v \<Rightarrow> bool) \<Rightarrow> 'v mem \<Rightarrow> heap \<Rightarrow> ('v mem \<times> heap) option" where
  "fill_min hp m h =
     (case h_min h of
        Some _ \<Rightarrow> Some (m, h)
      | None \<Rightarrow> do {
          (m1, h1, x) \<leftarrow> heap_extract_min hp m h;
          Some (m1, h1\<lparr>h_min := x\<rparr>) })"

definition heap_peek ::
    "('v \<Rightarrow> 'v \<Rightarrow> bool) \<Rightarrow> 'v mem \<Rightarrow> heap \<Rightarrow> ('v mem \<times> heap \<times> addr option) option" where
  "heap_peek hp m h = do {
     (m1, h1) \<leftarrow> fill_min hp m h;
     Some (m1, h1, h_min h1) }"

definition heap_take ::
    "('v \<Rightarrow> 'v \<Rightarrow> bool) \<Rightarrow> 'v mem \<Rightarrow> heap \<Rightarrow> ('v mem \<times> heap \<times> addr option) option" where
  "heap_take hp m h = do {
     (m1, h1) \<leftarrow> fill_min hp m h;
     (case h_min h1 of
        None \<Rightarrow> Some (m1, h1\<lparr>h_min := None\<rparr>, None)
      | Some node \<Rightarrow> Some (set_degree node NOT_IN_HEAP m1, h1\<lparr>h_min := None\<rparr>, Some node)) }"

text \<open>
  The exchange of the contents of a node with those of its parent, with the reference
  variables adjusted; the node must have one.
\<close>

definition swap_with_parent :: "addr \<Rightarrow> addr \<Rightarrow> 'v mem \<Rightarrow> 'v mem option" where
  "swap_with_parent node par m = do {
     let tmp = n_value (nodes m par);
     let m = set_value par (n_value (nodes m node)) m;
     let m = set_value node tmp m;
     let m = (case n_ref (nodes m par) of None \<Rightarrow> m | Some c \<Rightarrow> set_cell c (Some node) m);
     c \<leftarrow> n_ref (nodes m node);
     let m = set_cell c (Some par) m;
     let tmp_ref = n_ref (nodes m par);
     let m = set_ref par (n_ref (nodes m node)) m;
     Some (set_ref node tmp_ref m) }"

partial_function (option) decrease_loop ::
    "('v \<Rightarrow> 'v \<Rightarrow> bool) \<Rightarrow> 'v mem \<Rightarrow> addr \<Rightarrow> addr option \<Rightarrow> 'v mem option" where
  "decrease_loop hp m node par =
     (case par of
        None \<Rightarrow> Some m
      | Some p \<Rightarrow>
          if hp (n_value (nodes m node)) (n_value (nodes m p)) then do {
            m1 \<leftarrow> swap_with_parent node p m;
            decrease_loop hp m1 p (n_parent (nodes m1 p)) }
          else Some m)"

definition heap_decrease ::
    "('v \<Rightarrow> 'v \<Rightarrow> bool) \<Rightarrow> 'v mem \<Rightarrow> heap \<Rightarrow> addr \<Rightarrow> 'v mem option" where
  "heap_decrease hp m h node =
     (if n_ref (nodes m node) = None then Some m
      else if h_min h \<noteq> Some node then decrease_loop hp m node (n_parent (nodes m node))
      else Some m)"

text \<open>\<open>heap_delete\<close>: up to the root, then to the place in the root list.\<close>

partial_function (option) bubble_loop ::
    "'v mem \<Rightarrow> addr \<Rightarrow> addr option \<Rightarrow> ('v mem \<times> addr) option" where
  "bubble_loop m node par =
     (case par of
        None \<Rightarrow> Some (m, node)
      | Some p \<Rightarrow> do {
          m1 \<leftarrow> swap_with_parent node p m;
          bubble_loop m1 p (n_parent (nodes m1 p)) })"

partial_function (option) find_prev ::
    "'v mem \<Rightarrow> addr \<Rightarrow> addr option \<Rightarrow> addr option \<Rightarrow> addr option option" where
  "find_prev m node prev pos =
     (if pos = Some node then Some prev
      else case pos of
        None \<Rightarrow> None
      | Some p \<Rightarrow> find_prev m node pos (n_next (nodes m p)))"

definition heap_delete ::
    "('v \<Rightarrow> 'v \<Rightarrow> bool) \<Rightarrow> 'v mem \<Rightarrow> heap \<Rightarrow> addr \<Rightarrow> ('v mem \<times> heap) option" where
  "heap_delete hp m h node =
     (if n_ref (nodes m node) = None then Some (m, h)
      else if h_min h \<noteq> Some node then do {
        (m1, node1) \<leftarrow> bubble_loop m node (n_parent (nodes m node));
        prev \<leftarrow> find_prev m1 node1 None (h_head h);
        (case write_pos m1 (h_head h) prev (n_next (nodes m1 node1)) of (m2, head2) \<Rightarrow> do {
           (m3, r) \<leftarrow> heap_reverse m2 (n_child (nodes m2 node1));
           (m4, h4) \<leftarrow> heap_union_nodes hp m3 (h\<lparr>h_head := head2\<rparr>) r;
           Some (set_degree node1 NOT_IN_HEAP m4, h4) }) }
      else Some (set_degree node NOT_IN_HEAP m, h\<lparr>h_min := None\<rparr>))"

end
