(* ===== verification/Heap_Forest.thy ===== *)
theory Heap_Forest
  imports Heap_Model
begin

text \<open>
  The shape of a binomial heap in memory.  A functional tree carries the addresses of its
  nodes; \<open>chain\<close> says that a list of addresses is linked by the next pointers and
  \<open>tree_ok\<close> that a tree is laid out in memory.  The pointer routines of
  \<^verbatim>\<open>include/heap.h\<close> are shown to return and to compute the functional operations on lists
  of trees: \<open>merge_f\<close>, \<open>rev\<close>, linking, \<open>union_f\<close>, and the choice of the minimal root.
\<close>

section \<open>Trees in memory\<close>

datatype tree = Node (root: addr) (kids: "tree list")

fun addrs_t :: "tree \<Rightarrow> addr list" where
  "addrs_t (Node a ks) = a # concat (map addrs_t ks)"

definition addrs :: "tree list \<Rightarrow> addr list" where
  "addrs ts = concat (map addrs_t ts)"

lemma addrs_simps [simp]:
  "addrs [] = []" "addrs (t # ts) = addrs_t t @ addrs ts" "addrs (ts @ us) = addrs ts @ addrs us"
  "addrs_t (Node a ks) = a # addrs ks"
  by (simp_all add: addrs_def)

declare addrs_t.simps [simp del]

lemma root_in_addrs [simp]: "root t \<in> set (addrs_t t)"
  by (cases t) simp

lemma addrs_t_root: "addrs_t t = root t # addrs (kids t)"
  by (cases t) simp

lemma set_addrs: "set (addrs ts) = (\<Union>t \<in> set ts. set (addrs_t t))"
  by (induction ts) auto

lemma roots_in_addrs: "root ` set ts \<subseteq> set (addrs ts)"
  by (auto simp: set_addrs)

lemma distinct_roots: "distinct (addrs ts) \<Longrightarrow> distinct (map root ts)"
  using roots_in_addrs by (induction ts) (fastforce simp: addrs_t_root)+

lemma mset_addrs: "mset (addrs ts) = sum_mset (image_mset (\<lambda>t. mset (addrs_t t)) (mset ts))"
  by (induction ts) auto

lemma distinct_addrs_mset: "mset (addrs ts) = mset (addrs us) \<Longrightarrow> distinct (addrs ts) = distinct (addrs us)"
  by (rule mset_eq_imp_distinct_iff)

fun chain :: "'v mem \<Rightarrow> addr option \<Rightarrow> addr list \<Rightarrow> bool" where
  "chain m p [] \<longleftrightarrow> p = None"
| "chain m p (a # as) \<longleftrightarrow> p = Some a \<and> chain m (n_next (nodes m a)) as"

fun tree_ok :: "'v mem \<Rightarrow> addr option \<Rightarrow> tree \<Rightarrow> bool" where
  "tree_ok m par (Node a ks) \<longleftrightarrow>
     n_parent (nodes m a) = par \<and> n_degree (nodes m a) = of_nat (length ks) \<and>
     chain m (n_child (nodes m a)) (map root ks) \<and> (\<forall>k \<in> set ks. tree_ok m (Some a) k)"

definition forest :: "'v mem \<Rightarrow> addr option \<Rightarrow> tree list \<Rightarrow> bool" where
  "forest m p ts \<longleftrightarrow> chain m p (map root ts) \<and> (\<forall>t \<in> set ts. tree_ok m None t)"

text \<open>The degree as the code reads it.\<close>

definition deg :: "tree \<Rightarrow> u32" where
  "deg t = of_nat (length (kids t))"

lemma deg_Node [simp]: "deg (Node a ks) = of_nat (length ks)"
  by (simp add: deg_def)

lemma tree_ok_deg: "tree_ok m par t \<Longrightarrow> n_degree (nodes m (root t)) = deg t"
  by (cases t) simp

section \<open>Frames\<close>

lemma chain_cong:
  "(\<And>a. a \<in> set as \<Longrightarrow> n_next (nodes m' a) = n_next (nodes m a)) \<Longrightarrow> chain m' p as = chain m p as"
  by (induction as arbitrary: p) auto

text \<open>The next pointer of its root is not part of a tree.\<close>

lemma tree_ok_cong:
  "n_parent (nodes m' (root t)) = par' \<Longrightarrow> n_parent (nodes m (root t)) = par \<Longrightarrow>
   n_child (nodes m' (root t)) = n_child (nodes m (root t)) \<Longrightarrow>
   n_degree (nodes m' (root t)) = n_degree (nodes m (root t)) \<Longrightarrow>
   (\<And>a. a \<in> set (addrs (kids t)) \<Longrightarrow> nodes m' a = nodes m a) \<Longrightarrow>
   tree_ok m' par' t = tree_ok m par t"
proof (induction t arbitrary: par par')
  case (Node a ks)
  have same: "nodes m' x = nodes m x" if "k \<in> set ks" "x \<in> set (addrs_t k)" for k x
    using Node.prems(5) that by (auto simp: set_addrs)
  have "tree_ok m' (Some a) k = tree_ok m (Some a) k" if k: "k \<in> set ks" for k
  proof (cases "n_parent (nodes m (root k)) = Some a")
    case True
    show ?thesis
      by (rule Node.IH [OF k]) (use True same [OF k] in \<open>auto simp: addrs_t_root\<close>)
  next
    case False
    then show ?thesis using same [OF k, of "root k"] by (cases k) auto
  qed
  moreover have "chain m' p (map root ks) = chain m p (map root ks)" for p
    by (rule chain_cong) (auto simp: same)
  ultimately show ?case using Node.prems by auto
qed

lemma tree_ok_frame:
  assumes "\<And>a. a \<in> set (addrs_t t) \<Longrightarrow> nodes m' a = nodes m a"
  shows "tree_ok m' par t = tree_ok m par t"
proof (cases "n_parent (nodes m (root t)) = par")
  case True
  then show ?thesis by (intro tree_ok_cong) (auto simp: assms addrs_t_root)
next
  case False
  then show ?thesis using assms [of "root t"] by (cases t) auto
qed

text \<open>A step that changes next pointers of the nodes in \<open>S\<close> and nothing else.\<close>

definition only_next :: "addr set \<Rightarrow> 'v mem \<Rightarrow> 'v mem \<Rightarrow> bool" where
  "only_next S m m' \<longleftrightarrow> cells m' = cells m \<and>
     (\<forall>x. nodes m' x = (nodes m x)\<lparr>n_next := n_next (nodes m' x)\<rparr>) \<and>
     (\<forall>x. x \<notin> S \<longrightarrow> nodes m' x = nodes m x)"

lemma only_next_refl [simp]: "only_next S m m"
  by (simp add: only_next_def)

lemma only_next_trans:
  assumes "only_next S m m1" and "only_next T m1 m2" and "S \<subseteq> U" and "T \<subseteq> U"
  shows "only_next U m m2"
proof -
  have "nodes m2 x = (nodes m x)\<lparr>n_next := n_next (nodes m2 x)\<rparr>" for x
  proof -
    have "nodes m2 x = (nodes m1 x)\<lparr>n_next := n_next (nodes m2 x)\<rparr>"
      "nodes m1 x = (nodes m x)\<lparr>n_next := n_next (nodes m1 x)\<rparr>"
      using assms(1,2) unfolding only_next_def by blast+
    then show ?thesis by (metis heap_node.update_convs(2) heap_node.surjective)
  qed
  moreover have "nodes m2 x = nodes m x" if "x \<notin> U" for x
    using assms that unfolding only_next_def by (metis subsetD)
  ultimately show ?thesis using assms unfolding only_next_def by metis
qed

lemma only_next_fields:
  assumes "only_next S m m'"
  shows "n_parent (nodes m' x) = n_parent (nodes m x)" "n_child (nodes m' x) = n_child (nodes m x)"
    "n_degree (nodes m' x) = n_degree (nodes m x)" "n_value (nodes m' x) = n_value (nodes m x)"
    "n_ref (nodes m' x) = n_ref (nodes m x)"
  using assms unfolding only_next_def
  by (metis heap_node.select_convs heap_node.surjective heap_node.update_convs(2))+

lemma only_next_same: "only_next S m m' \<Longrightarrow> x \<notin> S \<Longrightarrow> nodes m' x = nodes m x"
  by (simp add: only_next_def)

lemma only_next_set_next: "only_next {p} m (set_next p v m)"
  by (simp add: only_next_def set_next_def upd_def)

text \<open>Changing next pointers of roots keeps the trees.\<close>

lemma only_next_tree_ok:
  assumes "only_next S m m'" and "S \<inter> set (addrs (kids t)) = {}"
  shows "tree_ok m' par t = tree_ok m par t"
proof (cases "n_parent (nodes m (root t)) = par")
  case True
  have "nodes m' x = nodes m x" if "x \<in> set (addrs (kids t))" for x
    using only_next_same [OF assms(1), of x] assms(2) that by blast
  then show ?thesis
    by (intro tree_ok_cong) (use True only_next_fields [OF assms(1)] in auto)
next
  case False
  then show ?thesis using only_next_fields(1) [OF assms(1)] by (cases t) auto
qed

section \<open>Merging root lists\<close>

fun merge_f :: "tree list \<Rightarrow> tree list \<Rightarrow> tree list" where
  "merge_f [] us = us"
| "merge_f ts [] = ts"
| "merge_f (t # ts) (u # us) =
     (if deg t < deg u then t # merge_f ts (u # us) else u # merge_f (t # ts) us)"

definition read_pos :: "'v mem \<Rightarrow> addr option \<Rightarrow> addr option \<Rightarrow> addr option" where
  "read_pos m head pos = (case pos of None \<Rightarrow> head | Some p \<Rightarrow> n_next (nodes m p))"

lemma write_pos_props:
  assumes "write_pos m head pos v = (m1, head1)"
  shows "only_next (set_option pos) m m1" and "read_pos m1 head1 pos = v"
    and "pos \<noteq> None \<Longrightarrow> head1 = head"
  using assms only_next_set_next
  by (auto simp: write_pos_def read_pos_def set_next_def upd_def only_next_def split: option.splits)

lemma mset_merge_f: "mset (merge_f ts us) = mset ts + mset us"
  by (induction ts us rule: merge_f.induct) auto

lemma set_merge_f: "set (merge_f ts us) = set ts \<union> set us"
  using mset_merge_f [of ts us] by (metis set_mset_mset set_mset_union)

lemma write_pos_chain:
  assumes "write_pos m head pos v = (m1, head1)" and "chain m p as" and "set_option pos \<inter> set as = {}"
  shows "chain m1 p as"
proof -
  have "n_next (nodes m1 x) = n_next (nodes m x)" if "x \<in> set as" for x
  proof -
    have "x \<notin> set_option pos" using assms(3) that by blast
    then show ?thesis using only_next_same [OF write_pos_props(1) [OF assms(1)]] by simp
  qed
  then show ?thesis using assms(2) chain_cong [of as m1 m p] by simp
qed

text \<open>One round of the loop: \<open>x\<close> is linked in and its next pointer is the place to go on.\<close>

lemma merge_step:
  assumes w: "write_pos m head pos (Some x) = (m1, head1)"
    and rest: "chain m' (read_pos m' head' (Some x)) as" "head' = head1" "only_next ({x} \<union> R) m1 m'"
    and fresh: "set_option pos \<inter> ({x} \<union> R) = {}"
  shows "chain m' (read_pos m' head' pos) (x # as) \<and> (pos \<noteq> None \<longrightarrow> head' = head) \<and>
    only_next (set_option pos \<union> ({x} \<union> R)) m m'"
proof -
  note wp = write_pos_props [OF w]
  have "read_pos m' head' pos = read_pos m1 head1 pos"
    using rest(2) only_next_same [OF rest(3)] fresh by (cases pos) (auto simp: read_pos_def)
  moreover have "only_next (set_option pos \<union> ({x} \<union> R)) m m'"
    by (rule only_next_trans [OF wp(1) rest(3)]) auto
  ultimately show ?thesis using rest wp by (auto simp: read_pos_def)
qed

lemma merge_loop_ok:
  assumes "chain m a (map root ts)" and "chain m b (map root us)"
    and "distinct (map root ts @ map root us)" and "set_option pos \<inter> (root ` (set ts \<union> set us)) = {}"
    and "\<forall>t \<in> set ts \<union> set us. n_degree (nodes m (root t)) = deg t"
  shows "\<exists>m' head'. merge_loop m head pos a b = Some (m', head') \<and>
    chain m' (read_pos m' head' pos) (map root (merge_f ts us)) \<and> (pos \<noteq> None \<longrightarrow> head' = head) \<and>
    only_next (set_option pos \<union> root ` (set ts \<union> set us)) m m'"
  using assms
proof (induction ts us arbitrary: m head pos a b rule: merge_f.induct)
  case (1 us)
  obtain m1 head1 where w: "write_pos m head pos b = (m1, head1)" by fastforce
  note wp = write_pos_props [OF w]
  have "chain m1 b (map root us)" using 1 by (intro write_pos_chain [OF w]) auto
  moreover have "merge_loop m head pos a b = Some (m1, head1)"
    using 1(1) w by (subst merge_loop.simps) simp
  moreover have "only_next (set_option pos \<union> root ` (set [] \<union> set us)) m m1"
    using only_next_trans [OF only_next_refl wp(1)] by blast
  ultimately show ?case using wp(2,3) by auto
next
  case (2 t ts)
  obtain m1 head1 where w: "write_pos m head pos a = (m1, head1)" by fastforce
  note wp = write_pos_props [OF w]
  have "chain m1 a (map root (t # ts))" using 2 by (intro write_pos_chain [OF w]) auto
  moreover have "merge_loop m head pos a b = Some (m1, head1)"
    using 2(1,2) w by (subst merge_loop.simps) simp
  moreover have "only_next (set_option pos \<union> root ` (set (t # ts) \<union> set [])) m m1"
    using only_next_trans [OF only_next_refl wp(1)] by blast
  ultimately show ?case using wp(2,3) by auto
next
  case (3 t ts u us)
  let ?x = "root t" and ?y = "root u"
  have ab: "a = Some ?x" "b = Some ?y" using 3(3,4) by simp_all
  have degs: "n_degree (nodes m ?x) = deg t" "n_degree (nodes m ?y) = deg u" using 3(7) by auto
  show ?case
  proof (cases "deg t < deg u")
    case True
    obtain m1 head1 where w: "write_pos m head pos (Some ?x) = (m1, head1)" by fastforce
    note fld = only_next_fields [OF write_pos_props(1) [OF w]]
    have nxt: "n_next (nodes m1 ?x) = n_next (nodes m ?x)"
      using only_next_same [OF write_pos_props(1) [OF w]] 3(6) by auto
    have "\<exists>m' head'. merge_loop m1 head1 (Some ?x) (n_next (nodes m1 ?x)) b = Some (m', head') \<and>
        chain m' (read_pos m' head' (Some ?x)) (map root (merge_f ts (u # us))) \<and>
        (Some ?x \<noteq> None \<longrightarrow> head' = head1) \<and>
        only_next (set_option (Some ?x) \<union> root ` (set ts \<union> set (u # us))) m1 m'"
    proof (rule 3(1) [OF True])
      show "chain m1 (n_next (nodes m1 ?x)) (map root ts)"
        unfolding nxt using 3(3,6) by (intro write_pos_chain [OF w]) auto
      show "chain m1 b (map root (u # us))" using 3(4,6) by (intro write_pos_chain [OF w]) auto
    qed (use 3(5,7) fld in auto)
    then obtain m' head' where run: "merge_loop m1 head1 (Some ?x) (n_next (nodes m1 ?x)) b = Some (m', head')"
      and rest: "chain m' (read_pos m' head' (Some ?x)) (map root (merge_f ts (u # us)))" "head' = head1"
        "only_next ({?x} \<union> root ` (set ts \<union> set (u # us))) m1 m'" by auto
    have "merge_loop m head pos a b = Some (m', head')"
      using run w True ab degs by (subst merge_loop.simps) simp
    moreover note merge_step [OF w rest] 
    moreover have "{?x} \<union> root ` (set ts \<union> set (u # us)) = root ` (set (t # ts) \<union> set (u # us))" by auto
    ultimately show ?thesis using 3(6) True by auto
  next
    case False
    obtain m1 head1 where w: "write_pos m head pos (Some ?y) = (m1, head1)" by fastforce
    note fld = only_next_fields [OF write_pos_props(1) [OF w]]
    have nxt: "n_next (nodes m1 ?y) = n_next (nodes m ?y)"
      using only_next_same [OF write_pos_props(1) [OF w]] 3(6) by auto
    have "\<exists>m' head'. merge_loop m1 head1 (Some ?y) a (n_next (nodes m1 ?y)) = Some (m', head') \<and>
        chain m' (read_pos m' head' (Some ?y)) (map root (merge_f (t # ts) us)) \<and>
        (Some ?y \<noteq> None \<longrightarrow> head' = head1) \<and>
        only_next (set_option (Some ?y) \<union> root ` (set (t # ts) \<union> set us)) m1 m'"
    proof (rule 3(2) [OF False])
      show "chain m1 (n_next (nodes m1 ?y)) (map root us)"
        unfolding nxt using 3(4,6) by (intro write_pos_chain [OF w]) auto
      show "chain m1 a (map root (t # ts))" using 3(3,6) by (intro write_pos_chain [OF w]) auto
    qed (use 3(5,7) fld in auto)
    then obtain m' head' where run: "merge_loop m1 head1 (Some ?y) a (n_next (nodes m1 ?y)) = Some (m', head')"
      and rest: "chain m' (read_pos m' head' (Some ?y)) (map root (merge_f (t # ts) us))" "head' = head1"
        "only_next ({?y} \<union> root ` (set (t # ts) \<union> set us)) m1 m'" by auto
    have "merge_loop m head pos a b = Some (m', head')"
      using run w False ab degs by (subst merge_loop.simps) simp
    moreover note merge_step [OF w rest]
    moreover have "{?y} \<union> root ` (set (t # ts) \<union> set us) = root ` (set (t # ts) \<union> set (u # us))" by auto
    ultimately show ?thesis using 3(6) False by (auto simp: insert_commute)
  qed
qed


section \<open>Reversing a list of children\<close>

text \<open>A step that changes parent and next pointers of the nodes in \<open>S\<close>.\<close>

definition relink :: "addr set \<Rightarrow> 'v mem \<Rightarrow> 'v mem \<Rightarrow> bool" where
  "relink S m m' \<longleftrightarrow> cells m' = cells m \<and>
     (\<forall>x. n_child (nodes m' x) = n_child (nodes m x) \<and> n_degree (nodes m' x) = n_degree (nodes m x) \<and>
          n_value (nodes m' x) = n_value (nodes m x) \<and> n_ref (nodes m' x) = n_ref (nodes m x)) \<and>
     (\<forall>x. x \<notin> S \<longrightarrow> nodes m' x = nodes m x)"

lemma relink_trans:
  "relink S m m1 \<Longrightarrow> relink T m1 m2 \<Longrightarrow> S \<subseteq> U \<Longrightarrow> T \<subseteq> U \<Longrightarrow> relink U m m2"
  unfolding relink_def by (metis subsetD)

lemma reverse_loop_ok:
  assumes "chain m (Some x) (x # as)" and "chain m tail bs" and "distinct (x # as @ bs)"
    and "n_parent (nodes m x) = None"
  shows "\<exists>m' r. reverse_loop m tail x = Some (m', r) \<and> chain m' r (rev as @ x # bs) \<and>
    (\<forall>y \<in> set (x # as). n_parent (nodes m' y) = None) \<and> relink (set (x # as)) m m'"
  using assms
proof (induction as arbitrary: m tail x bs)
  case Nil
  have "chain (set_next x tail m) tail bs = chain m tail bs"
    by (rule chain_cong) (use Nil in \<open>auto simp: set_next_def upd_def\<close>)
  then show ?case using Nil
    by (subst reverse_loop.simps) (auto simp: set_next_def upd_def relink_def)
next
  case (Cons y as)
  let ?m = "set_parent y None (set_next x tail m)"
  have same: "n_next (nodes ?m z) = n_next (nodes m z)" if "z \<noteq> x" for z
    using that by (simp add: set_parent_def set_next_def upd_def)
  have "chain ?m (n_next (nodes m y)) as = chain m (n_next (nodes m y)) as"
    and "chain ?m tail bs = chain m tail bs"
    by (rule chain_cong; rule same; use Cons.prems(3) in force)+
  then have "\<exists>m' r. reverse_loop ?m (Some x) y = Some (m', r) \<and> chain m' r (rev as @ y # x # bs) \<and>
      (\<forall>z \<in> set (y # as). n_parent (nodes m' z) = None) \<and> relink (set (y # as)) ?m m'"
    using Cons.prems same [of y]
    by (intro Cons.IH) (auto simp: set_parent_def set_next_def upd_def)
  then obtain m' r where run: "reverse_loop ?m (Some x) y = Some (m', r)" "chain m' r (rev as @ y # x # bs)"
    and par: "\<forall>z \<in> set (y # as). n_parent (nodes m' z) = None" and rl: "relink (set (y # as)) ?m m'" by blast
  have "relink (set (x # y # as)) m m'"
    by (rule relink_trans [OF _ rl, of "{x, y}"])
      (auto simp: relink_def set_parent_def set_next_def upd_def)
  moreover have "n_parent (nodes m' x) = None"
    using rl Cons.prems(3,4) by (auto simp: relink_def set_parent_def set_next_def upd_def)
  moreover have "reverse_loop m tail x = Some (m', r)"
    using Cons.prems(1) run(1) by (subst reverse_loop.simps) simp
  ultimately show ?case using run(2) par by auto
qed

lemma relink_tree_ok:
  assumes "relink S m m'" and "S \<inter> set (addrs (kids t)) = {}" and "tree_ok m par t"
    and "n_parent (nodes m' (root t)) = par'"
  shows "tree_ok m' par' t"
proof -
  have "nodes m' x = nodes m x" if "x \<in> set (addrs (kids t))" for x
    using assms(1,2) that by (auto simp: relink_def)
  moreover have "n_parent (nodes m (root t)) = par" using assms(3) by (cases t) simp
  ultimately have "tree_ok m' par' t = tree_ok m par t"
    using assms(1,4) by (intro tree_ok_cong) (auto simp: relink_def)
  then show ?thesis using assms(3) by simp
qed

lemma distinct_addrs_t: "distinct (addrs ts) \<Longrightarrow> t \<in> set ts \<Longrightarrow> distinct (addrs_t t)"
  by (induction ts) auto

lemma disjoint_trees:
  "distinct (addrs ts) \<Longrightarrow> t \<in> set ts \<Longrightarrow> u \<in> set ts \<Longrightarrow> t \<noteq> u \<Longrightarrow>
   set (addrs_t t) \<inter> set (addrs_t u) = {}"
proof (induction ts)
  case (Cons w ws)
  have "set (addrs_t v) \<subseteq> set (addrs ws)" if "v \<in> set ws" for v
    using that by (auto simp: set_addrs)
  moreover have "set (addrs_t w) \<inter> set (addrs ws) = {}" using Cons.prems(1) by simp
  ultimately show ?case using Cons by auto
qed simp

lemma kids_disjoint_roots:
  assumes "distinct (addrs ts)" and "t \<in> set ts"
  shows "root ` set ts \<inter> set (addrs (kids t)) = {}"
proof -
  have "root u \<notin> set (addrs (kids t))" if "u \<in> set ts" for u
  proof (cases "u = t")
    case True
    then show ?thesis using distinct_addrs_t [OF assms] by (simp add: addrs_t_root)
  next
    case False
    then have "root u \<notin> set (addrs_t t)"
      using disjoint_trees [OF assms(1,2) that] root_in_addrs [of u] by blast
    then show ?thesis by (simp add: addrs_t_root)
  qed
  then show ?thesis by blast
qed

lemma heap_reverse_ok:
  assumes "chain m p (map root ts)" and "\<forall>t \<in> set ts. tree_ok m par t" and "distinct (addrs ts)"
  shows "\<exists>m' r. heap_reverse m p = Some (m', r) \<and> forest m' r (rev ts) \<and> relink (root ` set ts) m m'"
proof (cases ts)
  case Nil
  then show ?thesis using assms by (auto simp: heap_reverse_def forest_def relink_def)
next
  case (Cons t us)
  let ?m = "set_parent (root t) None m"
  have "chain ?m q as = chain m q as" for q as
    by (rule chain_cong) (simp add: set_parent_def upd_def)
  then obtain m' r where run: "reverse_loop ?m None (root t) = Some (m', r)"
      "chain m' r (rev (map root us) @ [root t])"
    and par: "\<forall>y \<in> set (map root ts). n_parent (nodes m' y) = None" and rl: "relink (set (map root ts)) ?m m'"
    using reverse_loop_ok [of ?m "root t" "map root us" None "[]"] assms(1) Cons distinct_roots [OF assms(3)]
    by (auto simp: set_parent_def upd_def)
  have rl: "relink (root ` set ts) m m'"
    by (rule relink_trans [OF _ rl, of "{root t}"]) (auto simp: Cons relink_def set_parent_def upd_def)
  have "tree_ok m' None u" if "u \<in> set ts" for u
    using assms(2) that par kids_disjoint_roots [OF assms(3) that]
    by (intro relink_tree_ok [OF rl]) auto
  then show ?thesis using run rl assms(1) by (auto simp: heap_reverse_def forest_def Cons rev_map)
qed


section \<open>Segments of a root list\<close>

fun lseg :: "'v mem \<Rightarrow> addr option \<Rightarrow> addr list \<Rightarrow> addr option \<Rightarrow> bool" where
  "lseg m p [] q \<longleftrightarrow> p = q"
| "lseg m p (a # as) q \<longleftrightarrow> p = Some a \<and> lseg m (n_next (nodes m a)) as q"

lemma chain_split:
  "chain m p (as @ b # bs) \<longleftrightarrow> lseg m p as (Some b) \<and> chain m (n_next (nodes m b)) bs"
  by (induction as arbitrary: p) auto

lemma lseg_snoc: "lseg m p (as @ [b]) q \<longleftrightarrow> lseg m p as (Some b) \<and> n_next (nodes m b) = q"
  by (induction as arbitrary: p) auto

lemma lseg_chain: "lseg m p as q \<Longrightarrow> chain m q bs \<Longrightarrow> chain m p (as @ bs)"
  by (induction as arbitrary: p) auto

lemma lseg_cong:
  "(\<And>a. a \<in> set as \<Longrightarrow> n_next (nodes m' a) = n_next (nodes m a)) \<Longrightarrow> lseg m' p as q = lseg m p as q"
  by (induction as arbitrary: p) auto

text \<open>The predecessor as the code keeps it, and what writing through it does.\<close>

definition prev_of_list :: "addr list \<Rightarrow> addr option" where
  "prev_of_list as = (if as = [] then None else Some (last as))"

lemma prev_simps [simp]: "prev_of_list [] = None" "prev_of_list (as @ [a]) = Some a"
  by (simp_all add: prev_of_list_def)

lemma lseg_write:
  assumes "lseg m p as q" and "distinct as" and "write_pos m p (prev_of_list as) v = (m1, p1)"
  shows "lseg m1 p1 as v" and "only_next (set as) m m1"
proof -
  have "lseg m1 p1 as v \<and> only_next (set as) m m1"
  proof (cases as rule: rev_cases)
    case Nil
    then show ?thesis using assms by (simp add: write_pos_def)
  next
    case (snoc bs b)
    have m1: "m1 = set_next b v m" "p1 = p" using assms(3) by (simp_all add: write_pos_def snoc)
    have "lseg m1 p bs (Some b) = lseg m p bs (Some b)"
      by (rule lseg_cong) (use assms(2) in \<open>auto simp: snoc m1 set_next_def upd_def\<close>)
    moreover have "only_next (set as) m m1"
      unfolding m1 by (rule only_next_trans [OF only_next_refl only_next_set_next]) (auto simp: snoc)
    ultimately show ?thesis using assms(1) by (auto simp: snoc lseg_snoc m1 set_next_def upd_def)
  qed
  then show "lseg m1 p1 as v" "only_next (set as) m m1" by simp_all
qed

section \<open>Linking and the union of root lists\<close>

text \<open>A step that keeps values and references, and all of the nodes outside \<open>S\<close>.\<close>

definition frame_on :: "addr set \<Rightarrow> 'v mem \<Rightarrow> 'v mem \<Rightarrow> bool" where
  "frame_on S m m' \<longleftrightarrow> cells m' = cells m \<and>
     (\<forall>x. n_value (nodes m' x) = n_value (nodes m x) \<and> n_ref (nodes m' x) = n_ref (nodes m x)) \<and>
     (\<forall>x. x \<notin> S \<longrightarrow> nodes m' x = nodes m x)"

lemma frame_on_refl [simp]: "frame_on S m m"
  by (simp add: frame_on_def)

lemma frame_on_trans:
  "frame_on S m m1 \<Longrightarrow> frame_on T m1 m2 \<Longrightarrow> S \<subseteq> U \<Longrightarrow> T \<subseteq> U \<Longrightarrow> frame_on U m m2"
  unfolding frame_on_def by (metis subsetD)

lemma only_next_frame:
  assumes "only_next S m m'"
  shows "frame_on S m m'"
proof -
  have "cells m' = cells m" using assms unfolding only_next_def by (elim conjE)
  then show ?thesis
    unfolding frame_on_def using only_next_fields(4,5) [OF assms] only_next_same [OF assms] by blast
qed

lemma relink_frame: "relink S m m' \<Longrightarrow> frame_on S m m'"
  by (auto simp: frame_on_def relink_def)

lemma frame_on_same: "frame_on S m m' \<Longrightarrow> x \<notin> S \<Longrightarrow> nodes m' x = nodes m x"
  by (simp add: frame_on_def)

lemma frame_on_value: "frame_on S m m' \<Longrightarrow> n_value (nodes m' x) = n_value (nodes m x)"
  by (simp add: frame_on_def)

definition link_f :: "tree \<Rightarrow> tree \<Rightarrow> tree" where
  "link_f r c = Node (root r) (c # kids r)"

lemma link_f_simps [simp]: "root (link_f r c) = root r" "kids (link_f r c) = c # kids r"
  "deg (link_f r c) = deg r + 1"
  by (simp_all add: link_f_def deg_def)

lemma heap_link_frame: "frame_on {r, c} m (heap_link r c m)"
  by (auto simp: heap_link_def Let_def set_parent_def set_next_def set_child_def set_degree_def
      upd_def frame_on_def)

lemma heap_link_next: "r \<noteq> c \<Longrightarrow> n_next (nodes (heap_link r c m) r) = n_next (nodes m r)"
  by (simp add: heap_link_def Let_def set_parent_def set_next_def set_child_def set_degree_def upd_def)

lemma heap_link_ok:
  assumes r: "tree_ok m None r" and c: "tree_ok m None c" and "distinct (addrs [r, c])"
  shows "tree_ok (heap_link (root r) (root c) m) None (link_f r c)"
proof -
  let ?m = "heap_link (root r) (root c) m"
  obtain a ks where r': "r = Node a ks" by (cases r)
  obtain b js where c': "c = Node b js" by (cases c)
  have ab: "a \<noteq> b" and fresh: "a \<notin> set (addrs ks)" "b \<notin> set (addrs ks)" "a \<notin> set (addrs js)" "b \<notin> set (addrs js)"
    using assms(3) by (auto simp: r' c')
  have na: "n_parent (nodes ?m a) = None" "n_child (nodes ?m a) = Some b"
      "n_degree (nodes ?m a) = of_nat (length ks) + 1"
    and nb: "n_parent (nodes ?m b) = Some a" "n_child (nodes ?m b) = n_child (nodes m b)"
      "n_degree (nodes ?m b) = n_degree (nodes m b)" "n_next (nodes ?m b) = n_child (nodes m a)"
    using ab r by (simp_all add: heap_link_def Let_def set_parent_def set_next_def set_child_def
        set_degree_def upd_def r' c')
  have same: "nodes ?m x = nodes m x" if "x \<in> set (addrs ks) \<union> set (addrs js)" for x
  proof -
    have "x \<noteq> a" "x \<noteq> b" using that fresh by blast+
    then show ?thesis using frame_on_same [OF heap_link_frame, of x a b m] by (simp add: r' c')
  qed
  have "tree_ok ?m (Some a) c = tree_ok m None c"
    using c nb same by (intro tree_ok_cong) (simp_all add: c')
  moreover have "tree_ok ?m (Some a) k = tree_ok m (Some a) k" if "k \<in> set ks" for k
    using that same by (intro tree_ok_frame) (auto simp: set_addrs)
  moreover have "chain ?m p (map root ks) = chain m p (map root ks)" for p
    using same roots_in_addrs [of ks] by (intro chain_cong) (metis UnI1 imageE list.set_map subsetD image_eqI)
  ultimately show ?thesis using r c ab na nb by (simp add: link_f_def r' c')
qed


text \<open>Linking two roots that are already out of each other's way in the list.\<close>

lemma heap_link_list:
  assumes "lseg m p (map root d) (Some (root r))" and "chain m (n_next (nodes m (root r))) (map root rest)"
    and ok: "\<forall>t \<in> set (d @ r # c # rest). tree_ok m None t" and dist: "distinct (addrs (d @ r # c # rest))"
  defines "m2 \<equiv> heap_link (root r) (root c) m"
  shows "chain m2 p (map root (d @ link_f r c # rest))"
    and "\<forall>t \<in> set (d @ link_f r c # rest). tree_ok m2 None t"
proof -
  have same: "nodes m2 x = nodes m x" if "x \<in> set (addrs d) \<union> set (addrs rest)" for x
  proof -
    have "x \<notin> {root r, root c}" using that dist by (auto simp: addrs_t_root)
    then show ?thesis unfolding m2_def by (rule frame_on_same [OF heap_link_frame])
  qed
  have roots: "root t \<in> set (addrs d) \<union> set (addrs rest)" if "t \<in> set d \<union> set rest" for t
    using that roots_in_addrs by fastforce
  have "root r \<noteq> root c" using dist by (auto simp: addrs_t_root)
  then have "n_next (nodes m2 (root r)) = n_next (nodes m (root r))"
    unfolding m2_def by (rule heap_link_next)
  moreover have "lseg m2 p (map root d) q = lseg m p (map root d) q" for q
    by (rule lseg_cong) (use same roots in auto)
  moreover have "chain m2 q (map root rest) = chain m q (map root rest)" for q
    by (rule chain_cong) (use same roots in auto)
  ultimately show "chain m2 p (map root (d @ link_f r c # rest))"
    using assms(1,2) by (simp add: chain_split)
  have "tree_ok m2 None t" if "t \<in> set d \<union> set rest" for t
  proof -
    have "tree_ok m2 None t = tree_ok m None t"
      by (rule tree_ok_frame) (use that same in \<open>auto simp: set_addrs\<close>)
    then show ?thesis using ok that by auto
  qed
  moreover have "tree_ok m2 None (link_f r c)"
    unfolding m2_def by (rule heap_link_ok) (use ok dist in auto)
  ultimately show "\<forall>t \<in> set (d @ link_f r c # rest). tree_ok m2 None t" by auto
qed

text \<open>The two ways in which the loop combines neighbours of the same degree.\<close>

lemma link_next:
  assumes ch: "chain m p (map root (d @ x # n # rest))" and ok: "\<forall>t \<in> set (d @ x # n # rest). tree_ok m None t"
    and dist: "distinct (addrs (d @ x # n # rest))"
    and m2: "m2 = heap_link (root x) (root n) (set_next (root x) (n_next (nodes m (root n))) m)"
  shows "chain m2 p (map root (d @ link_f x n # rest)) \<and> (\<forall>t \<in> set (d @ link_f x n # rest). tree_ok m2 None t) \<and>
    frame_on (root ` set (d @ x # n # rest)) m m2"
proof -
  let ?m1 = "set_next (root x) (n_next (nodes m (root n))) m"
  have on: "only_next {root x} m ?m1" by (rule only_next_set_next)
  have same: "n_next (nodes ?m1 y) = n_next (nodes m y)" if "y \<noteq> root x" for y
    using that by (simp add: set_next_def upd_def)
  have x: "root x \<notin> root ` set d" "root x \<notin> root ` set rest" using distinct_roots [OF dist] by auto
  have "lseg ?m1 p (map root d) (Some (root x)) = lseg m p (map root d) (Some (root x))"
    by (rule lseg_cong, rule same) (use x in \<open>metis list.set_map\<close>)
  moreover have "chain ?m1 q (map root rest) = chain m q (map root rest)" for q
    by (rule chain_cong, rule same) (use x in \<open>metis list.set_map\<close>)
  moreover have "n_next (nodes ?m1 (root x)) = n_next (nodes m (root n))" by (simp add: set_next_def upd_def)
  moreover have "\<forall>t \<in> set (d @ x # n # rest). tree_ok ?m1 None t"
    using ok kids_disjoint_roots [OF dist] by (intro ballI, subst only_next_tree_ok [OF on]) auto
  moreover have "frame_on (root ` set (d @ x # n # rest)) m m2"
    unfolding m2 by (rule frame_on_trans [OF only_next_frame [OF on] heap_link_frame]) auto
  ultimately show ?thesis
    using ch dist heap_link_list [of ?m1 p d x rest n] unfolding m2 by (simp add: chain_split)
qed

lemma link_prev:
  assumes ch: "chain m p (map root (d @ x # n # rest))" and ok: "\<forall>t \<in> set (d @ x # n # rest). tree_ok m None t"
    and dist: "distinct (addrs (d @ x # n # rest))"
    and w: "write_pos m p (prev_of_list (map root d)) (Some (root n)) = (m1, p1)"
    and m2: "m2 = heap_link (root n) (root x) m1"
  shows "chain m2 p1 (map root (d @ link_f n x # rest)) \<and> (\<forall>t \<in> set (d @ link_f n x # rest). tree_ok m2 None t) \<and>
    frame_on (root ` set (d @ x # n # rest)) m m2"
proof -
  have "lseg m p (map root d) (Some (root x))" using ch by (simp add: chain_split)
  from lseg_write [OF this _ w] have seg: "lseg m1 p1 (map root d) (Some (root n))"
    and on: "only_next (root ` set d) m m1"
    using distinct_roots [OF dist] by simp_all
  have same: "n_next (nodes m1 y) = n_next (nodes m y)" if "y \<notin> root ` set d" for y
    using only_next_same [OF on that] by simp
  have "chain m1 q (map root rest) = chain m q (map root rest)" for q
    by (rule chain_cong, rule same) (use distinct_roots [OF dist] in auto)
  moreover have "n_next (nodes m1 (root n)) = n_next (nodes m (root n))"
    by (rule same) (use distinct_roots [OF dist] in auto)
  moreover have "\<forall>t \<in> set (d @ n # x # rest). tree_ok m1 None t"
    using ok kids_disjoint_roots [OF dist] by (intro ballI, subst only_next_tree_ok [OF on]) auto
  moreover have "distinct (addrs (d @ n # x # rest))" using dist by auto
  moreover have "frame_on (root ` set (d @ x # n # rest)) m m2"
    unfolding m2 by (rule frame_on_trans [OF only_next_frame [OF on] heap_link_frame]) auto
  ultimately show ?thesis
    using ch seg heap_link_list [of m1 p1 d n rest x] unfolding m2 by (simp add: chain_split)
qed

lemma distinct_link:
  assumes "distinct (addrs (d @ x # n # rest))"
  shows "distinct (addrs (d @ link_f x n # rest))" and "distinct (addrs (d @ link_f n x # rest))"
  using assms by (auto simp: addrs_t_root)

text \<open>The functional union: \<open>d\<close> is done, \<open>x\<close> is the tree under consideration.\<close>

fun union_f :: "(addr \<Rightarrow> addr \<Rightarrow> bool) \<Rightarrow> tree list \<Rightarrow> tree \<Rightarrow> tree list \<Rightarrow> tree list" where
  "union_f bt d x [] = d @ [x]"
| "union_f bt d x (n # rest) =
     (if deg x \<noteq> deg n \<or> (rest \<noteq> [] \<and> deg (hd rest) = deg x) then union_f bt (d @ [x]) n rest
      else if bt (root x) (root n) then union_f bt d (link_f x n) rest
      else union_f bt d (link_f n x) rest)"

definition better :: "('v \<Rightarrow> 'v \<Rightarrow> bool) \<Rightarrow> 'v mem \<Rightarrow> addr \<Rightarrow> addr \<Rightarrow> bool" where
  "better hp m a b \<longleftrightarrow> hp (n_value (nodes m a)) (n_value (nodes m b))"

lemma better_frame: "frame_on S m m' \<Longrightarrow> better hp m' = better hp m"
  by (intro ext) (simp add: better_def frame_on_value)

lemma union_loop_ok:
  assumes "chain m h1 (map root (d @ x # rest))" and "\<forall>t \<in> set (d @ x # rest). tree_ok m None t"
    and "distinct (addrs (d @ x # rest))"
  shows "\<exists>m' h'. union_loop hp m h1 (prev_of_list (map root d)) (root x) (n_next (nodes m (root x))) =
      Some (m', h') \<and> forest m' h' (union_f (better hp m) d x rest) \<and>
    frame_on (root ` set (d @ x # rest)) m m'"
  using assms
proof (induction rest arbitrary: d x m h1)
  case Nil
  then have "n_next (nodes m (root x)) = None" by (simp add: chain_split)
  then show ?case using Nil by (subst union_loop.simps) (simp add: forest_def)
next
  case (Cons n rest)
  let ?prev = "prev_of_list (map root d)" and ?x = "root x" and ?n = "root n"
  have nx: "n_next (nodes m ?x) = Some ?n" and tail: "chain m (n_next (nodes m ?n)) (map root rest)"
    using Cons.prems(1) by (simp_all add: chain_split)
  have degs: "n_degree (nodes m (root t)) = deg t" if "t \<in> set (d @ x # n # rest)" for t
    using Cons.prems(2) that tree_ok_deg by blast
  have skip: "(case n_next (nodes m ?n) of None \<Rightarrow> False | Some nn \<Rightarrow> n_degree (nodes m nn) = n_degree (nodes m ?x)) \<longleftrightarrow>
      rest \<noteq> [] \<and> deg (hd rest) = deg x"
    using tail degs by (cases rest) auto
  note step = union_loop.simps [of hp m h1 ?prev ?x "n_next (nodes m ?x)", unfolded nx option.case skip]
  note step = step [unfolded degs [of x, simplified] degs [of n, simplified]]
  consider (skip) "deg x \<noteq> deg n \<or> (rest \<noteq> [] \<and> deg (hd rest) = deg x)"
    | (left) "\<not> (deg x \<noteq> deg n \<or> (rest \<noteq> [] \<and> deg (hd rest) = deg x))" "better hp m ?x ?n"
    | (right) "\<not> (deg x \<noteq> deg n \<or> (rest \<noteq> [] \<and> deg (hd rest) = deg x))" "\<not> better hp m ?x ?n"
    by blast
  then show ?case
  proof cases
    case skip
    then have "union_loop hp m h1 ?prev ?x (n_next (nodes m ?x)) =
        union_loop hp m h1 (prev_of_list (map root (d @ [x]))) ?n (n_next (nodes m ?n))"
      unfolding step nx by (simp add: prev_of_list_def)
    then show ?thesis
      using Cons.IH [of m h1 "d @ [x]" n] Cons.prems skip by (simp add: Un_commute insert_commute)
  next
    case left
    define m2 where "m2 = heap_link ?x ?n (set_next ?x (n_next (nodes m ?n)) m)"
    note ln = link_next [OF Cons.prems m2_def]
    then obtain m' h' where "union_loop hp m2 h1 ?prev ?x (n_next (nodes m2 ?x)) = Some (m', h')"
      and "forest m' h' (union_f (better hp m) d (link_f x n) rest)"
      and fr': "frame_on (root ` set (d @ link_f x n # rest)) m2 m'"
      using Cons.IH [of m2 h1 d "link_f x n"] distinct_link [OF Cons.prems(3)] better_frame [of _ m m2 hp]
      by auto
    moreover have "frame_on (root ` set (d @ x # n # rest)) m m'"
      by (rule frame_on_trans [OF ln [THEN conjunct2, THEN conjunct2] fr']) auto
    moreover have "hp (n_value (nodes m ?x)) (n_value (nodes m ?n))" using left by (simp add: better_def)
    ultimately show ?thesis using left by (simp add: step nx Let_def if_not_P m2_def)
  next
    case right
    obtain m1 head1 where w: "write_pos m h1 ?prev (Some ?n) = (m1, head1)" by fastforce
    define m2 where "m2 = heap_link ?n ?x m1"
    note lp = link_prev [OF Cons.prems w m2_def]
    then obtain m' h' where "union_loop hp m2 head1 ?prev ?n (n_next (nodes m2 ?n)) = Some (m', h')"
      and "forest m' h' (union_f (better hp m) d (link_f n x) rest)"
      and fr': "frame_on (root ` set (d @ link_f n x # rest)) m2 m'"
      using Cons.IH [of m2 head1 d "link_f n x"] distinct_link [OF Cons.prems(3)] better_frame [of _ m m2 hp]
      by auto
    moreover have "frame_on (root ` set (d @ x # n # rest)) m m'"
      by (rule frame_on_trans [OF lp [THEN conjunct2, THEN conjunct2] fr']) auto
    moreover have "\<not> hp (n_value (nodes m ?x)) (n_value (nodes m ?n))" using right by (simp add: better_def)
    ultimately show ?thesis using right w by (simp add: step nx Let_def if_not_P m2_def)
  qed
qed

text \<open>The whole of \<open>__heap_union\<close>.\<close>

fun union_lists :: "(addr \<Rightarrow> addr \<Rightarrow> bool) \<Rightarrow> tree list \<Rightarrow> tree list \<Rightarrow> tree list" where
  "union_lists bt ts us =
     (if us = [] then ts else if ts = [] then us
      else case merge_f ts us of [] \<Rightarrow> [] | x # rest \<Rightarrow> union_f bt [] x rest)"

declare union_lists.simps [simp del]

lemma heap_union_nodes_ok:
  assumes "forest m (h_head h) ts" and "forest m p us" and "distinct (addrs (ts @ us))"
  shows "\<exists>m' h'. heap_union_nodes hp m h p = Some (m', h') \<and>
    forest m' (h_head h') (union_lists (better hp m) ts us) \<and> h_min h' = h_min h \<and>
    frame_on (root ` set (ts @ us)) m m'"
proof -
  consider (no_us) "us = []" | (no_ts) "us \<noteq> []" "ts = []" | (both) t ts' u us' where "ts = t # ts'" "us = u # us'"
    by (metis list.exhaust)
  then show ?thesis
  proof cases
    case both
    have "\<exists>m1 h1. merge_loop m None None (h_head h) p = Some (m1, h1) \<and>
        chain m1 (read_pos m1 h1 None) (map root (merge_f ts us)) \<and> (None \<noteq> (None :: addr option) \<longrightarrow> h1 = None) \<and>
        only_next (set_option None \<union> root ` (set ts \<union> set us)) m m1"
      by (rule merge_loop_ok)
        (use assms distinct_roots [OF assms(3)] tree_ok_deg in \<open>auto simp: forest_def\<close>)
    then obtain m1 h1 where mg: "heap_merge m (h_head h) p = Some (m1, h1)"
      and ch: "chain m1 h1 (map root (merge_f ts us))" and on: "only_next (root ` set (ts @ us)) m m1"
      by (auto simp: heap_merge_def read_pos_def)
    have ok: "\<forall>t \<in> set (merge_f ts us). tree_ok m1 None t"
      using assms(1,2) kids_disjoint_roots [OF assms(3)]
      by (intro ballI, subst only_next_tree_ok [OF on]) (auto simp: set_merge_f forest_def)
    obtain x rest where mf: "merge_f ts us = x # rest"
      using both set_merge_f [of ts us] by (cases "merge_f ts us") auto
    have "mset (addrs (merge_f ts us)) = mset (addrs (ts @ us))"
      unfolding mset_addrs mset_merge_f by simp
    from distinct_addrs_mset [OF this] have "distinct (addrs (merge_f ts us))" using assms(3) by simp
    then obtain m2 h2 where ul: "union_loop hp m1 h1 None (root x) (n_next (nodes m1 (root x))) = Some (m2, h2)"
      and fo: "forest m2 h2 (union_f (better hp m) [] x rest)" and fr: "frame_on (root ` set (x # rest)) m1 m2"
      using union_loop_ok [of m1 h1 "[]" x rest hp] ch ok better_frame [OF only_next_frame [OF on], of hp]
      by (auto simp: mf)
    have "frame_on (root ` set (ts @ us)) m m2"
      by (rule frame_on_trans [OF only_next_frame [OF on] fr]) (use mf set_merge_f [of ts us] in auto)
    moreover have "heap_union_nodes hp m h p = Some (m2, h\<lparr>h_head := h2\<rparr>)"
    proof -
      have "h1 = Some (root x)" using ch by (simp add: mf)
      then show ?thesis using assms(1,2) both mg ul by (simp add: heap_union_nodes_def forest_def)
    qed
    moreover have "union_lists (better hp m) ts us = union_f (better hp m) [] x rest"
      unfolding union_lists.simps mf using both by simp
    ultimately show ?thesis using fo by (simp del: set_append)
  qed (use assms in \<open>auto simp: heap_union_nodes_def forest_def union_lists.simps split: option.splits\<close>)
qed


section \<open>The minimal root\<close>

text \<open>\<open>pick\<close> splits the list at the best root so far: before it, itself, after it.\<close>

fun pick :: "(addr \<Rightarrow> addr \<Rightarrow> bool) \<Rightarrow> tree list \<Rightarrow> tree \<Rightarrow> tree list \<Rightarrow> tree list \<Rightarrow>
    tree list \<times> tree \<times> tree list" where
  "pick bt ds t es [] = (ds, t, es)"
| "pick bt ds t es (u # us) =
     (if bt (root u) (root t) then pick bt (ds @ t # es) u [] us else pick bt ds t (es @ [u]) us)"

lemma pick_split: "pick bt ds t es us = (ds', t', es') \<Longrightarrow> ds' @ t' # es' = ds @ t # es @ us"
  by (induction bt ds t es us rule: pick.induct) (auto split: if_splits)

lemma min_loop_ok:
  assumes "chain m cur (map root us)" and "pick (better hp m) ds t es us = (ds', t', es')"
  shows "min_loop hp m (prev_of_list (map root ds)) (root t) (root (last (t # es))) cur =
    Some (prev_of_list (map root ds'), root t')"
  using assms
proof (induction us arbitrary: ds t es cur)
  case Nil
  then show ?case by (subst min_loop.simps) simp
next
  case (Cons u us)
  have "prev_of_list (map root (ds @ t # es)) = Some (root (last (t # es)))"
    by (simp add: prev_of_list_def last_map)
  then show ?case
    using Cons.IH [of "n_next (nodes m (root u))" "ds @ t # es" u "[]"]
      Cons.IH [of "n_next (nodes m (root u))" ds t "es @ [u]"] Cons.prems
    by (subst min_loop.simps) (auto simp: better_def split: if_splits)
qed

lemma heap_min_ok:
  assumes "forest m (h_head h) (t # ts)" and "pick (better hp m) [] t [] ts = (ds, x, es)"
  shows "heap_min hp m h = Some (prev_of_list (map root ds), Some (root x))"
proof -
  have "chain m (n_next (nodes m (root t))) (map root ts)" "h_head h = Some (root t)"
    using assms(1) by (simp_all add: forest_def)
  with min_loop_ok [OF this(1) assms(2)] show ?thesis by (simp add: heap_min_def)
qed

lemma forest_frame:
  assumes "\<And>a. a \<in> set (addrs ts) \<Longrightarrow> nodes m' a = nodes m a"
  shows "forest m' p ts = forest m p ts"
proof -
  have "tree_ok m' None t = tree_ok m None t" if "t \<in> set ts" for t
    using that assms by (intro tree_ok_frame) (auto simp: set_addrs)
  moreover have "chain m' p (map root ts) = chain m p (map root ts)"
    using assms roots_in_addrs [of ts] by (intro chain_cong) auto
  ultimately show ?thesis by (simp add: forest_def)
qed

lemma forest_frame_on:
  "frame_on S m m' \<Longrightarrow> S \<inter> set (addrs ts) = {} \<Longrightarrow> forest m' p ts = forest m p ts"
  by (rule forest_frame) (auto simp: frame_on_def)

text \<open>Taking the root \<open>x\<close> out of the list.\<close>

lemma unlink_root:
  assumes fo: "forest m p (ds @ x # es)" and dist: "distinct (addrs (ds @ x # es))"
    and w: "write_pos m p (prev_of_list (map root ds)) (n_next (nodes m (root x))) = (m1, p1)"
  shows "forest m1 p1 (ds @ es)" and "tree_ok m1 None x" and "only_next (root ` set ds) m m1"
    and "n_child (nodes m1 (root x)) = n_child (nodes m (root x))"
proof -
  have seg: "lseg m p (map root ds) (Some (root x))" and ch: "chain m (n_next (nodes m (root x))) (map root es)"
    using fo by (simp_all add: forest_def chain_split)
  have seg1: "lseg m1 p1 (map root ds) (n_next (nodes m (root x)))" and on: "only_next (root ` set ds) m m1"
    using lseg_write [OF seg _ w] distinct_roots [OF dist] by simp_all
  show "only_next (root ` set ds) m m1" by (rule on)
  have "chain m1 q (map root es) = chain m q (map root es)" for q
  proof (rule chain_cong)
    fix a assume "a \<in> set (map root es)"
    then have "a \<notin> root ` set ds" using distinct_roots [OF dist] by auto
    then show "n_next (nodes m1 a) = n_next (nodes m a)" using only_next_same [OF on] by simp
  qed
  then have "chain m1 p1 (map root (ds @ es))" using lseg_chain [OF seg1] ch by simp
  moreover have ok: "\<forall>t \<in> set (ds @ x # es). tree_ok m1 None t"
    using fo kids_disjoint_roots [OF dist]
    by (intro ballI, subst only_next_tree_ok [OF on]) (auto simp: forest_def)
  ultimately show "forest m1 p1 (ds @ es)" "tree_ok m1 None x" by (simp_all add: forest_def)
  show "n_child (nodes m1 (root x)) = n_child (nodes m (root x))" by (rule only_next_fields [OF on])
qed

text \<open>Its children become a root list, which is joined with the rest.\<close>

lemma dissolve_root:
  assumes fo: "forest m1 (h_head h) ts" and x: "tree_ok m1 None x" and dist: "distinct (addrs_t x @ addrs ts)"
  shows "\<exists>m2 r m3 h3. heap_reverse m1 (n_child (nodes m1 (root x))) = Some (m2, r) \<and>
    heap_union_nodes hp m2 h r = Some (m3, h3) \<and>
    forest m3 (h_head h3) (union_lists (better hp m1) ts (rev (kids x))) \<and> h_min h3 = h_min h \<and>
    frame_on (set (addrs (kids x)) \<union> set (addrs ts)) m1 m3"
proof -
  obtain a ks where x': "x = Node a ks" by (cases x)
  have dk: "distinct (addrs ks)" "set (addrs ks) \<inter> set (addrs ts) = {}" "distinct (addrs ts)"
    using dist by (auto simp: x')
  have "chain m1 (n_child (nodes m1 a)) (map root ks)" "\<forall>t \<in> set ks. tree_ok m1 (Some a) t"
    using x by (simp_all add: x')
  from heap_reverse_ok [OF this dk(1)] obtain m2 r
    where rv: "heap_reverse m1 (n_child (nodes m1 a)) = Some (m2, r)" "forest m2 r (rev ks)"
      and rl: "relink (root ` set ks) m1 m2" by blast
  have fr: "frame_on (root ` set ks) m1 m2" by (rule relink_frame [OF rl])
  have "forest m2 (h_head h) ts"
    using fo forest_frame_on [OF fr, of ts "h_head h"] dk(2) roots_in_addrs [of ks] by auto
  moreover have "mset (addrs (rev ks)) = mset (addrs ks)" by (simp add: mset_addrs)
  then have "distinct (addrs (rev ks))" "set (addrs (rev ks)) = set (addrs ks)"
    using dk(1) distinct_addrs_mset [of "rev ks" ks] mset_eq_setD by auto
  moreover from this have "distinct (addrs (ts @ rev ks))" using dk by auto
  ultimately obtain m3 h3 where un: "heap_union_nodes hp m2 h r = Some (m3, h3)"
    "forest m3 (h_head h3) (union_lists (better hp m2) ts (rev ks))" "h_min h3 = h_min h"
    and fr3: "frame_on (root ` set (ts @ rev ks)) m2 m3"
    using heap_union_nodes_ok [of m2 h ts r "rev ks" hp] rv(2) by blast
  have "frame_on (set (addrs ks) \<union> set (addrs ts)) m1 m3"
    by (rule frame_on_trans [OF fr fr3]) (use roots_in_addrs [of ks] roots_in_addrs [of ts] in auto)
  then show ?thesis using rv(1) un better_frame [OF fr, of hp] by (auto simp: x')
qed

lemma heap_extract_min_ok:
  assumes fo: "forest m (h_head h) ts" and dist: "distinct (addrs ts)"
  shows "if ts = [] then heap_extract_min hp m h = Some (m, h, None)
    else case pick (better hp m) [] (hd ts) [] (tl ts) of (ds, x, es) \<Rightarrow>
      \<exists>m' h'. heap_extract_min hp m h = Some (m', h', Some (root x)) \<and>
        forest m' (h_head h') (union_lists (better hp m) (ds @ es) (rev (kids x))) \<and>
        h_min h' = h_min h \<and> frame_on (set (addrs ts)) m m'"
proof (cases ts)
  case Nil
  then show ?thesis using fo by (simp add: heap_extract_min_def heap_min_def forest_def)
next
  case (Cons t us)
  obtain ds x es where pk: "pick (better hp m) [] t [] us = (ds, x, es)" by (metis prod.exhaust)
  have ts: "ts = ds @ x # es" using pick_split [OF pk] Cons by simp
  have hm: "heap_min hp m h = Some (prev_of_list (map root ds), Some (root x))"
    using heap_min_ok [OF _ pk] fo Cons by simp
  obtain m1 p1 where w: "write_pos m (h_head h) (prev_of_list (map root ds)) (n_next (nodes m (root x))) = (m1, p1)"
    by fastforce
  note un = unlink_root [OF fo [unfolded ts] dist [unfolded ts] w]
  have "distinct (addrs_t x @ addrs (ds @ es))" using dist by (auto simp: ts)
  then obtain m2 r m3 h3 where "heap_reverse m1 (n_child (nodes m1 (root x))) = Some (m2, r)"
    "heap_union_nodes hp m2 (h\<lparr>h_head := p1\<rparr>) r = Some (m3, h3)"
    and res: "forest m3 (h_head h3) (union_lists (better hp m) (ds @ es) (rev (kids x)))" "h_min h3 = h_min h"
    and fr: "frame_on (set (addrs (kids x)) \<union> set (addrs (ds @ es))) m1 m3"
    using dissolve_root [of m1 "h\<lparr>h_head := p1\<rparr>" "ds @ es" x hp] un(1,2)
      better_frame [OF only_next_frame [OF un(3)], of hp] by auto
  then have "heap_extract_min hp m h = Some (m3, h3, Some (root x))"
    by (simp add: heap_extract_min_def hm w)
  moreover have "frame_on (set (addrs ts)) m m3"
    by (rule frame_on_trans [OF only_next_frame [OF un(3)] fr])
      (use roots_in_addrs [of ds] in \<open>auto simp: ts addrs_t_root\<close>)
  ultimately show ?thesis using res Cons pk by simp
qed

end
