(* ===== verification/Heap_Binomial.thy ===== *)
theory Heap_Binomial
  imports Heap_Forest
begin

text \<open>
  The invariant of binomial heaps on the functional trees: binomial shape, strictly
  ascending ranks of the roots, heap order with respect to a comparison of nodes.
  The functional operations of \<^verbatim>\<open>Heap_Forest\<close> keep it, and the picked root is minimal.
\<close>

section \<open>Shape\<close>

abbreviation rank :: "tree \<Rightarrow> nat" where
  "rank t \<equiv> length (kids t)"

fun btree :: "tree \<Rightarrow> bool" where
  "btree (Node a ks) \<longleftrightarrow> map rank ks = rev [0..<length ks] \<and> (\<forall>k \<in> set ks. btree k)"

definition asc :: "tree list \<Rightarrow> bool" where
  "asc ts \<longleftrightarrow> sorted_wrt (<) (map rank ts)"

lemma sum_powers: "sum_list (map (\<lambda>i. 2 ^ i) [0..<n]) = (2 ^ n - 1 :: nat)"
  by (induction n) auto

text \<open>A tree of rank \<open>k\<close> has \<open>2 ^ k\<close> nodes.\<close>

lemma btree_size: "btree t \<Longrightarrow> length (addrs_t t) = 2 ^ rank t"
proof (induction t)
  case (Node a ks)
  have "length (addrs ks) = sum_list (map (\<lambda>k. length (addrs_t k)) ks)"
    by (simp add: addrs_def length_concat o_def)
  also have "map (\<lambda>k. length (addrs_t k)) ks = map (\<lambda>k. 2 ^ rank k) ks"
    using Node by (intro map_cong) auto
  also have "\<dots> = map (\<lambda>i. 2 ^ i) (map rank ks)" by simp
  also have "map rank ks = rev [0..<length ks]" using Node.prems by simp
  also have "sum_list (map (\<lambda>i. 2 ^ i) (rev [0..<length ks])) = sum_list (map (\<lambda>i. 2 ^ i :: nat) [0..<length ks])"
    by (simp add: rev_map [symmetric] del: upt_Suc)
  finally show ?case by (simp add: sum_powers)
qed

text \<open>
  Addresses have 64 bits, so a rank is at most 64 and its 32-bit representation in the
  degree field is exact.
\<close>

definition small :: "tree list \<Rightarrow> bool" where
  "small ts \<longleftrightarrow> (\<forall>t \<in> set ts. btree t) \<and> length (addrs ts) \<le> 2 ^ 64"

lemma distinct_small:
  assumes "distinct (addrs ts)" and "\<forall>t \<in> set ts. btree t"
  shows "small ts"
proof -
  have "length (addrs ts) = card (set (addrs ts))" using assms(1) by (simp add: distinct_card)
  also have "\<dots> \<le> card (UNIV :: addr set)" by (rule card_mono) simp_all
  finally show ?thesis using assms(2) by (simp add: small_def card_word)
qed

lemma small_rank:
  assumes "small ts" and "t \<in> set ts"
  shows "rank t \<le> 64"
proof -
  have "(2 :: nat) ^ rank t = length (addrs_t t)" using assms btree_size by (simp add: small_def)
  also have "\<dots> \<le> length (addrs ts)"
    using assms(2) by (induction ts) auto
  also have "\<dots> \<le> 2 ^ 64" using assms(1) by (simp only: small_def)
  finally show ?thesis by (rule power_le_imp_le_exp [rotated]) simp
qed

lemma small_deg:
  assumes "small ts" and "t \<in> set ts" and "u \<in> set ts"
  shows "deg t < deg u \<longleftrightarrow> rank t < rank u" and "deg t = deg u \<longleftrightarrow> rank t = rank u"
proof -
  have "unat (of_nat n :: u32) = n" if "n \<le> 64" for n
    using that by (simp add: unat_of_nat)
  then have *: "unat (deg t) = rank t" "unat (deg u) = rank u"
    using small_rank [OF assms(1)] assms(2,3) by (simp_all add: deg_def)
  show "deg t < deg u \<longleftrightarrow> rank t < rank u" by (simp add: word_less_nat_alt *)
  show "deg t = deg u \<longleftrightarrow> rank t = rank u" by (simp add: word_unat_eq_iff *)
qed

lemma small_mset: "mset ts = mset us \<Longrightarrow> small ts \<longleftrightarrow> small us"
proof -
  assume eq: "mset ts = mset us"
  then have "mset (addrs ts) = mset (addrs us)" by (simp add: mset_addrs)
  then have "length (addrs ts) = length (addrs us)" by (rule mset_eq_length)
  moreover have "set ts = set us" using eq by (rule mset_eq_setD)
  ultimately show ?thesis by (simp add: small_def)
qed

lemma small_append: "small (ts @ us) \<Longrightarrow> small ts \<and> small us"
  by (auto simp: small_def)

section \<open>Merging keeps the ranks sorted\<close>

lemma merge_f_sorted:
  "small (ts @ us) \<Longrightarrow> sorted (map rank ts) \<Longrightarrow> sorted (map rank us) \<Longrightarrow> sorted (map rank (merge_f ts us))"
proof (induction ts us rule: merge_f.induct)
  case (3 t ts u us)
  have cmp: "deg t < deg u \<longleftrightarrow> rank t < rank u" by (rule small_deg [OF 3(3)]) simp_all
  have "small (ts @ u # us)" "small ((t # ts) @ us)" using 3(3) by (auto simp: small_def)
  then show ?case using 3(1,2,4,5) by (auto simp: cmp set_merge_f)
qed auto

lemma count_ranks: "count_list (map rank ts) k = count (image_mset rank (mset ts)) k"
  by (induction ts) auto

lemma asc_count: "asc ts \<Longrightarrow> count_list (map rank ts) k \<le> 1"
  by (induction ts) (auto simp: asc_def count_list_0_iff)

lemma merge_f_count:
  "asc ts \<Longrightarrow> asc us \<Longrightarrow> count_list (map rank (merge_f ts us)) k \<le> 2"
  using asc_count [of ts k] asc_count [of us k] by (simp add: count_ranks mset_merge_f)


section \<open>The union restores distinct ranks\<close>

text \<open>
  The invariant of the loop: at most three trees of the rank of the current one are left
  (two and a carry), at most two of every higher rank, and what is done is ascending.
\<close>

definition carry :: "tree list \<Rightarrow> tree \<Rightarrow> tree list \<Rightarrow> bool" where
  "carry d x rest \<longleftrightarrow> asc d \<and> sorted (map rank (x # rest)) \<and>
     (\<forall>k > rank x. count_list (map rank rest) k \<le> 2) \<and>
     count_list (map rank rest) (rank x) \<le> 2 \<and>
     (d \<noteq> [] \<longrightarrow> rank (last d) < rank x \<or>
       (rank (last d) = rank x \<and> count_list (map rank rest) (rank x) = 1))"

lemma asc_snoc: "asc (d @ [x]) \<longleftrightarrow> asc d \<and> (d \<noteq> [] \<longrightarrow> rank (last d) < rank x)"
proof (induction d rule: rev_induct)
  case (snoc y d)
  show ?case by (auto simp: asc_def sorted_wrt_append)
qed (simp add: asc_def)

lemma carry_count0:
  assumes "sorted (map rank (n # rest))" and "k < rank n"
  shows "count_list (map rank (n # rest)) k = 0"
  using assms by (auto simp: count_list_0_iff)

lemma carry_end: "carry d x [] \<Longrightarrow> asc (d @ [x])"
  by (auto simp: carry_def asc_snoc)

lemma carry_skip:
  assumes c: "carry d x (n # rest)"
    and "rank x \<noteq> rank n \<or> (rest \<noteq> [] \<and> rank (hd rest) = rank x)"
  shows "carry (d @ [x]) n rest"
proof (cases "rank x = rank n")
  case False
  then have lt: "rank x < rank n" and srt: "sorted (map rank (n # rest))" using c by (auto simp: carry_def)
  have cnt: "count_list (map rank (n # rest)) k \<le> 2" if "rank x < k" for k
    using c that unfolding carry_def by blast
  have "count_list (map rank (n # rest)) (rank x) = 0" using carry_count0 [OF srt lt] .
  then have "rank (last d) < rank x" if "d \<noteq> []" using c that unfolding carry_def by auto
  then have "asc (d @ [x])" using c by (auto simp: asc_snoc carry_def)
  moreover have "count_list (map rank rest) k \<le> 2" if "rank n \<le> k" for k
    using cnt [of k] lt that by (auto split: if_splits)
  ultimately show ?thesis using srt lt unfolding carry_def by auto
next
  case True
  then obtain r rest' where rest: "rest = r # rest'" "rank r = rank x" using assms(2) by (cases rest) auto
  have cnt: "count_list (map rank (n # rest)) (rank x) \<le> 2" using c unfolding carry_def by blast
  then have one: "count_list (map rank rest) (rank n) = 1" using True rest by auto
  then have "count_list (map rank (n # rest)) (rank x) = 2" using True by auto
  then have "rank (last d) < rank x" if "d \<noteq> []" using c that unfolding carry_def by auto
  then have "asc (d @ [x])" using c by (auto simp: asc_snoc carry_def)
  moreover have "count_list (map rank rest) k \<le> 2" if "rank n < k" for k
    using c that True unfolding carry_def by (auto split: if_splits)
  ultimately show ?thesis using c True one unfolding carry_def by auto
qed

lemma carry_link:
  assumes c: "carry d x (n # rest)" and eq: "rank x = rank n"
    and no: "\<not> (rest \<noteq> [] \<and> rank (hd rest) = rank x)" and rk: "rank y = Suc (rank x)"
  shows "carry d y rest"
proof -
  have srt: "sorted (map rank (n # rest))" using c by (auto simp: carry_def)
  then have above: "rank x < rank t" if "t \<in> set rest" for t
    using no eq that by (cases rest) (auto simp: less_le)
  have "count_list (map rank rest) k \<le> 2" if "rank x < k" for k
    using c that eq unfolding carry_def by (auto split: if_splits)
  then show ?thesis using c above srt eq rk unfolding carry_def by (auto simp: Suc_le_eq)
qed

text \<open>Heap order: no child beats its parent.\<close>

fun ordered :: "(addr \<Rightarrow> addr \<Rightarrow> bool) \<Rightarrow> tree \<Rightarrow> bool" where
  "ordered bt (Node a ks) \<longleftrightarrow> (\<forall>k \<in> set ks. \<not> bt (root k) a \<and> ordered bt k)"

lemma btree_link: "btree x \<Longrightarrow> btree n \<Longrightarrow> rank x = rank n \<Longrightarrow> btree (link_f x n)"
  by (cases x) (auto simp: link_f_def)

lemma ordered_link: "ordered bt x \<Longrightarrow> ordered bt n \<Longrightarrow> \<not> bt (root n) (root x) \<Longrightarrow> ordered bt (link_f x n)"
  by (cases x) (auto simp: link_f_def)

lemma mset_link: "mset (addrs_t (link_f x n)) = mset (addrs_t x) + mset (addrs_t n)"
  by (simp add: link_f_def addrs_t_root [of x])

lemma small_link:
  assumes "small (d @ x # n # rest)" and "rank x = rank n"
  shows "small (d @ link_f x n # rest)" and "small (d @ link_f n x # rest)"
proof -
  have "length (addrs_t (link_f x n)) = length (addrs_t x) + length (addrs_t n)" for x n
    using mset_link [of x n] by (metis size_mset size_union)
  then show "small (d @ link_f x n # rest)" "small (d @ link_f n x # rest)"
    using assms btree_link by (auto simp: small_def)
qed

theorem union_f_ok:
  assumes "carry d x rest" and "small (d @ x # rest)" and "\<forall>t \<in> set (d @ x # rest). ordered bt t"
    and asym: "\<And>a b. bt a b \<Longrightarrow> \<not> bt b a"
  shows "asc (union_f bt d x rest) \<and> small (union_f bt d x rest) \<and>
    (\<forall>t \<in> set (union_f bt d x rest). ordered bt t) \<and>
    mset (addrs (union_f bt d x rest)) = mset (addrs (d @ x # rest))"
  using assms(1-3)
proof (induction rest arbitrary: d x)
  case Nil
  then show ?case by (simp add: carry_end)
next
  case (Cons n rest)
  note c = Cons.prems(1) and sm = Cons.prems(2) and ord = Cons.prems(3)
  have dx: "deg x = deg n \<longleftrightarrow> rank x = rank n" by (rule small_deg [OF sm]) simp_all
  have dr: "rest \<noteq> [] \<and> deg (hd rest) = deg x \<longleftrightarrow> rest \<noteq> [] \<and> rank (hd rest) = rank x"
    using small_deg(2) [OF sm, of "hd rest" x] by auto
  show ?case
  proof (cases "deg x \<noteq> deg n \<or> (rest \<noteq> [] \<and> deg (hd rest) = deg x)")
    case True
    then have eq: "union_f bt d x (n # rest) = union_f bt (d @ [x]) n rest" by simp
    have "carry (d @ [x]) n rest" using carry_skip [OF c] True dx dr by blast
    then show ?thesis unfolding eq using Cons.IH [of "d @ [x]" n] sm ord by simp
  next
    case False
    then have rk: "rank x = rank n" and no: "\<not> (rest \<noteq> [] \<and> rank (hd rest) = rank x)" using dx dr by auto
    obtain y where eq: "union_f bt d x (n # rest) = union_f bt d y rest"
      and ordy: "ordered bt y" and smy: "small (d @ y # rest)" and cy: "carry d y rest"
      and my: "mset (addrs_t y) = mset (addrs_t x) + mset (addrs_t n)"
    proof (cases "bt (root x) (root n)")
      case True
      show ?thesis
      proof (rule that)
        show "union_f bt d x (n # rest) = union_f bt d (link_f x n) rest"
          unfolding union_f.simps if_not_P [OF False] if_P [OF True] ..
        show "ordered bt (link_f x n)" using ord asym [OF True] by (intro ordered_link) simp_all
      qed (rule small_link(1) [OF sm rk] carry_link [OF c rk no] mset_link; simp)+
    next
      case not_bt: False
      show ?thesis
      proof (rule that)
        show "union_f bt d x (n # rest) = union_f bt d (link_f n x) rest"
          unfolding union_f.simps if_not_P [OF False] if_not_P [OF not_bt] ..
        show "ordered bt (link_f n x)" using ord not_bt by (intro ordered_link) simp_all
        show "mset (addrs_t (link_f n x)) = mset (addrs_t x) + mset (addrs_t n)"
          by (simp add: mset_link)
      qed (rule small_link(2) [OF sm rk] carry_link [OF c rk no]; simp add: rk)+
    qed
    have "\<forall>t \<in> set (d @ y # rest). ordered bt t" using ordy ord by simp
    note IH = Cons.IH [OF cy smy this]
    have "mset (addrs (d @ y # rest)) = mset (addrs (d @ x # n # rest))" using my by simp
    with IH show ?thesis unfolding eq by (simp only:) simp
  qed
qed

text \<open>The invariant of a root list.\<close>

definition binom_heap :: "(addr \<Rightarrow> addr \<Rightarrow> bool) \<Rightarrow> tree list \<Rightarrow> bool" where
  "binom_heap bt ts \<longleftrightarrow> asc ts \<and> (\<forall>t \<in> set ts. btree t \<and> ordered bt t)"

lemma union_lists_ok:
  assumes "binom_heap bt ts" and "binom_heap bt us" and "distinct (addrs (ts @ us))"
    and asym: "\<And>a b. bt a b \<Longrightarrow> \<not> bt b a"
  shows "binom_heap bt (union_lists bt ts us) \<and>
    mset (addrs (union_lists bt ts us)) = mset (addrs (ts @ us))"
proof (cases "ts = [] \<or> us = []")
  case True
  then show ?thesis using assms by (auto simp: union_lists.simps)
next
  case False
  obtain x rest where mf: "merge_f ts us = x # rest"
    using False set_merge_f [of ts us] by (cases "merge_f ts us") auto
  have sm: "small (ts @ us)" using assms by (intro distinct_small) (auto simp: binom_heap_def)
  have "mset (merge_f ts us) = mset (ts @ us)" by (simp add: mset_merge_f)
  then have sm': "small (x # rest)" using sm small_mset unfolding mf by blast
  have srt: "sorted (map rank (x # rest))"
    using merge_f_sorted [OF sm] assms(1,2) strict_sorted_imp_sorted unfolding mf binom_heap_def asc_def by blast
  have cnt: "count_list (map rank (x # rest)) k \<le> 2" for k
    using merge_f_count [of ts us k] assms(1,2) by (simp add: mf binom_heap_def)
  have "count_list (map rank rest) k \<le> 2" for k
    using cnt [of k] by (auto split: if_splits)
  then have "carry [] x rest" using srt by (simp add: carry_def asc_def)
  moreover have "\<forall>t \<in> set (x # rest). ordered bt t"
    using assms(1,2) set_merge_f [of ts us] unfolding mf binom_heap_def by auto
  ultimately have un: "asc (union_f bt [] x rest) \<and> small (union_f bt [] x rest) \<and>
      (\<forall>t \<in> set (union_f bt [] x rest). ordered bt t) \<and> mset (addrs (union_f bt [] x rest)) = mset (addrs ([] @ x # rest))"
    by (intro union_f_ok) (use sm' asym in auto)
  have "union_lists bt ts us = union_f bt [] x rest" unfolding union_lists.simps mf using False by simp
  moreover have "mset (addrs (x # rest)) = mset (addrs (ts @ us))"
    unfolding mf [symmetric] mset_addrs mset_merge_f by simp
  ultimately show ?thesis using un unfolding binom_heap_def small_def by auto
qed

text \<open>The children of a tree, reversed, are a root list.\<close>

lemma binomial_kids:
  assumes "btree t" and "ordered bt t"
  shows "binom_heap bt (rev (kids t))"
proof (cases t)
  case (Node a ks)
  have "map rank (rev ks) = rev (map rank ks)" by (simp add: rev_map)
  also have "\<dots> = [0..<length ks]" using assms(1) Node by simp
  finally show ?thesis using assms Node by (simp add: binom_heap_def asc_def)
qed

lemma binomial_remove: "binom_heap bt (ds @ x # es) \<Longrightarrow> binom_heap bt (ds @ es)"
  by (auto simp: binom_heap_def asc_def sorted_wrt_append)

lemma binomial_single [simp]: "binom_heap bt [Node a []]"
  by (simp add: binom_heap_def asc_def)

lemma binomial_Nil [simp]: "binom_heap bt []"
  by (simp add: binom_heap_def asc_def)

section \<open>The minimum\<close>

text \<open>
  What a heap asks of its comparison function: a strict weak order.  This is the contract
  between the heap and the functions that use it.
\<close>

locale priority =
  fixes hp :: "'v \<Rightarrow> 'v \<Rightarrow> bool"
  assumes asym: "hp a b \<Longrightarrow> \<not> hp b a"
    and not_trans: "\<not> hp a b \<Longrightarrow> \<not> hp b c \<Longrightarrow> \<not> hp a c"
begin

lemma better_asym: "better hp m a b \<Longrightarrow> \<not> better hp m b a"
  by (simp add: better_def asym)

lemma better_trans: "\<not> better hp m a b \<Longrightarrow> \<not> better hp m b c \<Longrightarrow> \<not> better hp m a c"
  unfolding better_def by (rule not_trans)

lemma better_irrefl: "\<not> better hp m a a"
  using better_asym by blast

lemma ordered_root:
  "ordered (better hp m) t \<Longrightarrow> a \<in> set (addrs_t t) \<Longrightarrow> \<not> better hp m a (root t)"
proof (induction t)
  case (Node r ks)
  show ?case
  proof (cases "a = r")
    case False
    then obtain k where k: "k \<in> set ks" "a \<in> set (addrs_t k)"
      using Node.prems by (auto simp: set_addrs)
    then have "\<not> better hp m a (root k)" using Node by simp
    moreover have "\<not> better hp m (root k) r" using Node.prems k by simp
    ultimately show ?thesis by (simp add: better_trans)
  qed (simp add: better_irrefl)
qed

lemma pick_min:
  "pick (better hp m) ds t es us = (ds', t', es') \<Longrightarrow>
     \<forall>u \<in> set (ds @ t # es). \<not> better hp m (root u) (root t) \<Longrightarrow>
     \<forall>u \<in> set (ds' @ t' # es'). \<not> better hp m (root u) (root t')"
proof (induction us arbitrary: ds t es)
  case (Cons u us)
  show ?case
  proof (cases "better hp m (root u) (root t)")
    case True
    have "\<not> better hp m (root v) (root u)" if "v \<in> set (ds @ t # es)" for v
      using Cons.prems(2) that better_asym [OF True] better_trans by blast
    then have "\<forall>v \<in> set ((ds @ t # es) @ [u]). \<not> better hp m (root v) (root u)"
      using better_irrefl by auto
    then show ?thesis using Cons.IH [of "ds @ t # es" u "[]"] Cons.prems(1) True by simp
  next
    case False
    then show ?thesis using Cons.IH [of ds t "es @ [u]"] Cons.prems by simp
  qed
qed simp

lemma picked_is_min:
  assumes pk: "pick (better hp m) [] t [] us = (ds, x, es)" and "binom_heap (better hp m) (t # us)"
    and "a \<in> set (addrs (t # us))"
  shows "\<not> better hp m a (root x)"
proof -
  have eq: "t # us = ds @ x # es" using pick_split [OF pk] by simp
  then obtain u where u: "u \<in> set (ds @ x # es)" "a \<in> set (addrs_t u)"
    using assms(3) unfolding eq set_addrs by blast
  then have "ordered (better hp m) u" using assms(2) unfolding eq binom_heap_def by blast
  then have "\<not> better hp m a (root u)" using u(2) by (rule ordered_root)
  moreover have "\<not> better hp m (root u) (root x)"
    using pick_min [OF pk] u(1) better_irrefl by (metis append_Nil list.set(1,2) empty_iff insert_iff)
  ultimately show ?thesis by (rule better_trans)
qed

end

end
