(* ===== verification/Heap_Correct.thy ===== *)
theory Heap_Correct
  imports Heap_Binomial
begin

text \<open>
  The contract of the heap operations of \<^verbatim>\<open>include/heap.h\<close>.  The abstraction of a heap is
  the set of the addresses of its nodes, the cached minimum included; the operations return,
  keep the representation, change no node outside the heaps they work on and no value, and
  what is taken has no better node left behind.
\<close>

section \<open>The representation\<close>

definition rep :: "('v \<Rightarrow> 'v \<Rightarrow> bool) \<Rightarrow> 'v mem \<Rightarrow> heap \<Rightarrow> tree list \<Rightarrow> bool" where
  "rep hp m h ts \<longleftrightarrow> forest m (h_head h) ts \<and> distinct (addrs ts) \<and> binom_heap (better hp m) ts \<and>
     (\<forall>c. h_min h = Some c \<longrightarrow>
        c \<notin> set (addrs ts) \<and> (\<forall>a \<in> set (addrs ts). \<not> better hp m a c))"

definition is_heap :: "('v \<Rightarrow> 'v \<Rightarrow> bool) \<Rightarrow> 'v mem \<Rightarrow> heap \<Rightarrow> addr set \<Rightarrow> bool" where
  "is_heap hp m h A \<longleftrightarrow> (\<exists>ts. rep hp m h ts \<and> A = set_option (h_min h) \<union> set (addrs ts))"

lemma is_heap_init: "is_heap hp m heap_init {}"
  unfolding is_heap_def rep_def by (intro exI [of _ "[]"]) (simp add: heap_init_def forest_def)

lemma is_heap_empty: "is_heap hp m h A \<Longrightarrow> heap_empty h \<longleftrightarrow> A = {}"
proof -
  assume "is_heap hp m h A"
  then obtain ts where "forest m (h_head h) ts" "A = set_option (h_min h) \<union> set (addrs ts)"
    by (auto simp: is_heap_def rep_def)
  then show ?thesis by (cases ts) (auto simp: heap_empty_def forest_def addrs_t_root)
qed

lemma rep_frame:
  assumes "frame_on S m m'" and "S \<inter> set (addrs ts) = {}"
  shows "rep hp m' h ts = rep hp m h ts"
  using forest_frame_on [OF assms] better_frame [OF assms(1), of hp] by (simp add: rep_def)

lemma is_heap_frame:
  assumes "is_heap hp m h A" and "frame_on S m m'" and "S \<inter> A = {}"
  shows "is_heap hp m' h A"
proof -
  obtain ts where ts: "rep hp m h ts" "A = set_option (h_min h) \<union> set (addrs ts)"
    using assms(1) by (auto simp: is_heap_def)
  then have "rep hp m' h ts" using rep_frame [OF assms(2), of ts hp h] assms(3) by blast
  with ts(2) show ?thesis by (auto simp: is_heap_def)
qed

text \<open>Only the nodes of a heap matter to it.\<close>

lemma ordered_cong:
  "(\<And>a b. a \<in> set (addrs_t t) \<Longrightarrow> b \<in> set (addrs_t t) \<Longrightarrow> bt' a b = bt a b) \<Longrightarrow>
   ordered bt' t = ordered bt t"
proof (induction t)
  case (Node a ks)
  have "ordered bt' k = ordered bt k" if "k \<in> set ks" for k
    by (rule Node.IH [OF that]) (use Node.prems that in \<open>auto simp: set_addrs\<close>)
  moreover have "bt' (root k) a = bt (root k) a" if "k \<in> set ks" for k
  proof (rule Node.prems)
    show "root k \<in> set (addrs_t (Node a ks))"
      using roots_in_addrs [of ks] that by auto
  qed simp
  ultimately show ?case by simp
qed

lemma is_heap_same:
  assumes "is_heap hp m h A" and same: "\<And>a. a \<in> A \<Longrightarrow> nodes m' a = nodes m a"
  shows "is_heap hp m' h A"
proof -
  obtain ts where ts: "rep hp m h ts" and A: "A = set_option (h_min h) \<union> set (addrs ts)"
    using assms(1) by (auto simp: is_heap_def)
  have on: "nodes m' a = nodes m a" if "t \<in> set ts" "a \<in> set (addrs_t t)" for t a
    by (rule same) (use that in \<open>auto simp: A set_addrs\<close>)
  have "tree_ok m' None t = tree_ok m None t" if "t \<in> set ts" for t
    by (rule tree_ok_frame) (rule on [OF that])
  moreover have "chain m' p (map root ts) = chain m p (map root ts)" for p
    by (rule chain_cong) (auto simp: on)
  ultimately have "forest m' p ts = forest m p ts" for p by (simp add: forest_def)
  moreover have bt: "better hp m' a b = better hp m a b" if "a \<in> A" "b \<in> A" for a b
    using that by (simp add: better_def same)
  have "ordered (better hp m') t = ordered (better hp m) t" if "t \<in> set ts" for t
    by (rule ordered_cong) (use that in \<open>auto intro!: bt simp: A set_addrs\<close>)
  then have "binom_heap (better hp m') ts = binom_heap (better hp m) ts" by (simp add: binom_heap_def)
  ultimately have "rep hp m' h ts" using ts bt A by (auto simp: rep_def)
  then show ?thesis using A by (auto simp: is_heap_def)
qed

lemma reset_node_frame: "frame_on {a} m (reset_node a m)"
  by (simp add: frame_on_def reset_node_def upd_def)

lemma reset_node_forest: "forest (reset_node a m) (Some a) [Node a []]"
  by (simp add: forest_def reset_node_def upd_def)

lemma set_degree_frame: "frame_on {a} m (set_degree a d m)"
  by (simp add: frame_on_def set_degree_def upd_def)

section \<open>Operations\<close>

context priority
begin

lemma union_nodes_rep:
  assumes "forest m (h_head h) ts" and "forest m p us" and "distinct (addrs (ts @ us))"
    and "binom_heap (better hp m) ts" and "binom_heap (better hp m) us"
  shows "\<exists>m' h' vs. heap_union_nodes hp m h p = Some (m', h') \<and> forest m' (h_head h') vs \<and>
    binom_heap (better hp m') vs \<and> distinct (addrs vs) \<and> set (addrs vs) = set (addrs (ts @ us)) \<and>
    h_min h' = h_min h \<and> frame_on (set (addrs (ts @ us))) m m'"
proof -
  let ?vs = "union_lists (better hp m) ts us"
  obtain m' h' where run: "heap_union_nodes hp m h p = Some (m', h')" "forest m' (h_head h') ?vs" "h_min h' = h_min h"
    and fr: "frame_on (root ` set (ts @ us)) m m'"
    using heap_union_nodes_ok [OF assms(1-3), of hp] by blast
  have un: "binom_heap (better hp m) ?vs" "mset (addrs ?vs) = mset (addrs (ts @ us))"
    using union_lists_ok [OF assms(4,5,3)] better_asym by blast+
  have "distinct (addrs ?vs)" "set (addrs ?vs) = set (addrs (ts @ us))"
    using assms(3) distinct_addrs_mset [OF un(2)] mset_eq_setD [OF un(2)] by simp_all
  moreover have "frame_on (set (addrs (ts @ us))) m m'"
    by (rule frame_on_trans [OF frame_on_refl [of "{}"] fr]) (use roots_in_addrs in auto)
  ultimately show ?thesis using run un(1) better_frame [OF fr, of hp] by metis
qed

lemma insert_root_rep:
  assumes "forest m (h_head h) ts" and "distinct (addrs ts)" and "binom_heap (better hp m) ts" and "a \<notin> set (addrs ts)"
  shows "\<exists>m' h' vs. heap_union_nodes hp (reset_node a m) h (Some a) = Some (m', h') \<and> forest m' (h_head h') vs \<and>
    binom_heap (better hp m') vs \<and> distinct (addrs vs) \<and> set (addrs vs) = insert a (set (addrs ts)) \<and>
    h_min h' = h_min h \<and> frame_on (insert a (set (addrs ts))) m m'"
proof -
  let ?m = "reset_node a m"
  have "forest ?m (h_head h) ts"
    using assms(1,4) forest_frame_on [OF reset_node_frame, of a ts m "h_head h"] by simp
  moreover have "binom_heap (better hp ?m) ts"
    using assms(3) better_frame [OF reset_node_frame, of hp a m] by simp
  ultimately obtain m' h' vs where run: "heap_union_nodes hp ?m h (Some a) = Some (m', h')"
    "forest m' (h_head h') vs" "binom_heap (better hp m') vs" "distinct (addrs vs)"
    "set (addrs vs) = set (addrs (ts @ [Node a []]))" "h_min h' = h_min h"
    and fr: "frame_on (set (addrs (ts @ [Node a []]))) ?m m'"
    using union_nodes_rep [of ?m h ts "Some a" "[Node a []]"] reset_node_forest [of a m] assms(2,4) by auto
  have "frame_on (insert a (set (addrs ts))) m m'"
    by (rule frame_on_trans [OF reset_node_frame fr]) auto
  with run show ?thesis by auto
qed

lemma heap_insert_rep:
  assumes rep: "rep hp m h ts" and a: "a \<notin> set_option (h_min h) \<union> set (addrs ts)"
  shows "\<exists>m' h' vs. heap_insert hp m h a = Some (m', h') \<and> rep hp m' h' vs \<and>
    set_option (h_min h') \<union> set (addrs vs) = insert a (set_option (h_min h) \<union> set (addrs ts)) \<and>
    frame_on (insert a (set_option (h_min h) \<union> set (addrs ts))) m m' \<and>
    (h_min h = None \<longrightarrow> h_min h' = None)"
proof -
  note r = rep [unfolded rep_def]
  show ?thesis
  proof (cases "\<exists>c. h_min h = Some c \<and> better hp m a c")
    case False
    obtain m' h' vs where run: "heap_union_nodes hp (reset_node a m) h (Some a) = Some (m', h')"
      "forest m' (h_head h') vs" "binom_heap (better hp m') vs" "distinct (addrs vs)"
      "set (addrs vs) = insert a (set (addrs ts))" "h_min h' = h_min h"
      and fr: "frame_on (insert a (set (addrs ts))) m m'"
      using insert_root_rep [of m h ts a] r a by auto
    have v: "n_value (nodes (reset_node a m) x) = n_value (nodes m x)" for x
      using frame_on_value [OF reset_node_frame] .
    have "heap_insert hp m h a = Some (m', h')"
      using run(1) False by (auto simp: heap_insert_def Let_def better_def v split: option.splits)
    moreover have "rep hp m' h' vs"
      using run r a False better_frame [OF fr, of hp] by (auto simp: rep_def)
    moreover have "frame_on (insert a (set_option (h_min h) \<union> set (addrs ts))) m m'"
      by (rule frame_on_trans [OF frame_on_refl [of "{}"] fr]) auto
    ultimately show ?thesis using run by auto
  next
    case True
    then obtain c where c: "h_min h = Some c" "better hp m a c" by blast
    let ?m = "reset_node a m"
    have fr0: "frame_on {a} m ?m" by (rule reset_node_frame)
    have "forest ?m (h_head h) ts" "binom_heap (better hp ?m) ts"
      using r a forest_frame_on [OF fr0, of ts "h_head h"] better_frame [OF fr0, of hp] by auto
    then obtain m' h' vs where run: "heap_union_nodes hp (reset_node c ?m) h (Some c) = Some (m', h')"
      "forest m' (h_head h') vs" "binom_heap (better hp m') vs" "distinct (addrs vs)"
      "set (addrs vs) = insert c (set (addrs ts))" "h_min h' = h_min h"
      and fr: "frame_on (insert c (set (addrs ts))) ?m m'"
      using insert_root_rep [of ?m h ts c] r c by auto
    have fr': "frame_on (insert a (insert c (set (addrs ts)))) m m'"
      by (rule frame_on_trans [OF fr0 fr]) auto
    have "heap_insert hp m h a = Some (m', h'\<lparr>h_min := Some a\<rparr>)"
      using run(1) c frame_on_value [OF fr0] by (simp add: heap_insert_def Let_def better_def)
    moreover have "\<not> better hp m x a" if "x \<in> insert c (set (addrs ts))" for x
      using r c that better_asym better_trans by blast
    then have "rep hp m' (h'\<lparr>h_min := Some a\<rparr>) vs"
      using run a c better_frame [OF fr', of hp] by (auto simp: rep_def)
    ultimately show ?thesis using run c fr' by auto
  qed
qed

lemma insert_ok:
  assumes "is_heap hp m h A" and "a \<notin> A"
  shows "\<exists>m' h'. heap_insert hp m h a = Some (m', h') \<and> is_heap hp m' h' (insert a A) \<and>
    frame_on (insert a A) m m' \<and> (h_min h = None \<longrightarrow> h_min h' = None)"
  using assms heap_insert_rep unfolding is_heap_def by metis

lemma uncache_ok:
  assumes "is_heap hp m h A"
  shows "\<exists>m' h'. uncache_min hp m h = Some (m', h') \<and> is_heap hp m' h' A \<and> frame_on A m m' \<and>
    h_min h' = None"
proof (cases "h_min h")
  case None
  then show ?thesis using assms by (auto simp: uncache_min_def)
next
  case (Some c)
  let ?h = "h\<lparr>h_min := None\<rparr>"
  obtain ts where ts: "rep hp m h ts" "A = insert c (set (addrs ts))"
    using assms Some by (auto simp: is_heap_def)
  then have "c \<notin> set (addrs ts)" and "is_heap hp m ?h (set (addrs ts))"
    using Some by (auto simp: rep_def is_heap_def intro!: exI [of _ ts])
  from insert_ok [OF this(2,1)] show ?thesis using ts(2) Some by (simp add: uncache_min_def)
qed

text \<open>Two heaps that share no node are joined; the second one is left empty.\<close>

lemma union_ok:
  assumes hA: "is_heap hp m h A" and gB: "is_heap hp m g B" and disj: "A \<inter> B = {}"
  shows "\<exists>m' h' g'. heap_union hp m h g = Some (m', h', g') \<and> is_heap hp m' h' (A \<union> B) \<and>
    is_heap hp m' g' {} \<and> frame_on (A \<union> B) m m'"
proof -
  obtain m1 h1 where u1: "uncache_min hp m h = Some (m1, h1)" "is_heap hp m1 h1 A" "h_min h1 = None"
    and f1: "frame_on A m m1"
    using uncache_ok [OF hA] by blast
  obtain m2 g1 where u2: "uncache_min hp m1 g = Some (m2, g1)" "is_heap hp m2 g1 B" "h_min g1 = None"
    and f2: "frame_on B m1 m2"
    using uncache_ok [OF is_heap_frame [OF gB f1 disj]] by blast
  have "is_heap hp m2 h1 A" by (rule is_heap_frame [OF u1(2) f2]) (use disj in blast)
  then obtain ts where ts: "rep hp m2 h1 ts" "A = set (addrs ts)" using u1(3) by (auto simp: is_heap_def)
  obtain us where us: "rep hp m2 g1 us" "B = set (addrs us)" using u2(2,3) by (auto simp: is_heap_def)
  obtain m3 h3 vs where u3: "heap_union_nodes hp m2 h1 (h_head g1) = Some (m3, h3)"
    "forest m3 (h_head h3) vs" "binom_heap (better hp m3) vs" "distinct (addrs vs)"
    "set (addrs vs) = A \<union> B" "h_min h3 = None" and f3: "frame_on (A \<union> B) m2 m3"
    using union_nodes_rep [of m2 h1 ts "h_head g1" us] ts us disj u1(3) unfolding rep_def by auto
  have "is_heap hp m3 h3 (A \<union> B)"
    using u3 unfolding is_heap_def rep_def by (intro exI [of _ vs]) simp
  moreover have "is_heap hp m3 (g1\<lparr>h_head := None\<rparr>) {}"
    using u2(3) unfolding is_heap_def rep_def by (intro exI [of _ "[]"]) (simp add: forest_def)
  moreover have "frame_on (A \<union> B) m m3"
    by (rule frame_on_trans [OF frame_on_trans [OF f1 f2, of "A \<union> B"] f3]) auto
  ultimately show ?thesis using u1 u2 u3 by (simp add: heap_union_def)
qed

text \<open>Extraction without a cached minimum.\<close>

lemma extract_ok:
  assumes hA: "is_heap hp m h A" and no_min: "h_min h = None"
  shows "\<exists>m' h' r. heap_extract_min hp m h = Some (m', h', r) \<and> frame_on A m m' \<and> h_min h' = None \<and>
    (case r of None \<Rightarrow> A = {} \<and> is_heap hp m' h' {}
     | Some x \<Rightarrow> x \<in> A \<and> is_heap hp m' h' (A - {x}) \<and> (\<forall>a \<in> A. \<not> better hp m a x))"
proof -
  obtain ts where ts: "rep hp m h ts" "A = set (addrs ts)" using hA no_min by (auto simp: is_heap_def)
  note r = ts(1) [unfolded rep_def]
  have ex: "if ts = [] then heap_extract_min hp m h = Some (m, h, None)
    else case pick (better hp m) [] (hd ts) [] (tl ts) of (ds, x, es) \<Rightarrow>
      \<exists>m' h'. heap_extract_min hp m h = Some (m', h', Some (root x)) \<and>
        forest m' (h_head h') (union_lists (better hp m) (ds @ es) (rev (kids x))) \<and>
        h_min h' = h_min h \<and> frame_on (set (addrs ts)) m m'"
    using r by (intro heap_extract_min_ok) simp_all
  show ?thesis
  proof (cases ts)
    case Nil
    then show ?thesis using ex hA ts(2) no_min by simp
  next
    case (Cons t us)
    obtain ds x es where pk: "pick (better hp m) [] t [] us = (ds, x, es)" by (metis prod.exhaust)
    have eq: "ts = ds @ x # es" using pick_split [OF pk] Cons by simp
    let ?vs = "union_lists (better hp m) (ds @ es) (rev (kids x))"
    obtain m' h' where run: "heap_extract_min hp m h = Some (m', h', Some (root x))" "forest m' (h_head h') ?vs"
        "h_min h' = None" and fr: "frame_on A m m'"
      using ex Cons pk no_min ts(2) by auto
    have bx: "btree x" "ordered (better hp m) x" using r eq by (auto simp: binom_heap_def)
    have rev: "mset (addrs (rev (kids x))) = mset (addrs (kids x))" by (simp add: mset_addrs)
    have "distinct (addrs (ds @ es @ kids x))" using r eq by (auto simp: addrs_t_root)
    moreover have "mset (addrs ((ds @ es) @ rev (kids x))) = mset (addrs (ds @ es @ kids x))" using rev by simp
    ultimately have dist: "distinct (addrs ((ds @ es) @ rev (kids x)))" using distinct_addrs_mset by blast
    have un: "binom_heap (better hp m) ?vs" "mset (addrs ?vs) = mset (addrs ((ds @ es) @ rev (kids x)))"
      using union_lists_ok [OF _ binomial_kids [OF bx] dist] binomial_remove r eq better_asym by blast+
    have "set (addrs ?vs) = A - {root x}"
      using mset_eq_setD [OF un(2)] mset_eq_setD [OF rev] r eq ts(2) by (auto simp: addrs_t_root)
    moreover have "distinct (addrs ?vs)" using distinct_addrs_mset [OF un(2)] dist by simp
    ultimately have "is_heap hp m' h' (A - {root x})"
      using run un(1) better_frame [OF fr, of hp] unfolding is_heap_def rep_def by (intro exI [of _ ?vs]) simp
    moreover have "\<not> better hp m a (root x)" if "a \<in> A" for a
      using picked_is_min [OF pk] r Cons ts(2) that by simp
    moreover have "root x \<in> A" using ts(2) eq by simp
    ultimately show ?thesis using run fr by auto
  qed
qed

lemma fill_ok:
  assumes hA: "is_heap hp m h A"
  shows "\<exists>m' h'. fill_min hp m h = Some (m', h') \<and> is_heap hp m' h' A \<and> frame_on A m m' \<and>
    (case h_min h' of None \<Rightarrow> A = {} | Some x \<Rightarrow> x \<in> A \<and> (\<forall>a \<in> A. \<not> better hp m a x))"
proof (cases "h_min h")
  case None
  obtain m' h' r where ex: "heap_extract_min hp m h = Some (m', h', r)" and fr: "frame_on A m m'"
    and nm: "h_min h' = None"
    and res: "case r of None \<Rightarrow> A = {} \<and> is_heap hp m' h' {}
      | Some x \<Rightarrow> x \<in> A \<and> is_heap hp m' h' (A - {x}) \<and> (\<forall>a \<in> A. \<not> better hp m a x)"
    using extract_ok [OF hA None] by blast
  have run: "fill_min hp m h = Some (m', h'\<lparr>h_min := r\<rparr>)" using None ex by (simp add: fill_min_def)
  show ?thesis
  proof (cases r)
    case None
    moreover from this have "h'\<lparr>h_min := r\<rparr> = h'" using nm by simp
    ultimately show ?thesis using run fr res nm
      by (intro exI [of _ m'] exI [of _ h']) simp
  next
    case (Some x)
    then obtain ts where ts: "rep hp m' h' ts" "A - {x} = set (addrs ts)"
      using res nm by (auto simp: is_heap_def)
    then have "rep hp m' (h'\<lparr>h_min := r\<rparr>) ts"
      using res Some better_frame [OF fr, of hp] by (auto simp: rep_def)
    then have "is_heap hp m' (h'\<lparr>h_min := r\<rparr>) A"
      using ts(2) Some res by (auto simp: is_heap_def)
    then show ?thesis using run fr res Some by auto
  qed
next
  case (Some c)
  then have "c \<in> A" "\<forall>a \<in> A. \<not> better hp m a c"
    using hA better_irrefl by (auto simp: is_heap_def rep_def)
  then show ?thesis using Some hA by (simp add: fill_min_def)
qed

lemma peek_ok:
  assumes "is_heap hp m h A"
  shows "\<exists>m' h' r. heap_peek hp m h = Some (m', h', r) \<and> is_heap hp m' h' A \<and> frame_on A m m' \<and>
    (case r of None \<Rightarrow> A = {} | Some x \<Rightarrow> x \<in> A \<and> (\<forall>a \<in> A. \<not> better hp m a x))"
proof -
  obtain m' h' where "fill_min hp m h = Some (m', h')" "is_heap hp m' h' A" "frame_on A m m'"
    "case h_min h' of None \<Rightarrow> A = {} | Some x \<Rightarrow> x \<in> A \<and> (\<forall>a \<in> A. \<not> better hp m a x)"
    using fill_ok [OF assms] by blast
  then show ?thesis by (simp add: heap_peek_def)
qed

lemma take_ok:
  assumes "is_heap hp m h A"
  shows "\<exists>m' h' r. heap_take hp m h = Some (m', h', r) \<and> frame_on A m m' \<and>
    (case r of None \<Rightarrow> A = {} \<and> is_heap hp m' h' {}
     | Some x \<Rightarrow> x \<in> A \<and> is_heap hp m' h' (A - {x}) \<and> (\<forall>a \<in> A. \<not> better hp m a x) \<and>
         \<not> heap_node_in_heap x m')"
proof -
  obtain m' h' where run: "fill_min hp m h = Some (m', h')" "is_heap hp m' h' A" and fr: "frame_on A m m'"
    and res: "case h_min h' of None \<Rightarrow> A = {} | Some x \<Rightarrow> x \<in> A \<and> (\<forall>a \<in> A. \<not> better hp m a x)"
    using fill_ok [OF assms] by blast
  show ?thesis
  proof (cases "h_min h'")
    case None
    then have "h'\<lparr>h_min := None\<rparr> = h'" by simp
    with None run fr res show ?thesis
      by (intro exI [of _ m'] exI [of _ h'] exI [of _ None]) (simp add: heap_take_def)
  next
    case (Some x)
    let ?m = "set_degree x NOT_IN_HEAP m'"
    obtain ts where ts: "rep hp m' h' ts" "A = insert x (set (addrs ts))"
      using run(2) Some by (auto simp: is_heap_def)
    then have x: "x \<notin> set (addrs ts)" using Some by (simp add: rep_def)
    have "rep hp m' (h'\<lparr>h_min := None\<rparr>) ts" using ts(1) by (simp add: rep_def)
    then have "rep hp ?m (h'\<lparr>h_min := None\<rparr>) ts"
      using rep_frame [OF set_degree_frame, of x ts] x by blast
    then have "is_heap hp ?m (h'\<lparr>h_min := None\<rparr>) (A - {x})"
      using x ts(2) by (auto simp: is_heap_def)
    moreover have "frame_on A m ?m"
      by (rule frame_on_trans [OF fr set_degree_frame]) (use ts(2) in auto)
    moreover have "\<not> heap_node_in_heap x ?m"
      by (simp add: heap_node_in_heap_def set_degree_def upd_def)
    ultimately show ?thesis using Some run res by (simp add: heap_take_def)
  qed
qed

end

end
