(* ===== verification/Sched_Trace.thy ===== *)
theory Sched_Trace
  imports C_Format
begin

unbundle bit_operations_syntax

text \<open>
  The records of a schedule trace (\<^verbatim>\<open>include/sched_trace.h\<close>) and their textual form
  (\<^verbatim>\<open>src/util.c\<close>).  The payload is a union of 16 bytes; it is kept as its two 64-bit
  words, and a member of the union is a function that reads its bytes in the little-endian
  layout of the hosts the tools run on.
\<close>

section \<open>The record\<close>

record st_trace_header =
  st_type :: u8
  st_cpu :: u8
  st_pid :: u16
  st_job :: u32

record st_event_record = st_trace_header +
  raw0 :: u64
  raw1 :: u64

definition ST_NAME :: nat where [event_ids]: "ST_NAME = 1"
definition ST_PARAM :: nat where [event_ids]: "ST_PARAM = 2"
definition ST_RELEASE :: nat where [event_ids]: "ST_RELEASE = 3"
definition ST_ASSIGNED :: nat where [event_ids]: "ST_ASSIGNED = 4"
definition ST_SWITCH_TO :: nat where [event_ids]: "ST_SWITCH_TO = 5"
definition ST_SWITCH_AWAY :: nat where [event_ids]: "ST_SWITCH_AWAY = 6"
definition ST_COMPLETION :: nat where [event_ids]: "ST_COMPLETION = 7"
definition ST_BLOCK :: nat where [event_ids]: "ST_BLOCK = 8"
definition ST_RESUME :: nat where [event_ids]: "ST_RESUME = 9"
definition ST_ACTION :: nat where [event_ids]: "ST_ACTION = 10"
definition ST_SYS_RELEASE :: nat where [event_ids]: "ST_SYS_RELEASE = 11"
definition ST_NP_ENTER :: nat where [event_ids]: "ST_NP_ENTER = 12"
definition ST_NP_EXIT :: nat where [event_ids]: "ST_NP_EXIT = 13"
definition ST_INVALID :: nat where [event_ids]: "ST_INVALID = 14"

definition kind_of :: "st_event_record \<Rightarrow> nat" where
  "kind_of r = unat (st_type r)"

section \<open>Members of the union\<close>

definition byte_of :: "u64 \<Rightarrow> nat \<Rightarrow> u8" where
  "byte_of w i = ucast (drop_bit (8 * i) w)"

definition ST_NAME_LEN :: nat where "ST_NAME_LEN = 16"

text \<open>\<^verbatim>\<open>data.name.cmd\<close>, the 16 characters.\<close>

definition name_cmd :: "st_event_record \<Rightarrow> char list" where
  "name_cmd r =
     map (\<lambda>i. char_of (unat (byte_of (raw0 r) i))) [0..<8] @ map (\<lambda>i. char_of (unat (byte_of (raw1 r) i))) [0..<8]"

definition param_wcet :: "st_event_record \<Rightarrow> u32" where
  "param_wcet r = ucast (raw0 r)"

definition param_period :: "st_event_record \<Rightarrow> u32" where
  "param_period r = ucast (drop_bit 32 (raw0 r))"

definition param_phase :: "st_event_record \<Rightarrow> u32" where
  "param_phase r = ucast (raw1 r)"

definition param_partition :: "st_event_record \<Rightarrow> u8" where
  "param_partition r = ucast (drop_bit 32 (raw1 r))"

definition release_release :: "st_event_record \<Rightarrow> u64" where
  "release_release r = raw0 r"

definition release_deadline :: "st_event_record \<Rightarrow> u64" where
  "release_deadline r = raw1 r"

definition assigned_when :: "st_event_record \<Rightarrow> u64" where
  "assigned_when r = raw0 r"

definition assigned_target :: "st_event_record \<Rightarrow> u8" where
  "assigned_target r = byte_of (raw1 r) 0"

definition switch_to_when :: "st_event_record \<Rightarrow> u64" where
  "switch_to_when r = raw0 r"

definition switch_to_exec_time :: "st_event_record \<Rightarrow> u32" where
  "switch_to_exec_time r = ucast (raw1 r)"

definition switch_away_when :: "st_event_record \<Rightarrow> u64" where
  "switch_away_when r = raw0 r"

definition switch_away_exec_time :: "st_event_record \<Rightarrow> u64" where
  "switch_away_exec_time r = raw1 r"

definition completion_when :: "st_event_record \<Rightarrow> u64" where
  "completion_when r = raw0 r"

definition completion_forced :: "st_event_record \<Rightarrow> nat" where
  "completion_forced r = unat (raw1 r AND 1)"

definition completion_exec_time :: "st_event_record \<Rightarrow> u64" where
  "completion_exec_time r = drop_bit 1 (raw1 r)"

definition block_when :: "st_event_record \<Rightarrow> u64" where
  "block_when r = raw0 r"

definition resume_when :: "st_event_record \<Rightarrow> u64" where
  "resume_when r = raw0 r"

definition np_enter_when :: "st_event_record \<Rightarrow> u64" where
  "np_enter_when r = raw0 r"

definition np_exit_when :: "st_event_record \<Rightarrow> u64" where
  "np_exit_when r = raw0 r"

definition action_when :: "st_event_record \<Rightarrow> u64" where
  "action_when r = raw0 r"

definition action_action :: "st_event_record \<Rightarrow> u8" where
  "action_action r = byte_of (raw1 r) 0"

definition sys_release_when :: "st_event_record \<Rightarrow> u64" where
  "sys_release_when r = raw0 r"

definition sys_release_release :: "st_event_record \<Rightarrow> u64" where
  "sys_release_release r = raw1 r"

section \<open>Times and names\<close>

definition event_names :: "string list" where
  "event_names =
     [''INVALID'', ''NAME'', ''PARAM'', ''RELEASE'', ''ASSIGNED'', ''SWITCH_TO'', ''SWITCH_FROM'',
      ''COMPLETION'', ''BLOCK'', ''RESUME'', ''ACTION'', ''SYS_RELEASE'', ''NP_ENTER'', ''NP_EXIT'',
      ''INVALID'']"

definition event2name :: "nat \<Rightarrow> string" where
  "event2name i = (let i = (if i \<ge> ST_INVALID then ST_INVALID else i) in event_names ! i)"

definition has_time :: "st_event_record \<Rightarrow> bool" where
  "has_time r \<longleftrightarrow>
     kind_of r \<in> {ST_RELEASE, ST_ASSIGNED, ST_SWITCH_TO, ST_SWITCH_AWAY, ST_COMPLETION, ST_BLOCK,
              ST_RESUME, ST_NP_ENTER, ST_NP_EXIT, ST_ACTION, ST_SYS_RELEASE}"

definition event_time :: "st_event_record \<Rightarrow> u64" where
  "event_time r = (if has_time r then raw0 r else 0)"

section \<open>Formatted output\<close>

text \<open>\<^verbatim>\<open>x / 1000000.0\<close> for an unsigned integer \<open>x\<close>.\<close>

definition millis :: "nat \<Rightarrow> rat" where
  "millis n = to_double (to_double (of_nat n) / 1000000)"

definition print_header :: "st_event_record \<Rightarrow> string" where
  "print_header r =
     pad_right 14 (event2name (kind_of r)) @ '' '' @ pad_left 5 (dec (unat (st_pid r))) @ ''/'' @
     pad_right 5 (dec (unat (st_job r))) @ '' on CPU'' @ pad_left 3 (dec (unat (st_cpu r))) @ '' ''"

text \<open>
  A detail printer gives what it writes and the record as it leaves it; \<open>None\<close> stands for
  a string that is read beyond its field.
\<close>

type_synonym printer = "st_event_record \<Rightarrow> (string \<times> st_event_record) option"

definition print_nothing :: printer where
  "print_nothing r = Some ('''', r)"

definition print_raw :: printer where
  "print_raw r = Some ('' type='' @ dec (unat (st_type r)), r)"

text \<open>A string that ends with a zero byte within its field.\<close>

definition c_string :: "char list \<Rightarrow> string option" where
  "c_string cs = (if CHR 0x00 \<in> set cs then Some (takeWhile (\<lambda>c. c \<noteq> CHR 0x00) cs) else None)"

text \<open>\<open>print_name\<close> writes a terminating zero into the last byte of the name first.\<close>

definition terminate_name :: "st_event_record \<Rightarrow> st_event_record" where
  "terminate_name r = r\<lparr>raw1 := take_bit 56 (raw1 r)\<rparr>"

definition print_name :: printer where
  "print_name r =
     (let r = terminate_name r in
      case c_string (name_cmd r) of None \<Rightarrow> None | Some s \<Rightarrow> Some (s, r))"

definition print_param :: printer where
  "print_param r = Some (
     ''T=(cost:'' @ pad_left 6 (fixed2 (millis (unat (param_wcet r)))) @ ''ms, period:'' @
     pad_left 6 (fixed2 (millis (unat (param_period r)))) @ ''ms, phase:'' @
     pad_left 6 (fixed2 (millis (unat (param_phase r)))) @ ''ms), part='' @
     dec (unat (param_partition r)), r)"

definition print_time_data2 :: printer where
  "print_time_data2 r = Some (pad_left 6 (fixed2 (millis (unat (raw1 r)))) @ ''ms'', r)"

definition print_action :: printer where
  "print_action r = Some ('' action='' @ dec (unat (action_action r)), r)"

text \<open>The table of detail printers, indexed by the event type.\<close>

definition print_detail :: "printer list" where
  "print_detail =
     [print_raw, print_name, print_param, print_time_data2, print_nothing, print_nothing,
      print_nothing, print_nothing, print_nothing, print_nothing, print_action, print_time_data2,
      print_nothing, print_nothing, print_raw]"

definition print_event :: printer where
  "print_event r =
     (if length print_detail \<noteq> ST_INVALID + 1 then None
      else let i = (if kind_of r \<ge> ST_INVALID then ST_INVALID else kind_of r) in
        case (print_detail ! i) r of
          None \<Rightarrow> None
        | Some (s, r') \<Rightarrow> Some (print_header r @ s @ [CHR 0x0A], r'))"

fun print_all :: "st_event_record list \<Rightarrow> (string \<times> st_event_record list) option" where
  "print_all [] = Some ('''', [])"
| "print_all (r # rs) =
     (case print_event r of
        None \<Rightarrow> None
      | Some (s, r') \<Rightarrow>
          (case print_all rs of None \<Rightarrow> None | Some (t, rs') \<Rightarrow> Some (s @ t, r' # rs')))"

section \<open>Facts\<close>

text \<open>Both tables have an entry for every index the code computes.\<close>

lemma tables_complete:
  "length event_names = ST_INVALID + 1" "length print_detail = ST_INVALID + 1"
  by (simp_all add: event_names_def print_detail_def ST_INVALID_def)

lemma bit_byte_of: "bit (byte_of w i) n \<longleftrightarrow> n < 8 \<and> bit w (8 * i + n)"
  by (auto simp: byte_of_def bit_ucast_iff bit_drop_bit_eq dest: bit_imp_le_length)

lemma last_byte_cleared: "byte_of (take_bit 56 w) 7 = 0"
  by (rule bit_word_eqI) (simp add: bit_byte_of bit_take_bit_iff)

text \<open>The name that is printed is always terminated within the field.\<close>

lemma name_terminated:
  "\<exists>s. c_string (name_cmd (terminate_name r)) = Some s \<and> length s < ST_NAME_LEN"
proof -
  let ?cs = "name_cmd (terminate_name r)" let ?nz = "\<lambda>c. c \<noteq> CHR 0x00"
  have len: "length ?cs = 16" by (simp add: name_cmd_def)
  have zero: "char_of (unat (0 :: u8)) = CHR 0x00" by code_simp
  have "?cs ! 15 = char_of (unat (byte_of (take_bit 56 (raw1 r)) 7))"
    by (simp add: name_cmd_def terminate_name_def nth_append)
  then have z: "?cs ! 15 = CHR 0x00" by (simp only: last_byte_cleared zero)
  then have mem: "CHR 0x00 \<in> set ?cs" using len nth_mem [of 15 ?cs] by simp
  then have "takeWhile ?nz ?cs \<noteq> ?cs" by (simp add: takeWhile_eq_all_conv)
  then have "length (takeWhile ?nz ?cs) < length ?cs"
    by (metis length_takeWhile_le nat_less_le takeWhile_eq_take take_all_iff)
  then show ?thesis using mem len by (auto simp: c_string_def ST_NAME_LEN_def)
qed

lemma print_name_ok: "\<exists>s. print_name r = Some (s, terminate_name r) \<and> length s < ST_NAME_LEN"
  using name_terminated [of r] by (auto simp: print_name_def Let_def)

lemma print_detail_ok:
  assumes "p \<in> set print_detail"
  shows "\<exists>s r'. p r = Some (s, r') \<and> r' \<in> {r, terminate_name r}"
  using assms print_name_ok [of r]
  by (auto simp: print_detail_def print_nothing_def print_raw_def print_param_def
      print_time_data2_def print_action_def)

text \<open>Every record can be printed, whatever its type; only the end of a name may change.\<close>

lemma print_event_ok: "\<exists>s r'. print_event r = Some (s, r') \<and> r' \<in> {r, terminate_name r}"
proof -
  define i where "i = (if kind_of r \<ge> ST_INVALID then ST_INVALID else kind_of r)"
  have "i < length print_detail" by (simp add: i_def tables_complete)
  then obtain s r' where "(print_detail ! i) r = Some (s, r')" "r' \<in> {r, terminate_name r}"
    using print_detail_ok [OF nth_mem] by blast
  then show ?thesis by (auto simp: print_event_def Let_def tables_complete i_def)
qed

lemma terminate_name_select [simp]:
  "st_type (terminate_name r) = st_type r" "st_pid (terminate_name r) = st_pid r"
  "st_job (terminate_name r) = st_job r" "st_cpu (terminate_name r) = st_cpu r"
  "raw0 (terminate_name r) = raw0 r" "kind_of (terminate_name r) = kind_of r"
  by (simp_all add: terminate_name_def kind_of_def)

lemma print_all_ok:
  "\<exists>s rs'. print_all rs = Some (s, rs') \<and> list_all2 (\<lambda>r r'. r' \<in> {r, terminate_name r}) rs rs'"
proof (induction rs)
  case (Cons r rs)
  then show ?case using print_event_ok [of r] by fastforce
qed simp

text \<open>Records without a time stamp count as time 0.\<close>

lemma event_time_0: "\<not> has_time r \<Longrightarrow> event_time r = 0"
  by (simp add: event_time_def)

text \<open>Each payload with a time stamp has it in its first word.\<close>

lemma when_members:
  "event_time r = (if has_time r then release_release r else 0)"
  "release_release r = assigned_when r" "release_release r = switch_to_when r"
  "release_release r = switch_away_when r" "release_release r = completion_when r"
  "release_release r = block_when r" "release_release r = resume_when r"
  "release_release r = action_when r" "release_release r = sys_release_when r"
  "release_release r = np_enter_when r" "release_release r = np_exit_when r"
  by (simp_all add: event_time_def release_release_def assigned_when_def switch_to_when_def
      switch_away_when_def completion_when_def block_when_def resume_when_def action_when_def
      sys_release_when_def np_enter_when_def np_exit_when_def)

lemma has_time_iff: "has_time r \<longleftrightarrow> 3 \<le> kind_of r \<and> kind_of r \<le> 13"
  unfolding has_time_def event_ids by (simp, presburger)

end
