(* ===== verification/Event_Queue.thy ===== *)
theory Event_Queue
  imports Heap_Correct Sched_Trace "HOL-Library.Product_Lexorder"
begin

text \<open>
  The queue of trace records (\<^verbatim>\<open>include/eheap.h\<close>, \<^verbatim>\<open>src/eheap.c\<close>): the binomial heap of
  \<open>Heap_Model\<close> with the order \<open>earlier_event\<close> and one node per record, and the interface
  its clients use: take records until the queue is empty.
\<close>

section \<open>The order of events\<close>

definition earlier_event :: "st_event_record \<Rightarrow> st_event_record \<Rightarrow> bool" where
  "earlier_event a b \<longleftrightarrow>
     (if event_time a = 0 \<and> event_time b = 0 then st_pid a < st_pid b
      else event_time a < event_time b)"

text \<open>The position of a record: its time, and the PID where there is none.\<close>

definition event_key :: "st_event_record \<Rightarrow> u64 \<times> u16" where
  "event_key r = (event_time r, if event_time r = 0 then st_pid r else 0)"

lemma earlier_event_key: "earlier_event a b \<longleftrightarrow> event_key a < event_key b"
  by (auto simp: earlier_event_def event_key_def)

interpretation events: priority earlier_event
  by unfold_locales (auto simp: earlier_event_key)

section \<open>Filling a queue\<close>

text \<open>\<^verbatim>\<open>sizeof(struct heap_node)\<close>, with the padding after the degree.\<close>

definition NODE_SIZE :: nat where "NODE_SIZE = 48"

type_synonym event_mem = "st_event_record mem"

fun heapify_loop ::
    "addr \<Rightarrow> st_event_record list \<Rightarrow> event_mem \<Rightarrow> heap \<Rightarrow> (event_mem \<times> heap) option" where
  "heapify_loop hn [] m h = Some (m, h)"
| "heapify_loop hn (ev # evs) m h = do {
     (m1, h1) \<leftarrow> heap_insert earlier_event (heap_node_init hn ev m) h hn;
     heapify_loop (hn + of_nat NODE_SIZE) evs m1 h1 }"

text \<open>
  The two blocks that \<^verbatim>\<open>malloc\<close> returns are parameters; the result is the null pointer
  when one of them is.
\<close>

record heap_alloc =
  heap_block :: "addr option"
  node_block :: "addr option"

definition heapify_events ::
    "heap_alloc \<Rightarrow> st_event_record list \<Rightarrow> event_mem \<Rightarrow> (event_mem \<times> heap option) option" where
  "heapify_events al evs m =
     (case (heap_block al, node_block al) of
        (Some _, Some hn) \<Rightarrow> do {
          (m1, h) \<leftarrow> heapify_loop hn evs m heap_init;
          Some (m1, Some h) }
      | _ \<Rightarrow> Some (m, None))"

section \<open>Draining a queue\<close>

text \<open>
  What a loop that takes until nothing is left sees: the sequence of the items taken.
\<close>

inductive drains :: "('s \<Rightarrow> ('s \<times> 'a option) option) \<Rightarrow> 's \<Rightarrow> 'a list \<Rightarrow> 's \<Rightarrow> bool"
  for take_one :: "'s \<Rightarrow> ('s \<times> 'a option) option" where
  empty: "take_one s = Some (s', None) \<Longrightarrow> drains take_one s [] s'"
| more: "take_one s = Some (s1, Some x) \<Longrightarrow> drains take_one s1 xs s' \<Longrightarrow>
    drains take_one s (x # xs) s'"

inductive_cases drains_NilE: "drains take_one s [] s'"
inductive_cases drains_ConsE: "drains take_one s (x # xs) s'"

text \<open>
  The interface of a queue: \<open>content\<close> relates a state to the items that wait in it, as a
  multiset, and an item that is taken waits in it and has no earlier one beside it.
\<close>

locale event_queue =
  fixes take_one :: "'s \<Rightarrow> ('s \<times> 'a option) option"
    and content :: "'s \<Rightarrow> 'a multiset \<Rightarrow> bool"
    and earlier :: "'a \<Rightarrow> 'a \<Rightarrow> bool"
  assumes take_empty: "content s {#} \<Longrightarrow> \<exists>s'. take_one s = Some (s', None) \<and> content s' {#}"
    and take_more: "content s M \<Longrightarrow> M \<noteq> {#} \<Longrightarrow>
      \<exists>s' x. take_one s = Some (s', Some x) \<and> x \<in># M \<and> content s' (M - {#x#}) \<and>
        (\<forall>y \<in># M. \<not> earlier y x)"
begin

lemma drained:
  "content s M \<Longrightarrow> \<exists>xs s'. drains take_one s xs s' \<and> content s' {#} \<and> mset xs = M \<and>
     sorted_wrt (\<lambda>x y. \<not> earlier y x) xs"
proof (induction "size M" arbitrary: s M)
  case 0
  then show ?case using take_empty [of s] by (auto intro: drains.empty)
next
  case (Suc n)
  then have "M \<noteq> {#}" by auto
  then obtain s1 x where t: "take_one s = Some (s1, Some x)" "x \<in># M" "content s1 (M - {#x#})"
    and least: "\<forall>y \<in># M. \<not> earlier y x"
    using take_more [OF Suc.prems] by blast
  have "n = size (M - {#x#})" using Suc.hyps(2) t(2) by (simp add: size_Diff_singleton)
  from Suc.hyps(1) [OF this t(3)] obtain xs s' where xs: "drains take_one s1 xs s'" "content s' {#}"
    "mset xs = M - {#x#}" "sorted_wrt (\<lambda>x y. \<not> earlier y x) xs" by blast
  have "\<forall>y \<in> set xs. \<not> earlier y x"
    using least xs(3) by (metis in_diffD set_mset_mset)
  moreover have "mset (x # xs) = M" using t(2) xs(3) by simp
  ultimately show ?case using drains.more [OF t(1) xs(1)] xs by (intro exI [of _ "x # xs"]) auto
qed

end

text \<open>Draining is a function of the state.\<close>

lemma drains_unique: "drains f s xs s' \<Longrightarrow> drains f s ys s'' \<Longrightarrow> xs = ys \<and> s' = s''"
proof (induction arbitrary: ys rule: drains.induct)
  case (empty s s')
  then show ?case by (cases ys) (auto elim: drains_NilE drains_ConsE)
next
  case (more s s1 x xs s')
  then show ?case by (cases ys) (fastforce elim: drains_NilE drains_ConsE)+
qed

section \<open>The heap as a queue\<close>

text \<open>The records in the nodes of the heap.\<close>

definition waiting :: "event_mem \<Rightarrow> addr set \<Rightarrow> st_event_record multiset" where
  "waiting m A = image_mset (\<lambda>a. n_value (nodes m a)) (mset_set A)"

definition queued :: "event_mem \<times> heap \<Rightarrow> st_event_record multiset \<Rightarrow> bool" where
  "queued s M \<longleftrightarrow> (\<exists>A. is_heap earlier_event (fst s) (snd s) A \<and> M = waiting (fst s) A)"

definition take_event :: "event_mem \<times> heap \<Rightarrow> ((event_mem \<times> heap) \<times> st_event_record option) option" where
  "take_event s = (case s of (m, h) \<Rightarrow> do {
     (m1, h1, hn) \<leftarrow> heap_take earlier_event m h;
     Some ((m1, h1), map_option (\<lambda>a. heap_node_value a m1) hn) })"

lemma is_heap_finite: "is_heap hp m h A \<Longrightarrow> finite A"
  by (auto simp: is_heap_def)

lemma waiting_frame: "frame_on S m m' \<Longrightarrow> waiting m' A = waiting m A"
  using frame_on_value [of S m m'] by (auto simp: waiting_def intro!: image_mset_cong)

lemma waiting_insert: "finite A \<Longrightarrow> a \<notin> A \<Longrightarrow> waiting m (insert a A) = add_mset (n_value (nodes m a)) (waiting m A)"
  by (simp add: waiting_def)

lemma waiting_union: "finite A \<Longrightarrow> finite B \<Longrightarrow> A \<inter> B = {} \<Longrightarrow> waiting m (A \<union> B) = waiting m A + waiting m B"
  by (simp add: waiting_def mset_set_Union)

lemma waiting_remove:
  "finite A \<Longrightarrow> a \<in> A \<Longrightarrow> waiting m (A - {a}) = waiting m A - {#n_value (nodes m a)#}"
  using waiting_insert [of "A - {a}" a m] by (simp add: insert_absorb)

interpretation event_heap: event_queue take_event queued earlier_event
proof unfold_locales
  fix s :: "event_mem \<times> heap"
  obtain m h where s: "s = (m, h)" by fastforce
  { assume "queued s {#}"
    then have hA: "is_heap earlier_event m h {}"
      using is_heap_finite by (fastforce simp: queued_def waiting_def s mset_set_empty_iff)
    show "\<exists>s'. take_event s = Some (s', None) \<and> queued s' {#}"
      using events.take_ok [OF hA]
      by (fastforce simp: take_event_def s queued_def waiting_def split: option.splits) }
  fix M
  assume "queued s M" and ne: "M \<noteq> {#}"
  then obtain A where hA: "is_heap earlier_event m h A" and M: "M = waiting m A"
    by (auto simp: queued_def s)
  then have "A \<noteq> {}" using ne by (auto simp: waiting_def)
  obtain m' h' r where run: "heap_take earlier_event m h = Some (m', h', r)" and fr: "frame_on A m m'"
    and res: "case r of None \<Rightarrow> A = {} \<and> is_heap earlier_event m' h' {}
      | Some x \<Rightarrow> x \<in> A \<and> is_heap earlier_event m' h' (A - {x}) \<and>
          (\<forall>a \<in> A. \<not> better earlier_event m a x) \<and> \<not> heap_node_in_heap x m'"
    using events.take_ok [OF hA] by blast
  obtain x where r: "r = Some x" and x: "x \<in> A" "is_heap earlier_event m' h' (A - {x})"
    and least: "\<forall>a \<in> A. \<not> better earlier_event m a x"
    using res \<open>A \<noteq> {}\<close> by (cases r) auto
  let ?v = "n_value (nodes m x)"
  have val: "heap_node_value x m' = ?v" using frame_on_value [OF fr] by (simp add: heap_node_value_def)
  have "take_event s = Some ((m', h'), Some ?v)" by (simp add: take_event_def s run r val)
  moreover have "?v \<in># M" using x(1) is_heap_finite [OF hA] by (simp add: M waiting_def)
  moreover have "queued (m', h') (M - {#?v#})"
    using x is_heap_finite [OF hA] waiting_frame [OF fr]
    by (auto simp: queued_def M waiting_remove intro!: exI [of _ "A - {x}"])
  moreover have "\<forall>y \<in># M. \<not> earlier_event y ?v"
    using least is_heap_finite [OF hA] by (auto simp: M waiting_def better_def)
  ultimately show "\<exists>s' x. take_event s = Some (s', Some x) \<and> x \<in># M \<and> queued s' (M - {#x#}) \<and>
      (\<forall>y \<in># M. \<not> earlier_event y x)" by blast
qed


section \<open>Filling is correct\<close>

text \<open>The addresses of the nodes of one allocation.\<close>

fun block :: "addr \<Rightarrow> nat \<Rightarrow> addr list" where
  "block hn 0 = []"
| "block hn (Suc n) = hn # block (hn + of_nat NODE_SIZE) n"

lemma block_eq: "block hn n = map (\<lambda>i. hn + of_nat (NODE_SIZE * i)) [0..<n]"
proof (induction n arbitrary: hn)
  case (Suc n)
  have "[0..<Suc n] = 0 # map Suc [0..<n]" by (simp add: map_Suc_upt upt_conv_Cons del: upt_Suc)
  then show ?case using Suc [of "hn + of_nat NODE_SIZE"]
    by (simp add: algebra_simps NODE_SIZE_def del: upt_Suc)
qed simp

lemma distinct_block:
  assumes "NODE_SIZE * n \<le> 2 ^ 64"
  shows "distinct (block hn n)"
proof -
  have "i = j" if "i < n" "j < n" "(of_nat (NODE_SIZE * i) :: u64) = of_nat (NODE_SIZE * j)" for i j
  proof -
    have "NODE_SIZE * i < 2 ^ 64" "NODE_SIZE * j < 2 ^ 64"
      using that assms by (auto simp: NODE_SIZE_def)
    then have "take_bit 64 (NODE_SIZE * i) = NODE_SIZE * i" "take_bit 64 (NODE_SIZE * j) = NODE_SIZE * j"
      by (simp_all add: take_bit_nat_eq_self)
    then have "NODE_SIZE * i = NODE_SIZE * j"
      using that(3) unfolding word_of_nat_eq_iff by (simp del: of_nat_mult)
    then show ?thesis by (simp add: NODE_SIZE_def)
  qed
  then show ?thesis unfolding block_eq distinct_map inj_on_def by auto
qed

lemma heap_node_init_value [simp]:
  "n_value (nodes (heap_node_init hn v m) a) = (if a = hn then v else n_value (nodes m a))"
  by (simp add: heap_node_init_def upd_def)

lemma heap_node_init_same: "a \<noteq> hn \<Longrightarrow> nodes (heap_node_init hn v m) a = nodes m a"
  by (simp add: heap_node_init_def upd_def)

lemma heapify_loop_ok:
  assumes "is_heap earlier_event m h A" and "distinct (block hn (length evs))"
    and "set (block hn (length evs)) \<inter> A = {}"
  shows "\<exists>m' h'. heapify_loop hn evs m h = Some (m', h') \<and>
    is_heap earlier_event m' h' (A \<union> set (block hn (length evs))) \<and>
    waiting m' (A \<union> set (block hn (length evs))) = waiting m A + mset evs \<and>
    (\<forall>a. a \<notin> A \<union> set (block hn (length evs)) \<longrightarrow> nodes m' a = nodes m a)"
  using assms
proof (induction evs arbitrary: hn m h A)
  case (Cons ev evs)
  let ?m = "heap_node_init hn ev m" and ?hn = "hn + of_nat NODE_SIZE"
  let ?B = "set (block ?hn (length evs))"
  have hn: "hn \<notin> A" "hn \<notin> ?B" and dist: "distinct (block ?hn (length evs))" and disj: "?B \<inter> A = {}"
    using Cons.prems by auto
  have A: "is_heap earlier_event ?m h A"
    by (rule is_heap_same [OF Cons.prems(1)]) (use hn in \<open>auto intro: heap_node_init_same\<close>)
  obtain m1 h1 where ins: "heap_insert earlier_event ?m h hn = Some (m1, h1)"
    "is_heap earlier_event m1 h1 (insert hn A)" and fr: "frame_on (insert hn A) ?m m1"
    using events.insert_ok [OF A hn(1)] by blast
  have "?B \<inter> insert hn A = {}" using hn disj by auto
  from Cons.IH [OF ins(2) dist this] obtain m' h' where
    run: "heapify_loop ?hn evs m1 h1 = Some (m', h')" and
    rep: "is_heap earlier_event m' h' (insert hn A \<union> ?B)" and
    w: "waiting m' (insert hn A \<union> ?B) = waiting m1 (insert hn A) + mset evs" and
    same: "\<forall>a. a \<notin> insert hn A \<union> ?B \<longrightarrow> nodes m' a = nodes m1 a" by blast
  have fin: "finite A" using Cons.prems(1) by (rule is_heap_finite)
  have "waiting m1 (insert hn A) = waiting ?m (insert hn A)" by (rule waiting_frame [OF fr])
  also have "\<dots> = add_mset ev (waiting ?m A)" using fin hn(1) by (simp add: waiting_insert)
  also have "waiting ?m A = waiting m A"
    unfolding waiting_def using hn(1) fin by (intro image_mset_cong) auto
  finally have w1: "waiting m1 (insert hn A) = add_mset ev (waiting m A)" .
  have "nodes m' a = nodes m a" if "a \<notin> insert hn A \<union> ?B" for a
    using same that frame_on_same [OF fr, of a] by (simp add: heap_node_init_same)
  then show ?case using ins(1) run rep w w1 by (simp add: insert_commute)
qed simp

definition alloc_ok :: "heap_alloc \<Rightarrow> nat \<Rightarrow> bool" where
  "alloc_ok al n \<longleftrightarrow> heap_block al \<noteq> None \<and> node_block al \<noteq> None \<and> NODE_SIZE * n \<le> 2 ^ 64"

definition alloc_addrs :: "heap_alloc \<Rightarrow> nat \<Rightarrow> addr set" where
  "alloc_addrs al n = (case node_block al of None \<Rightarrow> {} | Some hn \<Rightarrow> set (block hn n))"

text \<open>A queue with exactly the given records, in the nodes of the allocation.\<close>

lemma heapify_ok:
  assumes "alloc_ok al (length evs)"
  shows "\<exists>m' h. heapify_events al evs m = Some (m', Some h) \<and>
    is_heap earlier_event m' h (alloc_addrs al (length evs)) \<and>
    waiting m' (alloc_addrs al (length evs)) = mset evs \<and>
    (\<forall>a. a \<notin> alloc_addrs al (length evs) \<longrightarrow> nodes m' a = nodes m a)"
proof -
  obtain hb hn where al: "heap_block al = Some hb" "node_block al = Some hn" and n: "NODE_SIZE * length evs \<le> 2 ^ 64"
    using assms by (auto simp: alloc_ok_def)
  have "is_heap earlier_event m heap_init {}" by (rule is_heap_init)
  from heapify_loop_ok [OF this distinct_block [OF n, of hn]] obtain m' h where
    "heapify_loop hn evs m heap_init = Some (m', h)"
    "is_heap earlier_event m' h (set (block hn (length evs)))"
    "waiting m' (set (block hn (length evs))) = waiting m {} + mset evs"
    "\<forall>a. a \<notin> set (block hn (length evs)) \<longrightarrow> nodes m' a = nodes m a" by auto
  then show ?thesis using al by (auto simp: heapify_events_def alloc_addrs_def waiting_def)
qed

lemma heapify_null:
  assumes "heap_block al = None \<or> node_block al = None"
  shows "heapify_events al evs m = Some (m, None)"
  using assms by (auto simp: heapify_events_def split: option.splits)

end
