(* ===== verification/St_File.thy ===== *)
theory St_File
  imports Layout Sched_Trace
begin

text \<open>
  Files of schedule records: \<^verbatim>\<open>struct st_event_record\<close>, 24 bytes each, as the tools see them
  in a mapped file, and the round trips between bytes and records.
\<close>

definition ST_SIZE :: nat where "ST_SIZE = 24"

definition st_of_bytes :: "u8 list \<Rightarrow> st_event_record" where
  "st_of_bytes bs =
     \<lparr>st_type = bs ! 0, st_cpu = bs ! 1, st_pid = of_nat (field 2 2 bs), st_job = of_nat (field 4 4 bs),
      raw0 = of_nat (field 8 8 bs), raw1 = of_nat (field 16 8 bs)\<rparr>"

definition st_to_bytes :: "st_event_record \<Rightarrow> u8 list" where
  "st_to_bytes r =
     [st_type r, st_cpu r] @ le_bytes 2 (unat (st_pid r)) @ le_bytes 4 (unat (st_job r)) @
     le_bytes 8 (unat (raw0 r)) @ le_bytes 8 (unat (raw1 r))"

lemma length_st_to_bytes [simp]: "length (st_to_bytes r) = ST_SIZE"
  by (simp add: st_to_bytes_def ST_SIZE_def)

lemma st_roundtrip: "st_of_bytes (st_to_bytes r) = r"
  using unat_bound16 [of "st_pid r"] unat_bound32 [of "st_job r"] unat_bound64 [of "raw0 r"]
    unat_bound64 [of "raw1 r"]
  by (simp add: st_of_bytes_def st_to_bytes_def field_def le_val_bytes)

lemma st_bytes_roundtrip:
  assumes "length bs = ST_SIZE"
  shows "st_to_bytes (st_of_bytes bs) = bs"
proof -
  let ?r = "st_of_bytes bs"
  have len: "length bs = 24" using assms by (simp add: ST_SIZE_def)
  have fields: "le_bytes 2 (unat (st_pid ?r)) = take 2 (drop 2 bs)"
    "le_bytes 4 (unat (st_job ?r)) = take 4 (drop 4 bs)"
    "le_bytes 8 (unat (raw0 ?r)) = take 8 (drop 8 bs)"
    "le_bytes 8 (unat (raw1 ?r)) = take 8 (drop 16 bs)"
    by (rule field_bytes; simp add: st_of_bytes_def len)+
  have "bs = take 2 bs @ take 2 (drop 2 bs) @ take 4 (drop 4 bs) @ take 8 (drop 8 bs) @ take 8 (drop 16 bs)"
    using append_take_drop_id [of 2 bs] append_take_drop_id [of 2 "drop 2 bs"]
      append_take_drop_id [of 4 "drop 4 bs"] append_take_drop_id [of 8 "drop 8 bs"] len
    by simp
  moreover have "take 2 bs = [st_type ?r, st_cpu ?r]"
    using len by (auto simp: st_of_bytes_def take_Suc_conv_app_nth numeral_2_eq_2)
  ultimately show ?thesis unfolding st_to_bytes_def fields by simp
qed

text \<open>The array in a file of schedule records.\<close>

definition st_array :: "nat \<Rightarrow> u8 list \<Rightarrow> st_event_record list" where
  "st_array n bs = array_of ST_SIZE st_of_bytes n bs"

lemma st_array_written: "st_array (length rs) (concat (map st_to_bytes rs)) = rs"
  using array_of_concat [of st_to_bytes ST_SIZE st_of_bytes rs "[]"] by (simp add: st_array_def st_roundtrip)

end
