(* ===== verification/Load.thy ===== *)
theory Load
  imports Event_Queue St_File File_Map
begin

text \<open>
  Reading schedule traces: the first half of \<^verbatim>\<open>src/load.c\<close>.  Each file is mapped, its
  records become the nodes of a queue, and the queues of all files are united.  The
  contents of the files come from the system calls (\<open>os\<close>), the blocks from \<^verbatim>\<open>malloc\<close>
  (\<open>al i\<close> for the \<open>i\<close>-th file); \<open>None\<close> stands for undefined behaviour.
\<close>

section \<open>Loading\<close>

text \<open>\<^verbatim>\<open>map_trace\<close>: the mapping, and the distance of \<^verbatim>\<open>*end\<close> from \<^verbatim>\<open>*start\<close>.\<close>

definition map_trace :: "os \<Rightarrow> string \<Rightarrow> map_result \<times> nat option" where
  "map_trace os name =
     (let ret = load_map_file os name in (ret, if map_error ret = 0 then map_size ret else None))"

text \<open>The difference of the pointers is cast to a 32-bit integer before the division.\<close>

definition record_count :: "nat \<Rightarrow> u32" where
  "record_count n = of_nat (unat (of_nat n :: u32) div ST_SIZE)"

definition heap_from_file ::
    "os \<Rightarrow> heap_alloc \<Rightarrow> string \<Rightarrow> event_mem \<Rightarrow> (event_mem \<times> heap option \<times> u32) option" where
  "heap_from_file os al file m =
     (case map_trace os file of
        (ret, None) \<Rightarrow> Some (m, None, 0)
      | (ret, Some n) \<Rightarrow> do {
          let cnt = record_count n;
          rec \<leftarrow> mapped_bytes ret;
          if ST_SIZE * unat cnt \<le> length rec then do {
            (m1, h) \<leftarrow> heapify_events al (st_array (unat cnt) rec) m;
            Some (m1, h, cnt) }
          else None })"

fun load_loop ::
    "os \<Rightarrow> (nat \<Rightarrow> heap_alloc) \<Rightarrow> nat \<Rightarrow> string list \<Rightarrow> event_mem \<Rightarrow> heap option \<Rightarrow> u32 \<Rightarrow>
     (event_mem \<times> heap option \<times> u32) option" where
  "load_loop os al i [] m h cnt = Some (m, h, cnt)"
| "load_loop os al i (file # files) m h cnt = do {
     (m1, h2, c) \<leftarrow> heap_from_file os (al i) file m;
     (case h2 of
        None \<Rightarrow> Some (m1, None, cnt)
      | Some h2 \<Rightarrow>
          (case h of
             Some h \<Rightarrow> do {
               (m2, h, h2) \<leftarrow> heap_union earlier_event m1 h h2;
               load_loop os al (Suc i) files m2 (Some h) (cnt + c) }
           | None \<Rightarrow> load_loop os al (Suc i) files m1 (Some h2) (cnt + c))) }"

definition load ::
    "os \<Rightarrow> (nat \<Rightarrow> heap_alloc) \<Rightarrow> string list \<Rightarrow> event_mem \<Rightarrow> (event_mem \<times> heap option \<times> u32) option" where
  "load os al files m = load_loop os al 0 files m None 0"

section \<open>What is loaded\<close>

text \<open>The records a file holds; a rest of less than one record at its end is ignored.\<close>

definition file_records :: "u8 list \<Rightarrow> st_event_record list" where
  "file_records c = st_array (length c div ST_SIZE) c"

definition records_in :: "(string \<Rightarrow> u8 list option) \<Rightarrow> string \<Rightarrow> st_event_record list" where
  "records_in contents f = (case contents f of None \<Rightarrow> [] | Some c \<Rightarrow> file_records c)"

text \<open>
  A file that can be mapped and is smaller than 4 GB: the cast to \<^verbatim>\<open>unsigned int\<close> in
  \<open>heap_from_file\<close> (\<open>record_count\<close>) reduces the length modulo \<open>2 ^ 32\<close>, so of a longer file
  records would be missing.
\<close>

definition loadable :: "os \<Rightarrow> (string \<Rightarrow> u8 list option) \<Rightarrow> string \<Rightarrow> bool" where
  "loadable os contents f \<longleftrightarrow> map_error (load_map_file os f) = 0 \<and>
     (case contents f of None \<Rightarrow> False | Some c \<Rightarrow> length c < 2 ^ 32)"

text \<open>The blocks of the allocator are large enough, do not overlap, and avoid \<open>U\<close>.\<close>

fun allocs_ok :: "(nat \<Rightarrow> heap_alloc) \<Rightarrow> nat \<Rightarrow> nat list \<Rightarrow> addr set \<Rightarrow> bool" where
  "allocs_ok al i [] U \<longleftrightarrow> True"
| "allocs_ok al i (n # ns) U \<longleftrightarrow>
     alloc_ok (al i) n \<and> alloc_addrs (al i) n \<inter> U = {} \<and>
     allocs_ok al (Suc i) ns (U \<union> alloc_addrs (al i) n)"

lemma record_count:
  assumes "n < 2 ^ 32"
  shows "unat (record_count n) = n div ST_SIZE"
proof -
  have "n div ST_SIZE < 2 ^ 32" using assms by (simp add: ST_SIZE_def)
  then show ?thesis using assms by (simp add: record_count_def unat_of_nat)
qed

lemma heap_from_file_ok:
  assumes os: "faithful_os os contents file_of" and f: "loadable os contents f"
    and al: "alloc_ok al (length (records_in contents f))"
  shows "\<exists>m' h. heap_from_file os al f m = Some (m', Some h, of_nat (length (records_in contents f))) \<and>
    is_heap earlier_event m' h (alloc_addrs al (length (records_in contents f))) \<and>
    waiting m' (alloc_addrs al (length (records_in contents f))) = mset (records_in contents f) \<and>
    (\<forall>a. a \<notin> alloc_addrs al (length (records_in contents f)) \<longrightarrow> nodes m' a = nodes m a)"
proof -
  have ok: "map_error (load_map_file os f) = 0" using f by (simp add: loadable_def)
  then obtain c where c: "contents f = Some c" "mapped_bytes (load_map_file os f) = Some c"
    "map_size (load_map_file os f) = Some (length c)"
    using load_map_success [OF os] by blast
  then have "length c < 2 ^ 32" using f by (simp add: loadable_def)
  then have cnt: "unat (record_count (length c)) = length c div ST_SIZE" by (rule record_count)
  have evs: "records_in contents f = st_array (length c div ST_SIZE) c"
    using c(1) by (simp add: records_in_def file_records_def)
  then have len: "length (records_in contents f) = length c div ST_SIZE" by (simp add: st_array_def)
  have "record_count (length c) = of_nat (unat (record_count (length c)))" by simp
  then have word: "record_count (length c) = of_nat (length (records_in contents f))"
    by (simp only: cnt len)
  have "heap_from_file os al f m = do {
      (m1, h) \<leftarrow> heapify_events al (records_in contents f) m;
      Some (m1, h, record_count (length c)) }"
    unfolding evs by (simp add: heap_from_file_def map_trace_def Let_def ok c(2,3) cnt)
  with heapify_ok [OF al, of m] show ?thesis unfolding word by auto
qed

lemma load_loop_more:
  assumes os: "faithful_os os contents file_of"
    and "\<forall>f \<in> set files. loadable os contents f" and "is_heap earlier_event m h A"
    and "allocs_ok al i (map (\<lambda>f. length (records_in contents f)) files) A"
  shows "\<exists>m' h'. load_loop os al i files m (Some h) cnt =
      Some (m', Some h', cnt + of_nat (length (concat (map (records_in contents) files)))) \<and>
    queued (m', h') (waiting m A + mset (concat (map (records_in contents) files)))"
  using assms(2-)
proof (induction files arbitrary: i m h A cnt)
  case Nil
  then show ?case by (auto simp: queued_def)
next
  case (Cons f files)
  let ?n = "length (records_in contents f)"
  let ?B = "alloc_addrs (al i) ?n"
  obtain m1 h2 where ff: "heap_from_file os (al i) f m = Some (m1, Some h2, of_nat ?n)"
    "is_heap earlier_event m1 h2 ?B" "waiting m1 ?B = mset (records_in contents f)"
    and same: "\<forall>a. a \<notin> ?B \<longrightarrow> nodes m1 a = nodes m a"
    using heap_from_file_ok [OF os, of f "al i" m] Cons.prems by auto
  have disj: "A \<inter> ?B = {}" using Cons.prems(3) by auto
  have A: "is_heap earlier_event m1 h A"
    by (rule is_heap_same [OF Cons.prems(2)]) (use same disj in auto)
  obtain m2 h' g where un: "heap_union earlier_event m1 h h2 = Some (m2, h', g)"
    "is_heap earlier_event m2 h' (A \<union> ?B)" and fr: "frame_on (A \<union> ?B) m1 m2"
    using events.union_ok [OF A ff(2) disj] by blast
  have fin: "finite A" "finite ?B" using A ff(2) is_heap_finite by blast+
  have "waiting m1 A = waiting m A"
    unfolding waiting_def using same disj fin by (intro image_mset_cong) auto
  then have w: "waiting m2 (A \<union> ?B) = waiting m A + mset (records_in contents f)"
    using waiting_frame [OF fr] waiting_union [OF fin disj, of m1] ff(3) by simp
  have "allocs_ok al (Suc i) (map (\<lambda>f. length (records_in contents f)) files) (A \<union> ?B)"
    using Cons.prems(3) by simp
  with Cons.IH [OF _ un(2) this, of "cnt + of_nat ?n"] Cons.prems(1) obtain m' h'' where
    "load_loop os al (Suc i) files m2 (Some h') (cnt + of_nat ?n) =
      Some (m', Some h'', cnt + of_nat ?n + of_nat (length (concat (map (records_in contents) files))))"
    "queued (m', h'') (waiting m2 (A \<union> ?B) + mset (concat (map (records_in contents) files)))" by auto
  then show ?case using ff(1) un(1) by (simp add: w add.assoc)
qed

text \<open>Of a file that is just 4 GB long, nothing is loaded.\<close>

lemma record_count_wraps: "record_count (2 ^ 32) = 0"
  by (simp add: record_count_def)

text \<open>All records of all files, and nothing else, wait in the queue.\<close>

lemma load_ok:
  assumes os: "faithful_os os contents file_of" and "files \<noteq> []"
    and "\<forall>f \<in> set files. loadable os contents f"
    and "allocs_ok al 0 (map (\<lambda>f. length (records_in contents f)) files) {}"
  shows "\<exists>m' h. load os al files m =
      Some (m', Some h, of_nat (length (concat (map (records_in contents) files)))) \<and>
    queued (m', h) (mset (concat (map (records_in contents) files)))"
proof -
  obtain f fs where files: "files = f # fs" using assms(2) by (cases files) auto
  let ?n = "length (records_in contents f)"
  let ?B = "alloc_addrs (al 0) ?n"
  obtain m1 h2 where ff: "heap_from_file os (al 0) f m = Some (m1, Some h2, of_nat ?n)"
    "is_heap earlier_event m1 h2 ?B" "waiting m1 ?B = mset (records_in contents f)"
    using heap_from_file_ok [OF os, of f "al 0" m] assms(3,4) files by auto
  have "allocs_ok al (Suc 0) (map (\<lambda>f. length (records_in contents f)) fs) ?B"
    using assms(4) files by simp
  with load_loop_more [OF os _ ff(2) this, of "of_nat ?n"] assms(3) files obtain m' h' where
    "load_loop os al (Suc 0) fs m1 (Some h2) (of_nat ?n) =
      Some (m', Some h', of_nat ?n + of_nat (length (concat (map (records_in contents) fs))))"
    "queued (m', h') (mset (records_in contents f) + mset (concat (map (records_in contents) fs)))"
    using ff(3) by auto
  then show ?thesis using ff(1) files by (simp add: load_def)
qed

text \<open>A file that cannot be mapped makes the whole call fail.\<close>

lemma heap_from_file_fails:
  "map_error (load_map_file os f) \<noteq> 0 \<Longrightarrow> heap_from_file os al f m = Some (m, None, 0)"
  by (simp add: heap_from_file_def map_trace_def Let_def)

lemma load_loop_append:
  assumes "load_loop os al i xs m h c = Some (m', Some h', c')"
    and "xs \<noteq> [] \<or> h \<noteq> None"
  shows "load_loop os al i (xs @ ys) m h c = load_loop os al (i + length xs) ys m' (Some h') c'"
  using assms
proof (induction xs arbitrary: i m h c)
  case (Cons x xs)
  obtain m1 h2 c1 where ff: "heap_from_file os (al i) x m = Some (m1, h2, c1)"
    using Cons.prems(1) by (cases "heap_from_file os (al i) x m") auto
  then obtain g where g: "h2 = Some g" using Cons.prems(1) by (cases h2) auto
  show ?case
  proof (cases h)
    case None
    then show ?thesis using Cons.prems(1) Cons.IH [of "Suc i" m1 "Some g" "c + c1"] ff g by simp
  next
    case (Some h0)
    then obtain m2 h3 g' where "heap_union earlier_event m1 h0 g = Some (m2, h3, g')"
      using Cons.prems(1) ff g by (cases "heap_union earlier_event m1 h0 g") auto
    then show ?thesis using Cons.prems(1) Cons.IH [of "Suc i" m2 "Some h3" "c + c1"] ff g Some by simp
  qed
qed auto

lemma load_fails:
  assumes os: "faithful_os os contents file_of" and "\<forall>f \<in> set xs. loadable os contents f"
    and "allocs_ok al 0 (map (\<lambda>f. length (records_in contents f)) xs) {}"
    and bad: "map_error (load_map_file os f) \<noteq> 0"
  shows "\<exists>m' c. load os al (xs @ f # ys) m = Some (m', None, c)"
proof (cases "xs = []")
  case True
  then show ?thesis using heap_from_file_fails [OF bad] by (simp add: load_def)
next
  case False
  from load_ok [OF os False assms(2,3), of m] obtain m' h c where
    "load_loop os al 0 xs m None 0 = Some (m', Some h, c)" by (auto simp: load_def)
  from load_loop_append [OF this, of "f # ys"] False show ?thesis
    using heap_from_file_fails [OF bad] by (simp add: load_def)
qed

end
