(* ===== verification/Tasks.thy ===== *)
theory Tasks
  imports Load
begin

text \<open>
  The task table: the second half of \<^verbatim>\<open>src/load.c\<close> and the iteration macros of
  \<^verbatim>\<open>include/load.h\<close>.  A linked list of events is the list of its records, in order; the
  tail pointer \<^verbatim>\<open>next\<close> of a task is the end of that list, so an event that is added
  through it is added at the end; \<open>Event_Links\<close> has the same functions over links and
  pointers, and shows that they agree.  The global variables are a state record.
\<close>

section \<open>State\<close>

definition MAX_TASKS :: nat where "MAX_TASKS = 512"

record task =
  tk_pid :: int
  tk_no_events :: u32
  tk_name :: "st_event_record option"
  tk_param :: "st_event_record option"
  tk_events :: "st_event_record list"

record globals =
  tasks :: "task list"
  sys_events :: "st_event_record list"
  time0 :: u64
  g_max_task :: u32
  g_min_task :: u32

definition empty_task :: task where
  "empty_task = \<lparr>tk_pid = 0, tk_no_events = 0, tk_name = None, tk_param = None, tk_events = []\<rparr>"

text \<open>The static initialisers.\<close>

definition initial_globals :: globals where
  "initial_globals =
     \<lparr>tasks = replicate MAX_TASKS empty_task, sys_events = [], time0 = 0,
      g_max_task = of_nat MAX_TASKS, g_min_task = 0\<rparr>"

fun init_tasks_loop :: "nat \<Rightarrow> nat \<Rightarrow> task list \<Rightarrow> task list" where
  "init_tasks_loop 0 i ts = ts"
| "init_tasks_loop (Suc n) i ts = init_tasks_loop n (Suc i) (ts[i := empty_task])"

definition init_tasks :: "globals \<Rightarrow> globals" where
  "init_tasks g = g\<lparr>tasks := init_tasks_loop MAX_TASKS 0 (tasks g)\<rparr>"

section \<open>Times\<close>

definition ns2ms :: "u64 \<Rightarrow> rat" where
  "ns2ms ns = millis (unat ns)"

definition ns2ms_adj :: "globals \<Rightarrow> u64 \<Rightarrow> rat" where
  "ns2ms_adj g ns = ns2ms (ns - time0 g)"

definition evtime :: "globals \<Rightarrow> st_event_record \<Rightarrow> rat" where
  "evtime g r = ns2ms_adj g (event_time r)"

section \<open>The table\<close>

text \<open>\<^verbatim>\<open>for_each_task\<close>: the tasks from \<open>g_min_task\<close> up to \<open>g_max_task\<close> or the first unused one.\<close>

definition each_task :: "globals \<Rightarrow> task list" where
  "each_task g =
     takeWhile (\<lambda>t. tk_pid t \<noteq> 0) (drop (unat (g_min_task g)) (take (unat (g_max_task g)) (tasks g)))"

definition count_tasks :: "globals \<Rightarrow> u32" where
  "count_tasks g = foldl (\<lambda>i t. i + 1) 0 (each_task g)"

text \<open>The search goes over the rest of the table; the result has the index of the task.\<close>

fun by_pid_loop :: "int \<Rightarrow> task list \<Rightarrow> task list \<times> nat option" where
  "by_pid_loop p [] = ([], None)"
| "by_pid_loop p (t # ts) =
     (let t = (if tk_pid t = 0 then t\<lparr>tk_pid := p\<rparr> else t) in
      if tk_pid t = p then (t # ts, Some 0)
      else case by_pid_loop p ts of (ts', r) \<Rightarrow> (t # ts', map_option Suc r))"

definition by_pid :: "int \<Rightarrow> task list \<Rightarrow> task list \<times> nat option" where
  "by_pid p ts = (if p = 0 then (ts, None) else by_pid_loop p ts)"

text \<open>\<^verbatim>\<open>crop_events\<close>: events out of the interval are unlinked.\<close>

fun crop_list :: "globals \<Rightarrow> rat \<Rightarrow> rat \<Rightarrow> st_event_record list \<Rightarrow> st_event_record list" where
  "crop_list g mn mx [] = []"
| "crop_list g mn mx (r # rs) =
     (if evtime g r < mn \<or> evtime g r > mx then crop_list g mn mx rs
      else r # crop_list g mn mx rs)"

definition crop_events :: "globals \<Rightarrow> rat \<Rightarrow> rat \<Rightarrow> task \<Rightarrow> task" where
  "crop_events g mn mx t = t\<lparr>tk_events := crop_list g mn mx (tk_events t)\<rparr>"

definition crop_events_all :: "rat \<Rightarrow> rat \<Rightarrow> globals \<Rightarrow> globals" where
  "crop_events_all mn mx g =
     (let lo = unat (g_min_task g); n = length (each_task g) in
      g\<lparr>tasks := take lo (tasks g) @ map (crop_events g mn mx) (take n (drop lo (tasks g))) @
                 drop (lo + n) (tasks g)\<rparr>)"

section \<open>Splitting a trace\<close>

text \<open>
  One round of the loop of \<^verbatim>\<open>split\<close>.  \<open>n\<close> counts the links used of the \<open>cnt\<close> that were
  allocated; a further one would be written beyond the block.
\<close>

definition pid_of :: "st_event_record \<Rightarrow> int" where
  "pid_of r = uint (st_pid r)"

definition split_record ::
    "bool \<Rightarrow> u32 \<Rightarrow> st_event_record \<Rightarrow> nat \<times> globals \<Rightarrow> (nat \<times> globals) option" where
  "split_record find_time0 cnt r s =
     (case s of (n, g) \<Rightarrow>
       let time = event_time r;
           g = (if find_time0 \<and> time0 g = 0 \<and> time \<noteq> 0 then g\<lparr>time0 := time\<rparr> else g)
       in case by_pid (pid_of r) (tasks g) of (ts, t) \<Rightarrow>
         let g = g\<lparr>tasks := ts\<rparr> in
         if kind_of r = ST_PARAM then
           (case t of
              Some i \<Rightarrow> Some (n, g\<lparr>tasks := ts[i := (ts ! i)\<lparr>tk_param := Some r\<rparr>]\<rparr>)
            | None \<Rightarrow> Some (n, g))
         else if kind_of r = ST_NAME then
           (case t of
              Some i \<Rightarrow> Some (n, g\<lparr>tasks := ts[i := (ts ! i)\<lparr>tk_name := Some r\<rparr>]\<rparr>)
            | None \<Rightarrow> Some (n, g))
         else if n < unat cnt then
           (case t of
              Some i \<Rightarrow> Some (Suc n, g\<lparr>tasks := ts[i := (ts ! i)
                \<lparr>tk_events := tk_events (ts ! i) @ [r], tk_no_events := tk_no_events (ts ! i) + 1\<rparr>]\<rparr>)
            | None \<Rightarrow> Some (Suc n, g\<lparr>sys_events := sys_events g @ [r]\<rparr>))
         else None)"

partial_function (option) split_loop ::
    "bool \<Rightarrow> u32 \<Rightarrow> event_mem \<times> heap \<Rightarrow> nat \<times> globals \<Rightarrow> ((event_mem \<times> heap) \<times> nat \<times> globals) option" where
  "split_loop find_time0 cnt q s = do {
     (q1, hn) \<leftarrow> take_event q;
     (case hn of
        None \<Rightarrow> Some (q1, s)
      | Some r \<Rightarrow> do {
          s1 \<leftarrow> split_record find_time0 cnt r s;
          split_loop find_time0 cnt q1 s1 }) }"

text \<open>\<open>lnk\<close> tells whether the block of links could be allocated.\<close>

definition split ::
    "bool \<Rightarrow> event_mem \<times> heap \<Rightarrow> u32 \<Rightarrow> bool \<Rightarrow> globals \<Rightarrow> ((event_mem \<times> heap) \<times> globals) option" where
  "split lnk q cnt find_time0 g =
     (if \<not> lnk then Some (q, g)
      else do {
        (q1, n, g1) \<leftarrow> split_loop find_time0 cnt q (0, g);
        Some (q1, g1) })"

section \<open>Accessors\<close>

definition tsk_cpu :: "task \<Rightarrow> int" where
  "tsk_cpu t = (case tk_param t of Some r \<Rightarrow> uint (param_partition r) | None \<Rightarrow> - 1)"

text \<open>The name as a C string; \<open>None\<close> if it is not terminated within its field.\<close>

definition tsk_name :: "task \<Rightarrow> string option" where
  "tsk_name t = (case tk_name t of Some r \<Rightarrow> c_string (name_cmd r) | None \<Rightarrow> Some ''<unknown>'')"

definition per :: "task \<Rightarrow> u32" where
  "per t = (case tk_param t of Some r \<Rightarrow> param_period r | None \<Rightarrow> 0)"

definition exe :: "task \<Rightarrow> u32" where
  "exe t = (case tk_param t of Some r \<Rightarrow> param_wcet r | None \<Rightarrow> 0)"

text \<open>\<^verbatim>\<open>t - tasks\<close> for a pointer to the element with index \<open>i\<close>.\<close>

definition idx :: "nat \<Rightarrow> u32" where
  "idx i = of_nat i"

fun find_evtype :: "nat \<Rightarrow> st_event_record list \<Rightarrow> st_event_record list" where
  "find_evtype k [] = []"
| "find_evtype k (r # rs) = (if kind_of r \<noteq> k then find_evtype k rs else r # rs)"

definition find_sys_event :: "nat \<Rightarrow> globals \<Rightarrow> st_event_record option" where
  "find_sys_event k g =
     (case find_evtype k (sys_events g) of [] \<Rightarrow> None | r # rs \<Rightarrow> Some r)"

end
