(* ===== verification/Job_Stats.thy ===== *)
theory Job_Stats
  imports Tasks
begin

text \<open>
  \<^verbatim>\<open>src/job_stats.c\<close>: for every release of a job the completion is searched, and response
  time, lateness, preemptions and migrations of the job are printed.  A pointer into the
  list of events of a task is the rest of the list from there; two pointers into one list are
  equal if and only if the rests are.  \<open>None\<close> stands for a null pointer that is followed
  or a name that is not terminated.
\<close>

definition MAX_COMPLETIONS_TO_CHECK :: nat where "MAX_COMPLETIONS_TO_CHECK = 20"

text \<open>\<^verbatim>\<open>ns * 1E-6\<close>: the constant is a \<^verbatim>\<open>double\<close>, and the product is rounded.\<close>

definition nano_to_ms :: "int \<Rightarrow> rat" where
  "nano_to_ms ns = to_double (to_double (of_int ns) * to_double (1 / 1000000))"

section \<open>Preemptions\<close>

text \<open>The loop of \<open>count_preemptions\<close>, from \<open>e\<close> to \<open>completion\<close>.\<close>

fun preemption_loop ::
    "u32 \<Rightarrow> st_event_record list \<Rightarrow> bool \<Rightarrow> u8 \<Rightarrow> st_event_record list \<Rightarrow> u32 \<times> u32 \<Rightarrow>
     (u32 \<times> u32) option" where
  "preemption_loop job completion seen_switched_away last_cpu [] (p, m) =
     (if completion = [] then Some (p, m) else None)"
| "preemption_loop job completion seen_switched_away last_cpu (r # e) (p, m) =
     (if r # e = completion then Some (p, m)
      else if st_job r = job then
        (if kind_of r = ST_SWITCH_AWAY then preemption_loop job completion True (st_cpu r) e (p, m)
         else if kind_of r = ST_SWITCH_TO then
           (let p1 = (if seen_switched_away then p + 1 else p);
                m1 = (if seen_switched_away \<and> st_cpu r \<noteq> last_cpu then m + 1 else m)
            in preemption_loop job completion seen_switched_away last_cpu e (p1, m1))
         else preemption_loop job completion seen_switched_away last_cpu e (p, m))
      else preemption_loop job completion seen_switched_away last_cpu e (p, m))"

definition count_preemptions ::
    "st_event_record list \<Rightarrow> st_event_record list \<Rightarrow> u32 \<times> u32 \<Rightarrow> (u32 \<times> u32) option" where
  "count_preemptions release completion pm =
     (case release of
        [] \<Rightarrow> if completion = [] then Some pm else None
      | r # _ \<Rightarrow> preemption_loop (st_job r) completion False 0 release pm)"

section \<open>Statistics of a job\<close>

text \<open>The difference is taken in 64 bits and read as a signed number.\<close>

definition lateness_of :: "st_event_record \<Rightarrow> st_event_record \<Rightarrow> int" where
  "lateness_of r c = sint (completion_when c - release_deadline r)"

definition response_of :: "st_event_record \<Rightarrow> st_event_record \<Rightarrow> u64" where
  "response_of r c = completion_when c - release_release r"

definition fix10 :: "rat \<Rightarrow> string" where
  "fix10 x = pad_left 10 (fixed2 x)"

definition print_stats ::
    "bool \<Rightarrow> task \<Rightarrow> st_event_record list \<Rightarrow> st_event_record list \<Rightarrow> string option" where
  "print_stats want_ms t release completion =
     (case (release, completion) of
        (r # _, c # _) \<Rightarrow>
          (let lateness = lateness_of r c; response = response_of r c in
           case count_preemptions release completion (0, 0) of
             None \<Rightarrow> None
           | Some (preemptions, migrations) \<Rightarrow>
               let ids = '' '' @ pad_left 5 (dec (unat (st_pid r))) @ '', '' @ pad_left 5 (dec (unat (st_job r)));
                   miss = pad_left 8 (if lateness > 0 then ''1'' else ''0'');
                   forced = pad_left 7 (dec (completion_forced c));
                   counts = pad_left 12 (dec (unat preemptions)) @ '', '' @
                            pad_left 12 (dec (unat migrations)) @ [CHR 0x0A]
               in Some
                 (if want_ms then
                    ids @ '', '' @ fix10 (nano_to_ms (uint (per t))) @ '', '' @
                    fix10 (nano_to_ms (sint response)) @ '', '' @ miss @ '', '' @
                    fix10 (nano_to_ms lateness) @ '', '' @
                    fix10 (if lateness > 0 then nano_to_ms lateness else 0) @ '', '' @ forced @ '', '' @
                    fix10 (nano_to_ms (uint (completion_exec_time c))) @ '', '' @ counts
                  else
                    ids @ '', '' @ pad_left 10 (dec (unat (per t))) @ '', '' @
                    pad_left 10 (dec (unat response)) @ '', '' @ miss @ '', '' @
                    pad_left 10 (dec_int lateness) @ '', '' @
                    pad_left 10 (dec_int (if lateness > 0 then lateness else 0)) @ '', '' @ forced @ '', '' @
                    pad_left 10 (dec (unat (completion_exec_time c))) @ '', '' @ counts))
      | _ \<Rightarrow> None)"

definition print_task_info :: "bool \<Rightarrow> task \<Rightarrow> string option" where
  "print_task_info want_ms t =
     (case tsk_name t of
        None \<Rightarrow> None
      | Some name \<Rightarrow> Some
          (''# task NAME='' @ name @ '' PID='' @ dec_int (tk_pid t) @
           '' COST='' @ (if want_ms then fixed2 (nano_to_ms (uint (exe t))) else dec (unat (exe t))) @
           '' PERIOD='' @ (if want_ms then fixed2 (nano_to_ms (uint (per t))) else dec (unat (per t))) @
           '' CPU='' @ dec_int (tsk_cpu t) @ [CHR 0x0A]))"

section \<open>Matching releases and completions\<close>

function find_completion ::
    "u32 \<Rightarrow> nat \<Rightarrow> st_event_record list \<Rightarrow> st_event_record list option" where
  "find_completion job cnt pos =
     (if pos \<noteq> [] \<and> cnt < MAX_COMPLETIONS_TO_CHECK then
        (case find_evtype ST_COMPLETION pos of
           [] \<Rightarrow> None
         | c # rest \<Rightarrow>
             if st_job c = job then Some (c # rest) else find_completion job (Suc cnt) rest)
      else None)"
  by pat_completeness auto
termination
  by (relation "measure (\<lambda>(job, cnt, pos). MAX_COMPLETIONS_TO_CHECK - cnt)") auto

declare find_completion.simps [simp del]

text \<open>The loop over the events of a task.  \<open>release_from\<close> is the release of the task system
  if jobs before it are to be skipped.\<close>

fun jobs_loop :: "bool \<Rightarrow> u64 option \<Rightarrow> task \<Rightarrow> st_event_record list \<Rightarrow> string option" where
  "jobs_loop want_ms release_from t [] = Some ''''"
| "jobs_loop want_ms release_from t (r # e) =
     (let out =
        (if kind_of r = ST_RELEASE \<and>
            (case release_from of None \<Rightarrow> True | Some sys_release \<Rightarrow> release_release r \<ge> sys_release)
         then (case find_completion (st_job r) 0 (r # e) of
                 None \<Rightarrow> Some ''''
               | Some pos \<Rightarrow> print_stats want_ms t (r # e) pos)
         else Some '''')
      in case out of
           None \<Rightarrow> None
         | Some s \<Rightarrow>
             (case jobs_loop want_ms release_from t e of None \<Rightarrow> None | Some s' \<Rightarrow> Some (s @ s')))"

section \<open>Options\<close>

record js_opts =
  wait_for_release :: bool
  want_ms :: bool
  pid_filter :: u32
  name_filter :: "string option"
  period_filter :: u32

definition js_defaults :: js_opts where
  "js_defaults = \<lparr>wait_for_release = False, want_ms = False, pid_filter = 0, name_filter = None, period_filter = 0\<rparr>"

datatype js_error =
  Js_invalid_PID | Js_invalid_period | Js_usage_shown | Js_argument_missing | Js_bad_argument
| Js_not_loaded | Js_no_system_release | Js_undefined

fun js_options ::
    "(string \<Rightarrow> int) \<Rightarrow> js_opts \<Rightarrow> (char \<times> string) list \<Rightarrow> js_error + js_opts" where
  "js_options atoi opts [] = Inr opts"
| "js_options atoi opts ((opt, optarg) # rest) =
     (if opt = CHR ''r'' then js_options atoi (opts\<lparr>wait_for_release := True\<rparr>) rest
      else if opt = CHR ''m'' then js_options atoi (opts\<lparr>want_ms := True\<rparr>) rest
      else if opt = CHR ''p'' then
        (if (of_int (atoi optarg) :: u32) = 0 then Inl Js_invalid_PID
         else js_options atoi (opts\<lparr>pid_filter := of_int (atoi optarg)\<rparr>) rest)
      else if opt = CHR ''t'' then
        (if (of_int (atoi optarg) :: u32) = 0 then Inl Js_invalid_period
         else js_options atoi (opts\<lparr>period_filter := of_int (atoi optarg)\<rparr>) rest)
      else if opt = CHR ''n'' then js_options atoi (opts\<lparr>name_filter := Some optarg\<rparr>) rest
      else if opt = CHR ''h'' then Inl Js_usage_shown
      else if opt = CHR '':'' then Inl Js_argument_missing
      else Inl Js_bad_argument)"

text \<open>The period is given in the unit of the output; the product is computed in 32 bits.\<close>

definition js_period :: "js_opts \<Rightarrow> js_opts" where
  "js_period opts =
     (if want_ms opts then opts\<lparr>period_filter := period_filter opts * 1000000\<rparr> else opts)"

section \<open>The report\<close>

text \<open>Whether a task is passed over; its name is read only if there is a filter for names.\<close>

definition filtered_out :: "js_opts \<Rightarrow> task \<Rightarrow> bool option" where
  "filtered_out opts t =
     (if pid_filter opts \<noteq> 0 \<and> pid_filter opts \<noteq> of_int (tk_pid t) then Some True
      else case
        (case name_filter opts of
           None \<Rightarrow> Some False
         | Some n \<Rightarrow> (case tsk_name t of None \<Rightarrow> None | Some name \<Rightarrow> Some (name \<noteq> n))) of
          None \<Rightarrow> None
        | Some True \<Rightarrow> Some True
        | Some False \<Rightarrow> Some (period_filter opts \<noteq> 0 \<and> period_filter opts \<noteq> per t))"

fun report_loop :: "js_opts \<Rightarrow> u64 option \<Rightarrow> task list \<Rightarrow> string option" where
  "report_loop opts release_from [] = Some ''''"
| "report_loop opts release_from (t # ts) =
     (case filtered_out opts t of
        None \<Rightarrow> None
      | Some True \<Rightarrow> report_loop opts release_from ts
      | Some False \<Rightarrow>
          (case (print_task_info (want_ms opts) t, jobs_loop (want_ms opts) release_from t (tk_events t)) of
             (Some info, Some jobs) \<Rightarrow>
               (case report_loop opts release_from ts of None \<Rightarrow> None | Some s \<Rightarrow> Some (info @ jobs @ s))
           | _ \<Rightarrow> None))"

definition header_line :: string where
  "header_line =
     ''#'' @ pad_left 5 ''Task'' @ '', '' @ pad_left 5 ''Job'' @ '', '' @ pad_left 10 ''Period'' @ '', '' @
     pad_left 10 ''Response'' @ '', '' @ pad_left 8 ''DL Miss?'' @ '', '' @ pad_left 10 ''Lateness'' @ '', '' @
     pad_left 10 ''Tardiness'' @ '', '' @ pad_left 7 ''Forced?'' @ '', '' @ pad_left 10 ''ACET'' @ '', '' @
     pad_left 12 ''Preemptions'' @ '', '' @ pad_left 12 ''Migrations'' @ [CHR 0x0A]"

definition js_report :: "js_opts \<Rightarrow> globals \<Rightarrow> js_error + string" where
  "js_report opts g =
     (let release_from =
        (if wait_for_release opts
         then map_option (\<lambda>r. Some (sys_release_release r)) (find_sys_event ST_SYS_RELEASE g)
         else Some None)
      in case release_from of
           None \<Rightarrow> Inl Js_no_system_release
         | Some rf \<Rightarrow>
             (case report_loop opts rf (each_task g) of
                None \<Rightarrow> Inl Js_undefined
              | Some s \<Rightarrow> Inr (header_line @ s)))"

text \<open>
  The program: \<open>lnk\<close> tells whether the links could be allocated, \<open>m\<close> is the memory at
  the start.
\<close>

definition job_stats_main ::
    "(string \<Rightarrow> int) \<Rightarrow> os \<Rightarrow> (nat \<Rightarrow> heap_alloc) \<Rightarrow> bool \<Rightarrow> event_mem \<Rightarrow>
     (char \<times> string) list \<Rightarrow> string list \<Rightarrow> js_error + string" where
  "job_stats_main atoi os al lnk m args files =
     (case js_options atoi js_defaults args of
        Inl e \<Rightarrow> Inl e
      | Inr opts \<Rightarrow>
          (let opts = js_period opts in
           case load os al files m of
             None \<Rightarrow> Inl Js_undefined
           | Some (m1, None, cnt) \<Rightarrow> Inl Js_not_loaded
           | Some (m1, Some h, cnt) \<Rightarrow>
               (case split lnk (m1, h) cnt True (init_tasks initial_globals) of
                  None \<Rightarrow> Inl Js_undefined
                | Some (q, g) \<Rightarrow> js_report opts g)))"

end
