(* ===== verification/Tasks_Correct.thy ===== *)
theory Tasks_Correct
  imports Tasks
begin

text \<open>
  What \<^verbatim>\<open>split\<close> makes of a trace.  The specification is a table computed from the sequence
  of the records: one task per PID in the order in which the PIDs appear, with the last
  parameter record, the last name and, in order, all other records of that PID; what belongs
  to no task is a system event.
\<close>

section \<open>Specification\<close>

definition ordinary :: "st_event_record \<Rightarrow> bool" where
  "ordinary r \<longleftrightarrow> kind_of r \<noteq> ST_PARAM \<and> kind_of r \<noteq> ST_NAME"

definition last_of :: "nat \<Rightarrow> st_event_record list \<Rightarrow> st_event_record option" where
  "last_of k rs =
     (let xs = filter (\<lambda>r. kind_of r = k) rs in if xs = [] then None else Some (last xs))"

definition task_of :: "st_event_record list \<Rightarrow> int \<Rightarrow> task" where
  "task_of rs p =
     (let own = filter (\<lambda>r. pid_of r = p) rs; es = filter ordinary own in
      \<lparr>tk_pid = p, tk_no_events = of_nat (length es), tk_name = last_of ST_NAME own,
       tk_param = last_of ST_PARAM own, tk_events = es\<rparr>)"

text \<open>The PIDs that get a place in the table, which has \<open>MAX_TASKS\<close> places.\<close>

definition add_slot :: "int list \<Rightarrow> st_event_record \<Rightarrow> int list" where
  "add_slot ps r =
     (if pid_of r = 0 \<or> pid_of r \<in> set ps \<or> MAX_TASKS \<le> length ps then ps else ps @ [pid_of r])"

definition slots :: "st_event_record list \<Rightarrow> int list" where
  "slots rs = foldl add_slot [] rs"

definition table :: "st_event_record list \<Rightarrow> int list \<Rightarrow> task list" where
  "table rs ps = map (task_of rs) ps @ replicate (MAX_TASKS - length ps) empty_task"

definition first_time :: "st_event_record list \<Rightarrow> u64" where
  "first_time rs =
     (case filter (\<lambda>r. event_time r \<noteq> 0) rs of [] \<Rightarrow> 0 | r # _ \<Rightarrow> event_time r)"

definition globals_with :: "task list \<Rightarrow> st_event_record list \<Rightarrow> u64 \<Rightarrow> globals" where
  "globals_with ts es t0 = initial_globals\<lparr>tasks := ts, sys_events := es, time0 := t0\<rparr>"

definition globals_of :: "bool \<Rightarrow> st_event_record list \<Rightarrow> globals" where
  "globals_of find_time0 rs =
     globals_with (table rs (slots rs)) (filter (\<lambda>r. ordinary r \<and> pid_of r \<notin> set (slots rs)) rs)
       (if find_time0 then first_time rs else 0)"

section \<open>The slots\<close>

lemma slots_simps [simp]: "slots [] = []" "slots (rs @ [r]) = add_slot (slots rs) r"
  by (simp_all add: slots_def)

lemma slots_inv:
  "distinct (slots rs) \<and> 0 \<notin> set (slots rs) \<and> length (slots rs) \<le> MAX_TASKS"
  by (induction rs rule: rev_induct) (auto simp: add_slot_def)

lemma slots_all:
  "length (slots rs) < MAX_TASKS \<Longrightarrow> r \<in> set rs \<Longrightarrow> pid_of r \<noteq> 0 \<Longrightarrow> pid_of r \<in> set (slots rs)"
  by (induction rs rule: rev_induct) (auto simp: add_slot_def split: if_splits)

text \<open>A PID that gets its place has not been seen before.\<close>

lemma new_slot:
  assumes "pid_of r \<in> set (add_slot (slots rs) r)" and "pid_of r \<notin> set (slots rs)" and "x \<in> set rs"
  shows "pid_of x \<noteq> pid_of r"
proof
  assume same: "pid_of x = pid_of r"
  have "pid_of r \<noteq> 0" "length (slots rs) < MAX_TASKS"
    using assms(1,2) by (auto simp: add_slot_def split: if_splits)
  then show False using slots_all [of rs x] assms(2,3) same by simp
qed

section \<open>Looking up a task\<close>

lemma by_pid_loop_used:
  assumes "p \<noteq> 0" and "\<forall>t \<in> set xs. tk_pid t \<noteq> 0 \<and> tk_pid t \<noteq> p"
  shows "by_pid_loop p (xs @ ys) = (case by_pid_loop p ys of (ys', r) \<Rightarrow>
    (xs @ ys', map_option (\<lambda>i. length xs + i) r))"
  using assms
proof (induction xs)
  case Nil
  obtain ys' r where "by_pid_loop p ys = (ys', r)" by fastforce
  then show ?case by (cases r) auto
qed (auto simp: option.map_comp o_def split: prod.splits intro: option.map_cong)

lemma by_pid_loop_hit: "tk_pid t = p \<Longrightarrow> p \<noteq> 0 \<Longrightarrow> by_pid_loop p (t # ts) = (t # ts, Some 0)"
  by simp

lemma by_pid_loop_new:
  "by_pid_loop p (empty_task # ts) = (empty_task\<lparr>tk_pid := p\<rparr> # ts, Some 0)"
  by (simp add: empty_task_def)

lemma tk_pid_task_of [simp]: "tk_pid (task_of rs p) = p"
  by (simp add: task_of_def Let_def)

lemma task_of_none: "(\<And>x. x \<in> set rs \<Longrightarrow> pid_of x \<noteq> p) \<Longrightarrow> task_of rs p = empty_task\<lparr>tk_pid := p\<rparr>"
  by (simp add: task_of_def last_of_def empty_task_def Let_def filter_none)

lemma by_pid_slots:
  "\<exists>j. by_pid (pid_of r) (table rs (slots rs)) = (table rs (slots (rs @ [r])), j) \<and>
     (case j of None \<Rightarrow> pid_of r \<notin> set (slots (rs @ [r]))
      | Some i \<Rightarrow> i < length (slots (rs @ [r])) \<and> slots (rs @ [r]) ! i = pid_of r)"
proof -
  let ?p = "pid_of r" and ?ps = "slots rs" let ?k = "MAX_TASKS - length ?ps"
  have inv: "0 \<notin> set ?ps" "length ?ps \<le> MAX_TASKS" using slots_inv by auto
  have used: "\<forall>t \<in> set (map (task_of rs) qs). tk_pid t \<noteq> 0 \<and> tk_pid t \<noteq> ?p"
    if "set qs \<subseteq> set ?ps" "?p \<notin> set qs" for qs
    using that inv by auto
  consider (zero) "?p = 0" | (hit) "?p \<noteq> 0" "?p \<in> set ?ps"
    | (new) "?p \<noteq> 0" "?p \<notin> set ?ps" "length ?ps < MAX_TASKS"
    | (full) "?p \<noteq> 0" "?p \<notin> set ?ps" "length ?ps = MAX_TASKS"
    using inv by linarith
  then show ?thesis
  proof cases
    case zero
    then show ?thesis using inv by (auto simp: by_pid_def add_slot_def)
  next
    case hit
    then obtain us vs where ps: "?ps = us @ ?p # vs" "?p \<notin> set us" by (metis split_list_first)
    have "by_pid ?p (table rs ?ps) = (table rs ?ps, Some (length us))"
      using by_pid_loop_used [OF hit(1) used [of us]] by_pid_loop_hit [OF tk_pid_task_of hit(1)] hit(1) ps
      by (simp add: by_pid_def table_def subset_insertI2)
    then show ?thesis using hit ps by (auto simp: add_slot_def)
  next
    case new
    then obtain k where k: "?k = Suc k" by (metis Suc_diff_Suc)
    then have k': "MAX_TASKS - Suc (length ?ps) = k" by simp
    have t: "task_of rs ?p = empty_task\<lparr>tk_pid := ?p\<rparr>"
      by (rule task_of_none) (use new_slot [of r rs] new in \<open>auto simp: add_slot_def\<close>)
    have "by_pid ?p (table rs ?ps) = (table rs (?ps @ [?p]), Some (length ?ps))"
      using by_pid_loop_used [OF new(1) used [of ?ps]] new by_pid_loop_new k k' t
      by (simp add: by_pid_def table_def)
    then show ?thesis using new by (auto simp: add_slot_def)
  next
    case full
    have "by_pid ?p (table rs ?ps) = (table rs ?ps, None)"
      using by_pid_loop_used [OF full(1) used [of ?ps], of "[]"] full by (simp add: by_pid_def table_def)
    then show ?thesis using full by (auto simp: add_slot_def)
  qed
qed

section \<open>One record\<close>

lemma task_of_other: "pid_of r \<noteq> p \<Longrightarrow> task_of (rs @ [r]) p = task_of rs p"
  by (simp add: task_of_def)

lemma table_update:
  assumes "distinct ps" and "i < length ps" and "ps ! i = pid_of r" and "y = task_of (rs @ [r]) (pid_of r)"
  shows "(table rs ps)[i := y] = table (rs @ [r]) ps"
proof -
  have "(map (task_of rs) ps)[i := y] = map (task_of (rs @ [r])) ps"
    using assms by (intro nth_equalityI) (auto simp: nth_list_update nth_eq_iff_index_eq intro!: task_of_other [symmetric])
  then show ?thesis using assms(2) by (simp add: table_def list_update_append)
qed

lemma table_nth: "i < length ps \<Longrightarrow> table rs ps ! i = task_of rs (ps ! i)"
  by (simp add: table_def nth_append)

lemma table_same: "pid_of r \<notin> set ps \<Longrightarrow> table rs ps = table (rs @ [r]) ps"
  by (auto simp: table_def intro!: task_of_other [symmetric])

lemma sys_same:
  "filter (\<lambda>x. ordinary x \<and> pid_of x \<notin> set (slots (rs @ [r]))) rs =
   filter (\<lambda>x. ordinary x \<and> pid_of x \<notin> set (slots rs)) rs"
  using new_slot [of r rs] by (intro filter_cong) (auto simp: add_slot_def)

lemma first_time_snoc:
  "first_time (rs @ [r]) = (if first_time rs = 0 then event_time r else first_time rs)"
proof (cases "filter (\<lambda>r. event_time r \<noteq> 0) rs")
  case (Cons x xs)
  then have "event_time x \<noteq> 0" by (metis (mono_tags, lifting) Cons_eq_filterD)
  then show ?thesis using Cons by (simp add: first_time_def)
qed (simp add: first_time_def)

text \<open>What a record does to its task.\<close>

definition enter :: "st_event_record \<Rightarrow> task \<Rightarrow> task" where
  "enter r t =
     (if kind_of r = ST_PARAM then t\<lparr>tk_param := Some r\<rparr>
      else if kind_of r = ST_NAME then t\<lparr>tk_name := Some r\<rparr>
      else t\<lparr>tk_events := tk_events t @ [r], tk_no_events := tk_no_events t + 1\<rparr>)"

lemma enter_task_of: "enter r (task_of rs (pid_of r)) = task_of (rs @ [r]) (pid_of r)"
  by (simp add: enter_def task_of_def last_of_def ordinary_def Let_def event_ids add.commute)

lemma split_record_step:
  assumes "by_pid (pid_of r) ts = (ts', j)"
  shows "split_record ft cnt r (n, globals_with ts es t0) =
    (if ordinary r \<and> \<not> n < unat cnt then None
     else Some (if ordinary r then Suc n else n,
       globals_with (case j of None \<Rightarrow> ts' | Some i \<Rightarrow> ts'[i := enter r (ts' ! i)])
         (if ordinary r \<and> j = None then es @ [r] else es)
         (if ft \<and> t0 = 0 then event_time r else t0)))"
proof (cases j)
  case None
  then show ?thesis
    using assms by (simp add: split_record_def globals_with_def ordinary_def Let_def)
next
  case (Some i)
  then show ?thesis
    using assms by (simp add: split_record_def globals_with_def ordinary_def enter_def Let_def)
qed

lemma split_record_globals:
  assumes "length (filter ordinary (rs @ [r])) \<le> unat cnt"
  shows "split_record ft cnt r (length (filter ordinary rs), globals_of ft rs) =
    Some (length (filter ordinary (rs @ [r])), globals_of ft (rs @ [r]))"
proof -
  let ?ps = "slots (rs @ [r])"
  obtain j where j: "by_pid (pid_of r) (table rs (slots rs)) = (table rs ?ps, j)"
    and jj: "case j of None \<Rightarrow> pid_of r \<notin> set ?ps | Some i \<Rightarrow> i < length ?ps \<and> ?ps ! i = pid_of r"
    using by_pid_slots by blast
  have tab: "(case j of None \<Rightarrow> table rs ?ps | Some i \<Rightarrow> (table rs ?ps)[i := enter r (table rs ?ps ! i)]) =
      table (rs @ [r]) ?ps"
    using jj table_same [of r ?ps rs] table_update [of ?ps _ r _ rs] slots_inv [of "rs @ [r]"]
    by (auto simp del: slots_simps simp: table_nth enter_task_of split: option.splits)
  have mem: "pid_of r \<in> set ?ps \<longleftrightarrow> j \<noteq> None"
  proof (cases j)
    case (Some i)
    then have "pid_of r = ?ps ! i" "i < length ?ps" using jj by (simp_all del: slots_simps)
    then have "pid_of r \<in> set ?ps" by (simp only: nth_mem)
    then show ?thesis using Some by simp
  qed (use jj in \<open>simp del: slots_simps\<close>)
  have sys: "(if ordinary r \<and> j = None then filter (\<lambda>x. ordinary x \<and> pid_of x \<notin> set (slots rs)) rs @ [r]
      else filter (\<lambda>x. ordinary x \<and> pid_of x \<notin> set (slots rs)) rs) =
      filter (\<lambda>x. ordinary x \<and> pid_of x \<notin> set ?ps) (rs @ [r])"
    using mem unfolding filter_append sys_same by auto
  have time: "(if ft \<and> (if ft then first_time rs else 0) = 0 then event_time r else if ft then first_time rs else 0) =
      (if ft then first_time (rs @ [r]) else 0)"
    by (simp add: first_time_snoc)
  have room: "\<not> (ordinary r \<and> \<not> length (filter ordinary rs) < unat cnt)" using assms by auto
  have links: "(if ordinary r then Suc (length (filter ordinary rs)) else length (filter ordinary rs)) =
      length (filter ordinary (rs @ [r]))" by simp
  show ?thesis
    unfolding globals_of_def split_record_step [OF j] tab sys time links if_not_P [OF room] ..
qed

text \<open>The whole loop, on the sequence of the records that are taken.\<close>

fun split_all ::
    "bool \<Rightarrow> u32 \<Rightarrow> st_event_record list \<Rightarrow> nat \<times> globals \<Rightarrow> (nat \<times> globals) option" where
  "split_all ft cnt [] s = Some s"
| "split_all ft cnt (r # rs) s = do { s1 \<leftarrow> split_record ft cnt r s; split_all ft cnt rs s1 }"

lemma split_all_append:
  "split_all ft cnt (xs @ ys) s = do { s1 \<leftarrow> split_all ft cnt xs s; split_all ft cnt ys s1 }"
  by (induction xs arbitrary: s) (auto split: Option.bind_splits)

lemma split_loop_drains:
  "drains take_event q rs q' \<Longrightarrow>
   split_loop ft cnt q s = do { s' \<leftarrow> split_all ft cnt rs s; Some (q', s') }"
proof (induction arbitrary: s rule: drains.induct)
  case (empty q q')
  then show ?case by (subst split_loop.simps) simp
next
  case (more q q1 r rs q')
  show ?case
  proof (cases "split_record ft cnt r s")
    case None
    then show ?thesis using more.hyps by (subst split_loop.simps) simp
  next
    case (Some s1)
    then show ?thesis using more by (subst split_loop.simps) simp
  qed
qed

lemma split_all_globals:
  "length (filter ordinary rs) \<le> unat cnt \<Longrightarrow>
   split_all ft cnt rs (0, globals_of ft []) = Some (length (filter ordinary rs), globals_of ft rs)"
proof (induction rs rule: rev_induct)
  case (snoc r rs)
  then show ?case using split_record_globals [of rs r cnt ft] by (simp add: split_all_append)
qed simp

lemma globals_of_Nil: "globals_of ft [] = init_tasks initial_globals"
proof -
  have "init_tasks_loop n i (us @ vs) = us @ replicate n empty_task"
    if "length us = i" "length vs = n" for n i us vs
    using that
  proof (induction n arbitrary: i us vs)
    case (Suc n)
    then obtain v vs' where "vs = v # vs'" by (cases vs) auto
    then show ?case using Suc.IH [of "us @ [empty_task]" "Suc i" vs'] Suc.prems
      by (simp add: list_update_append)
  qed simp
  from this [of "[]" 0 "replicate MAX_TASKS empty_task" MAX_TASKS] show ?thesis
    by (simp add: globals_of_def globals_with_def table_def first_time_def init_tasks_def initial_globals_def)
qed

text \<open>Draining the queue into the table.\<close>

lemma split_ok:
  assumes "queued q M" and "size M \<le> unat cnt"
  shows "\<exists>rs q'. mset rs = M \<and> sorted_wrt (\<lambda>a b. \<not> earlier_event b a) rs \<and> queued q' {#} \<and>
    split True q cnt ft (init_tasks initial_globals) = Some (q', globals_of ft rs)"
proof -
  obtain rs q' where rs: "drains take_event q rs q'" "queued q' {#}" "mset rs = M"
    "sorted_wrt (\<lambda>a b. \<not> earlier_event b a) rs"
    using event_heap.drained [OF assms(1)] by blast
  have "length (filter ordinary rs) \<le> length rs" by simp
  also have "\<dots> \<le> unat cnt" using assms(2) rs(3) by auto
  finally have "split_all ft cnt rs (0, init_tasks initial_globals) =
      Some (length (filter ordinary rs), globals_of ft rs)"
    using split_all_globals by (simp add: globals_of_Nil)
  then have "split True q cnt ft (init_tasks initial_globals) = Some (q', globals_of ft rs)"
    using split_loop_drains [OF rs(1)] by (simp add: split_def)
  with rs show ?thesis by blast
qed

section \<open>What the table shows\<close>

lemma each_task_globals: "each_task (globals_of ft rs) = map (task_of rs) (slots rs)"
proof -
  have len: "length (slots rs) \<le> MAX_TASKS" "0 \<notin> set (slots rs)" using slots_inv by auto
  then have "length (table rs (slots rs)) = MAX_TASKS" by (simp add: table_def)
  moreover have "unat (of_nat MAX_TASKS :: u32) = MAX_TASKS" by (simp add: MAX_TASKS_def)
  ultimately have "each_task (globals_of ft rs) = takeWhile (\<lambda>t. tk_pid t \<noteq> 0) (table rs (slots rs))"
    by (simp add: each_task_def globals_of_def globals_with_def initial_globals_def)
  also have "\<dots> = map (task_of rs) (slots rs)"
  proof -
    have "\<forall>t \<in> set (map (task_of rs) (slots rs)). tk_pid t \<noteq> 0" using len(2) by auto
    then have "takeWhile (\<lambda>t. tk_pid t \<noteq> 0) (table rs (slots rs)) = map (task_of rs) (slots rs) @
        takeWhile (\<lambda>t. tk_pid t \<noteq> 0) (replicate (MAX_TASKS - length (slots rs)) empty_task)"
      unfolding table_def by (intro takeWhile_append2) auto
    then show ?thesis by (cases "MAX_TASKS - length (slots rs)") (simp_all add: empty_task_def)
  qed
  finally show ?thesis .
qed

lemma count_tasks_length: "count_tasks g = of_nat (length (each_task g))"
proof -
  have "foldl (\<lambda>i t. i + 1) c xs = c + of_nat (length xs)" for c :: u32 and xs :: "task list"
    by (induction xs arbitrary: c) simp_all
  then show ?thesis by (simp add: count_tasks_def)
qed

lemma globals_of_select [simp]:
  "sys_events (globals_of ft rs) = filter (\<lambda>r. ordinary r \<and> pid_of r \<notin> set (slots rs)) rs"
  "time0 (globals_of ft rs) = (if ft then first_time rs else 0)"
  by (simp_all add: globals_of_def globals_with_def)

text \<open>The time base is the earliest time in the trace.\<close>

lemma first_time_least:
  assumes "sorted_wrt (\<lambda>a b. \<not> earlier_event b a) rs" and "r \<in> set rs" and "event_time r \<noteq> 0"
  shows "first_time rs \<noteq> 0 \<and> first_time rs \<le> event_time r"
proof -
  let ?ts = "filter (\<lambda>r. event_time r \<noteq> 0) rs"
  have r: "r \<in> set ?ts" using assms by simp
  then obtain x xs where xs: "?ts = x # xs" by (cases ?ts) auto
  have "sorted_wrt (\<lambda>a b. \<not> earlier_event b a) ?ts" using assms(1) by (rule sorted_wrt_filter)
  then have "r = x \<or> \<not> earlier_event r x" using r unfolding xs by auto
  moreover have "event_time x \<noteq> 0" using xs by (metis (mono_tags, lifting) Cons_eq_filterD)
  ultimately show ?thesis using xs assms(3) by (auto simp: first_time_def earlier_event_def)
qed

text \<open>Names that are terminated in the trace can be printed.\<close>

lemma tsk_name_defined:
  assumes "\<And>r. r \<in> set rs \<Longrightarrow> kind_of r = ST_NAME \<Longrightarrow> c_string (name_cmd r) \<noteq> None"
  shows "tsk_name (task_of rs p) \<noteq> None"
proof -
  have "last xs \<in> set xs" if "xs \<noteq> []" for xs :: "st_event_record list" using that by simp
  from this [of "filter (\<lambda>r. kind_of r = ST_NAME) (filter (\<lambda>r. pid_of r = p) rs)"] show ?thesis
    using assms by (auto simp: tsk_name_def task_of_def last_of_def Let_def)
qed

section \<open>Well-formed tables\<close>

text \<open>Used places with different PIDs, then unused ones.\<close>

definition table_ok :: "task list \<Rightarrow> bool" where
  "table_ok ts \<longleftrightarrow> length ts = MAX_TASKS \<and>
     (\<exists>xs ys. ts = xs @ ys \<and> distinct (map tk_pid xs) \<and> 0 \<notin> tk_pid ` set xs \<and>
        (\<forall>t \<in> set ys. tk_pid t = 0))"

lemma by_pid_ok:
  assumes "table_ok ts" and "by_pid p ts = (ts', r)"
  shows "table_ok ts' \<and>
    (case r of
       Some i \<Rightarrow> i < MAX_TASKS \<and> tk_pid (ts' ! i) = p \<and> p \<noteq> 0 \<and> ts' = ts[i := (ts ! i)\<lparr>tk_pid := p\<rparr>]
     | None \<Rightarrow> ts' = ts \<and> (p = 0 \<or> (\<forall>t \<in> set ts. tk_pid t \<noteq> 0 \<and> tk_pid t \<noteq> p)))"
proof (cases "p = 0")
  case False
  obtain xs ys where ts: "ts = xs @ ys" and xs: "distinct (map tk_pid xs)" "0 \<notin> tk_pid ` set xs"
    and ys: "\<forall>t \<in> set ys. tk_pid t = 0" and len: "length ts = MAX_TASKS"
    using assms(1) by (auto simp: table_ok_def)
  have run: "by_pid_loop p ts = (ts', r)" using assms(2) False by (simp add: by_pid_def)
  show ?thesis
  proof (cases "p \<in> tk_pid ` set xs")
    case True
    then obtain t where t: "t \<in> set xs" "tk_pid t = p" by auto
    then obtain us vs where us: "xs = us @ t # vs" by (meson split_list)
    then have "\<forall>u \<in> set us. tk_pid u \<noteq> 0 \<and> tk_pid u \<noteq> p" using xs t(2) by (fastforce simp: us image_iff)
    from by_pid_loop_used [OF False this, of "t # vs @ ys"] have "ts' = ts \<and> r = Some (length us)"
      using run t(2) False by (simp add: ts us)
    moreover have "(ts ! length us)\<lparr>tk_pid := p\<rparr> = ts ! length us" using t(2) by (simp add: ts us)
    ultimately show ?thesis using assms(1) t(2) len False
      by (auto simp: ts us list_update_append)
  next
    case out: False
    then have "\<forall>u \<in> set xs. tk_pid u \<noteq> 0 \<and> tk_pid u \<noteq> p" using xs by auto
    note used = by_pid_loop_used [OF False this]
    show ?thesis
    proof (cases ys)
      case Nil
      then show ?thesis using used [of "[]"] run assms(1) out xs by (auto simp: ts)
    next
      case (Cons y zs)
      then have y: "tk_pid y = 0" using ys by simp
      have "ts' = xs @ y\<lparr>tk_pid := p\<rparr> # zs \<and> r = Some (length xs)"
        using used [of ys] run y False by (simp add: ts Cons)
      moreover have "table_ok (xs @ y\<lparr>tk_pid := p\<rparr> # zs)"
        unfolding table_ok_def using len xs ys out False Cons ts
        by (intro conjI exI [of _ "xs @ [y\<lparr>tk_pid := p\<rparr>]"] exI [of _ zs]) auto
      ultimately show ?thesis using len False by (auto simp: ts Cons list_update_append)
    qed
  qed
qed (use assms in \<open>simp add: by_pid_def\<close>)

lemma initial_table_ok: "table_ok (replicate MAX_TASKS empty_task)"
  unfolding table_ok_def by (intro conjI exI [of _ "[]"] exI [of _ "replicate MAX_TASKS empty_task"])
    (auto simp: empty_task_def)

section \<open>Cropping\<close>

lemma crop_list_filter: "crop_list g mn mx rs = filter (\<lambda>r. mn \<le> evtime g r \<and> evtime g r \<le> mx) rs"
  by (induction rs) auto

end
