(* ===== verification/Job_Stats_Correct.thy ===== *)
theory Job_Stats_Correct
  imports Job_Stats Tasks_Correct
begin

text \<open>
  Which completion is matched to a release, what is counted as a preemption or a migration,
  and that the report of a task is always defined.
\<close>

section \<open>Matching\<close>

lemma find_evtype_filter:
  "find_evtype k rs = dropWhile (\<lambda>r. kind_of r \<noteq> k) rs"
  by (induction rs) simp_all

lemma find_evtype_Cons:
  "find_evtype k rs = c # rest \<Longrightarrow>
   kind_of c = k \<and> filter (\<lambda>r. kind_of r = k) rs = c # filter (\<lambda>r. kind_of r = k) rest \<and>
   (\<exists>us. rs = us @ c # rest)"
proof (induction rs)
  case (Cons r rs)
  show ?case
  proof (cases "kind_of r = k")
    case False
    then obtain us where "rs = us @ c # rest" using Cons by auto
    then have "\<exists>us. r # rs = us @ c # rest" by (metis append_Cons)
    then show ?thesis using Cons False by simp
  qed (use Cons.prems in auto)
qed simp

lemma find_evtype_Nil: "find_evtype k rs = [] \<longleftrightarrow> filter (\<lambda>r. kind_of r = k) rs = []"
  by (induction rs) simp_all

text \<open>
  The first completion with the number of the job, among as many completions as may be
  looked at.
\<close>

lemma find_completion_spec:
  "map_option hd (find_completion job cnt pos) =
   find (\<lambda>c. st_job c = job)
     (take (MAX_COMPLETIONS_TO_CHECK - cnt) (filter (\<lambda>r. kind_of r = ST_COMPLETION) pos))"
proof (induction job cnt pos rule: find_completion.induct)
  case (1 job cnt pos)
  let ?C = "\<lambda>r. kind_of r = ST_COMPLETION"
  show ?case
  proof (cases "pos \<noteq> [] \<and> cnt < MAX_COMPLETIONS_TO_CHECK")
    case False
    then show ?thesis by (subst find_completion.simps) auto
  next
    case True
    show ?thesis
    proof (cases "find_evtype ST_COMPLETION pos")
      case Nil
      then show ?thesis using True find_evtype_Nil [of ST_COMPLETION pos]
        by (subst find_completion.simps) simp
    next
      case (Cons c rest)
      have cs: "filter ?C pos = c # filter ?C rest" using find_evtype_Cons [OF Cons] by blast
      have "MAX_COMPLETIONS_TO_CHECK - cnt = Suc (MAX_COMPLETIONS_TO_CHECK - Suc cnt)"
        using True by (simp add: Suc_diff_Suc)
      then have tk: "take (MAX_COMPLETIONS_TO_CHECK - cnt) (filter ?C pos) =
          c # take (MAX_COMPLETIONS_TO_CHECK - Suc cnt) (filter ?C rest)" by (simp add: cs)
      show ?thesis
        unfolding tk using 1 [OF True Cons] True Cons by (subst find_completion.simps) simp
    qed
  qed
qed

lemma find_completion_suffix:
  "find_completion job cnt pos = Some cs \<Longrightarrow>
   \<exists>us c rest. pos = us @ cs \<and> cs = c # rest \<and> kind_of c = ST_COMPLETION \<and> st_job c = job"
proof (induction job cnt pos arbitrary: cs rule: find_completion.induct)
  case (1 job cnt pos)
  have ok: "pos \<noteq> [] \<and> cnt < MAX_COMPLETIONS_TO_CHECK"
    using 1(2) by (subst (asm) find_completion.simps) (auto split: if_splits)
  obtain c rest where c: "find_evtype ST_COMPLETION pos = c # rest"
    using 1(2) ok by (subst (asm) find_completion.simps) (auto split: list.splits)
  obtain us where us: "pos = us @ c # rest" "kind_of c = ST_COMPLETION"
    using find_evtype_Cons [OF c] by blast
  show ?case
  proof (cases "st_job c = job")
    case True
    then have "cs = c # rest" using 1(2) ok c by (subst (asm) find_completion.simps) simp
    then show ?thesis using us True by blast
  next
    case False
    then have "find_completion job (Suc cnt) rest = Some cs"
      using 1(2) ok c by (subst (asm) find_completion.simps) simp
    from 1(1) [OF ok c False this] obtain vs where
      "rest = vs @ cs" "\<exists>c rest. cs = c # rest \<and> kind_of c = ST_COMPLETION \<and> st_job c = job" by blast
    then show ?thesis using us by (metis append_Cons append_assoc)
  qed
qed

section \<open>Counting\<close>

text \<open>The records of a job between two places, and the CPU it last left.\<close>

definition left_on :: "u32 \<Rightarrow> st_event_record list \<Rightarrow> u8 option" where
  "left_on job us =
     (let xs = filter (\<lambda>r. st_job r = job \<and> kind_of r = ST_SWITCH_AWAY) us
      in if xs = [] then None else Some (st_cpu (last xs)))"

definition resumes :: "u32 \<Rightarrow> st_event_record list \<Rightarrow> nat \<Rightarrow> bool" where
  "resumes job es i \<longleftrightarrow>
     st_job (es ! i) = job \<and> kind_of (es ! i) = ST_SWITCH_TO \<and> left_on job (take i es) \<noteq> None"

definition migrates :: "u32 \<Rightarrow> st_event_record list \<Rightarrow> nat \<Rightarrow> bool" where
  "migrates job es i \<longleftrightarrow> resumes job es i \<and> left_on job (take i es) \<noteq> Some (st_cpu (es ! i))"

definition resumed :: "u32 \<Rightarrow> st_event_record list \<Rightarrow> nat" where
  "resumed job es = length (filter (resumes job es) [0..<length es])"

definition migrated :: "u32 \<Rightarrow> st_event_record list \<Rightarrow> nat" where
  "migrated job es = length (filter (migrates job es) [0..<length es])"

lemma migrated_le: "migrated job es \<le> resumed job es"
proof -
  have "filter (migrates job es) is = filter (migrates job es) (filter (resumes job es) is)" for "is"
    by (simp, rule filter_cong) (auto simp: migrates_def)
  then show ?thesis unfolding migrated_def resumed_def by (metis length_filter_le)
qed

lemma left_on_snoc:
  "left_on job (us @ [r]) =
     (if st_job r = job \<and> kind_of r = ST_SWITCH_AWAY then Some (st_cpu r) else left_on job us)"
  by (simp add: left_on_def Let_def)

lemma snoc_counts:
  "resumed job (us @ [r]) = resumed job us +
     (if st_job r = job \<and> kind_of r = ST_SWITCH_TO \<and> left_on job us \<noteq> None then 1 else 0)"
  "migrated job (us @ [r]) = migrated job us +
     (if st_job r = job \<and> kind_of r = ST_SWITCH_TO \<and> left_on job us \<noteq> None \<and>
         left_on job us \<noteq> Some (st_cpu r) then 1 else 0)"
proof -
  have "filter (resumes job (us @ [r])) [0..<length us] = filter (resumes job us) [0..<length us]"
    "filter (migrates job (us @ [r])) [0..<length us] = filter (migrates job us) [0..<length us]"
    by (auto simp: resumes_def migrates_def nth_append intro!: filter_cong)
  then show "resumed job (us @ [r]) = resumed job us +
     (if st_job r = job \<and> kind_of r = ST_SWITCH_TO \<and> left_on job us \<noteq> None then 1 else 0)"
  "migrated job (us @ [r]) = migrated job us +
     (if st_job r = job \<and> kind_of r = ST_SWITCH_TO \<and> left_on job us \<noteq> None \<and>
         left_on job us \<noteq> Some (st_cpu r) then 1 else 0)"
    by (auto simp: resumed_def migrated_def resumes_def migrates_def)
qed

lemma switch_kinds: "ST_SWITCH_TO \<noteq> ST_SWITCH_AWAY"
  by (simp add: event_ids)

lemma preemption_loop_spec:
  assumes "seen = (left_on job us \<noteq> None)" and "seen \<Longrightarrow> left_on job us = Some lc"
  shows "preemption_loop job cs seen lc (es @ cs)
      (p + of_nat (resumed job us), m + of_nat (migrated job us)) =
    Some (p + of_nat (resumed job (us @ es)), m + of_nat (migrated job (us @ es)))"
  using assms
proof (induction es arbitrary: us seen lc)
  case Nil
  show ?case by (cases cs) simp_all
next
  case (Cons r es)
  have ne: "r # es @ cs \<noteq> cs"
    by (metis append_Cons append_self_conv2 list.distinct(1))
  note step = snoc_counts [of job us r] left_on_snoc [of job us r]
  consider (away) "st_job r = job" "kind_of r = ST_SWITCH_AWAY" | (to) "st_job r = job" "kind_of r = ST_SWITCH_TO"
    | (other) "\<not> (st_job r = job \<and> (kind_of r = ST_SWITCH_AWAY \<or> kind_of r = ST_SWITCH_TO))" by blast
  then show ?case
  proof cases
    case away
    then have "kind_of r \<noteq> ST_SWITCH_TO" using switch_kinds by metis
    then show ?thesis using Cons.IH [of True "us @ [r]" "st_cpu r"] away ne by (simp add: step)
  next
    case to
    then have k: "kind_of r \<noteq> ST_SWITCH_AWAY" using switch_kinds by metis
    have "preemption_loop job cs seen lc (es @ cs)
        (p + of_nat (resumed job (us @ [r])), m + of_nat (migrated job (us @ [r]))) =
      Some (p + of_nat (resumed job (us @ [r] @ es)), m + of_nat (migrated job (us @ [r] @ es)))"
      using Cons.IH [of seen "us @ [r]" lc] Cons.prems k by (simp add: step)
    moreover have "preemption_loop job cs seen lc ((r # es) @ cs)
        (p + of_nat (resumed job us), m + of_nat (migrated job us)) =
      preemption_loop job cs seen lc (es @ cs)
        (p + of_nat (resumed job (us @ [r])), m + of_nat (migrated job (us @ [r])))"
      using to k ne Cons.prems by (auto simp: step Let_def add_ac)
    ultimately show ?thesis by simp
  next
    case other
    have "left_on job (us @ [r]) = left_on job us" "resumed job (us @ [r]) = resumed job us"
      "migrated job (us @ [r]) = migrated job us" using other by (auto simp: step)
    then show ?thesis using Cons.IH [of seen "us @ [r]" lc] Cons.prems other ne by auto
  qed
qed

lemma count_preemptions_spec:
  assumes "es @ cs = r # e"
  shows "count_preemptions (es @ cs) cs (0, 0) =
    Some (of_nat (resumed (st_job r) es), of_nat (migrated (st_job r) es))"
proof -
  have "left_on job [] = None" "resumed job [] = 0" "migrated job [] = 0" for job
    by (simp_all add: left_on_def resumed_def migrated_def)
  then have "preemption_loop (st_job r) cs False 0 (es @ cs) (0, 0) =
      Some (of_nat (resumed (st_job r) es), of_nat (migrated (st_job r) es))"
    using preemption_loop_spec [of False "st_job r" "[]" 0 cs es 0 0] by simp
  then show ?thesis unfolding assms count_preemptions_def by (simp del: preemption_loop.simps)
qed

section \<open>The report is defined\<close>

lemma print_stats_defined:
  assumes "cs \<noteq> []"
  shows "\<exists>s. print_stats b t (es @ cs) cs = Some s"
proof -
  obtain c rest where c: "cs = c # rest" using assms by (cases cs) auto
  obtain r e where r: "es @ cs = r # e" using c by (cases "es @ cs") auto
  have "\<exists>p m. count_preemptions (es @ cs) cs (0, 0) = Some (p, m)"
    using count_preemptions_spec [OF r] by auto
  then show ?thesis using c r by (auto simp: print_stats_def Let_def)
qed

lemma jobs_loop_defined: "\<exists>s. jobs_loop b rf t es = Some s"
proof (induction es)
  case (Cons r es)
  then obtain s where s: "jobs_loop b rf t es = Some s" by blast
  have "\<exists>s. print_stats b t (r # es) pos = Some s" if fc: "find_completion (st_job r) 0 (r # es) = Some pos" for pos
  proof -
    obtain us where "r # es = us @ pos" "pos \<noteq> []" using find_completion_suffix [OF fc] by auto
    then show ?thesis using print_stats_defined by metis
  qed
  then show ?case using s by (auto simp: Let_def split: option.splits)
qed simp

lemma filtered_out_spec:
  assumes "tsk_name t = Some name"
  shows "filtered_out opts t = Some
    (pid_filter opts \<noteq> 0 \<and> pid_filter opts \<noteq> of_int (tk_pid t) \<or>
     (case name_filter opts of None \<Rightarrow> False | Some n \<Rightarrow> name \<noteq> n) \<or>
     period_filter opts \<noteq> 0 \<and> period_filter opts \<noteq> per t)"
proof (cases "name_filter opts")
  case None
  then show ?thesis by (simp add: filtered_out_def)
next
  case (Some n)
  then show ?thesis using assms by (cases "name = n") (simp_all add: filtered_out_def)
qed

lemma report_loop_defined:
  "(\<forall>t \<in> set ts. tsk_name t \<noteq> None) \<Longrightarrow> \<exists>s. report_loop opts rf ts = Some s"
proof (induction ts)
  case (Cons t ts)
  then obtain s name where s: "report_loop opts rf ts = Some s" and name: "tsk_name t = Some name" by auto
  obtain b where b: "filtered_out opts t = Some b"
    using filtered_out_spec [OF name] by blast
  obtain jobs where "jobs_loop (want_ms opts) rf t (tk_events t) = Some jobs"
    using jobs_loop_defined by blast
  then show ?case using s name b by (cases b) (auto simp: print_task_info_def)
qed simp

end
