(* ===== verification/Stdump.thy ===== *)
theory Stdump
  imports Load
begin

text \<open>
  \<^verbatim>\<open>src/stdump.c\<close>: print all records of a set of schedule traces in the order of their
  times, or only the release time of the task system.  A record that is printed is not read
  again, so the change that printing makes to a name is not kept.
\<close>

section \<open>The program\<close>

record sd_opts =
  find_release :: bool
  show_count :: bool
  use_first_nonzero :: bool

datatype sd_error = Sd_usage_shown | Sd_argument_missing | Sd_bad_argument | Sd_not_loaded | Sd_undefined

fun sd_options :: "sd_opts \<Rightarrow> (char \<times> string) list \<Rightarrow> sd_error + sd_opts" where
  "sd_options opts [] = Inr opts"
| "sd_options opts ((opt, optarg) # rest) =
     (if opt = CHR ''r'' then sd_options (opts\<lparr>find_release := True\<rparr>) rest
      else if opt = CHR ''c'' then sd_options (opts\<lparr>show_count := True\<rparr>) rest
      else if opt = CHR ''f'' then sd_options (opts\<lparr>use_first_nonzero := True\<rparr>) rest
      else if opt = CHR ''h'' then Inl Sd_usage_shown
      else if opt = CHR '':'' then Inl Sd_argument_missing
      else Inl Sd_bad_argument)"

definition ms_line :: "u64 \<Rightarrow> string" where
  "ms_line t = pad_left 6 (fixed2 (millis (unat t))) @ ''ms'' @ [CHR 0x0A]"

definition time_prefix :: "u64 \<Rightarrow> string" where
  "time_prefix time = ''['' @ pad_left 10 (dec (unat (time div 1000000))) @ ''] ''"

text \<open>The loop; the result has \<open>find_release\<close> and \<open>first\<close> afterwards and the output.\<close>

partial_function (option) stdump_loop ::
    "bool \<Rightarrow> event_mem \<times> heap \<Rightarrow> st_event_record option \<Rightarrow> string \<Rightarrow>
     (bool \<times> st_event_record option \<times> string) option" where
  "stdump_loop fr q first out = do {
     (q1, hn) \<leftarrow> take_event q;
     (case hn of
        None \<Rightarrow> Some (fr, first, out)
      | Some r \<Rightarrow>
          let time = event_time r; first1 = (if time \<noteq> 0 \<and> first = None then Some r else first) in
          if \<not> fr then do {
            (s, r1) \<leftarrow> print_event r;
            stdump_loop fr q1 first1 (out @ time_prefix time @ s) }
          else if kind_of r = ST_SYS_RELEASE then Some (False, first1, out @ ms_line (raw1 r))
          else stdump_loop fr q1 first1 out) }"

definition stdump_main ::
    "os \<Rightarrow> (nat \<Rightarrow> heap_alloc) \<Rightarrow> event_mem \<Rightarrow> (char \<times> string) list \<Rightarrow> string list \<Rightarrow>
     sd_error + string" where
  "stdump_main os al m args files =
     (case sd_options \<lparr>find_release = False, show_count = False, use_first_nonzero = False\<rparr> args of
        Inl e \<Rightarrow> Inl e
      | Inr opts \<Rightarrow>
          (case load os al files m of
             None \<Rightarrow> Inl Sd_undefined
           | Some (m1, None, cnt) \<Rightarrow> Inl Sd_not_loaded
           | Some (m1, Some h, cnt) \<Rightarrow>
               let out = (if show_count opts then ''Loaded '' @ dec (unat cnt) @ '' events.'' @ [CHR 0x0A] else '''') in
               (case stdump_loop (find_release opts) (m1, h) None out of
                  None \<Rightarrow> Inl Sd_undefined
                | Some (fr, first, out) \<Rightarrow>
                    Inr (if fr \<and> use_first_nonzero opts
                         then (case first of None \<Rightarrow> out | Some r \<Rightarrow> out @ ms_line (event_time r))
                         else out))))"

section \<open>What is printed\<close>

definition event_line :: "st_event_record \<Rightarrow> string" where
  "event_line r = time_prefix (event_time r) @ fst (the (print_event r))"

text \<open>All records are printed.\<close>

lemma stdump_prints_all:
  "drains take_event q rs q' \<Longrightarrow>
   \<exists>f. stdump_loop False q first out = Some (False, f, out @ concat (map event_line rs))"
proof (induction arbitrary: first out rule: drains.induct)
  case (empty q q')
  then show ?case by (subst stdump_loop.simps) simp
next
  case (more q q1 r rs q')
  obtain s r1 where "print_event r = Some (s, r1)" using print_event_ok by blast
  moreover from this have "event_line r = time_prefix (event_time r) @ s" by (simp add: event_line_def)
  moreover obtain f where "stdump_loop False q1 (if event_time r \<noteq> 0 \<and> first = None then Some r else first)
      (out @ event_line r) = Some (False, f, (out @ event_line r) @ concat (map event_line rs))"
    using more.IH by blast
  ultimately show ?case using more.hyps(1) by (subst stdump_loop.simps) (simp add: Let_def)
qed

text \<open>Only the first release of the task system is reported.\<close>

lemma stdump_finds_release:
  "drains take_event q rs q' \<Longrightarrow>
   find (\<lambda>r. kind_of r = ST_SYS_RELEASE) rs = Some r \<Longrightarrow>
   \<exists>f. stdump_loop True q first out = Some (False, f, out @ ms_line (raw1 r))"
proof (induction arbitrary: first rule: drains.induct)
  case (more q q1 x rs q')
  show ?case
  proof (cases "kind_of x = ST_SYS_RELEASE")
    case True
    then show ?thesis using more.hyps(1) more.prems
      by (subst stdump_loop.simps) (simp add: Let_def)
  next
    case False
    then have "find (\<lambda>r. kind_of r = ST_SYS_RELEASE) rs = Some r" using more.prems by simp
    then show ?thesis using more.hyps(1) more.IH False
      by (subst stdump_loop.simps) (simp add: Let_def)
  qed
qed simp

lemma stdump_no_release:
  "drains take_event q rs q' \<Longrightarrow>
   find (\<lambda>r. kind_of r = ST_SYS_RELEASE) rs = None \<Longrightarrow>
   stdump_loop True q first out =
     Some (True, if first = None then find (\<lambda>r. event_time r \<noteq> 0) rs else first, out)"
proof (induction arbitrary: first rule: drains.induct)
  case (empty q q')
  then show ?case by (subst stdump_loop.simps) simp
next
  case (more q q1 x rs q')
  then have x: "kind_of x \<noteq> ST_SYS_RELEASE" "find (\<lambda>r. kind_of r = ST_SYS_RELEASE) rs = None"
    by (auto split: if_splits)
  then show ?case using more.hyps(1) more.IH
    by (subst stdump_loop.simps) (auto simp: Let_def)
qed

end
