(* ===== verification/Heap_Decrease.thy ===== *)
theory Heap_Decrease
  imports Heap_Correct
begin

text \<open>
  The operations of \<^verbatim>\<open>include/heap.h\<close> on nodes with a reference: \<open>heap_decrease\<close> and
  \<open>heap_delete\<close>.  Both move the content of a node (its value and its reference) up towards
  the root by exchanging it with that of the parent, and keep the reference variables in
  step; the tree itself stays.  Whether the trees are in heap order depends only on the parent
  pointers and the values, so the loops are treated on these.
\<close>

section \<open>Parents\<close>

abbreviation parent_of :: "'v mem \<Rightarrow> addr \<Rightarrow> addr option" where
  "parent_of m a \<equiv> n_parent (nodes m a)"

abbreviation degree_of :: "'v mem \<Rightarrow> addr \<Rightarrow> nat" where
  "degree_of m a \<equiv> unat (n_degree (nodes m a))"

text \<open>In a binomial tree a parent has a larger degree.\<close>

lemma tree_parents:
  assumes "tree_ok m par t" and "btree t" and "rank t < 2 ^ 32" and "x \<in> set (addrs (kids t))"
  shows "\<exists>p \<in> set (addrs_t t). parent_of m x = Some p \<and> degree_of m x < degree_of m p"
  using assms
proof (induction t arbitrary: par)
  case (Node a ks)
  obtain k where k: "k \<in> set ks" "x \<in> set (addrs_t k)" using Node.prems(4) by (auto simp: set_addrs)
  have "rank k \<in> set (map rank ks)" using k(1) by simp
  then have less: "rank k < length ks" using Node.prems(2) by (metis btree.simps set_rev atLeastLessThan_iff set_upt)
  have tk: "tree_ok m (Some a) k" "btree k" using Node.prems(1,2) k(1) by simp_all
  show ?case
  proof (cases "x = root k")
    case True
    have "degree_of m x = rank k" "degree_of m a = length ks"
      using tree_ok_deg [OF tk(1)] Node.prems(1,3) less True by (simp_all add: deg_def unat_of_nat)
    moreover have "parent_of m x = Some a" using tk(1) True by (cases k) simp
    ultimately show ?thesis using less by simp
  next
    case False
    then have "x \<in> set (addrs (kids k))" using k(2) by (simp add: addrs_t_root)
    then obtain p where "p \<in> set (addrs_t k)" "parent_of m x = Some p" "degree_of m x < degree_of m p"
      using Node.IH [OF k(1) tk] less Node.prems(3) by auto
    then show ?thesis using k(1) by (auto simp: set_addrs)
  qed
qed

lemma ordered_parents:
  "tree_ok m par t \<Longrightarrow>
   ordered bt t \<longleftrightarrow> (\<forall>x \<in> set (addrs (kids t)). \<forall>p. parent_of m x = Some p \<longrightarrow> \<not> bt x p)"
proof (induction t arbitrary: par)
  case (Node a ks)
  have tk: "tree_ok m (Some a) k" if "k \<in> set ks" for k using Node.prems that by simp
  have root: "parent_of m (root k) = Some a" if "k \<in> set ks" for k
    using tk [OF that] by (cases k) simp
  have "ordered bt (Node a ks) \<longleftrightarrow> (\<forall>k \<in> set ks. \<not> bt (root k) a \<and>
      (\<forall>x \<in> set (addrs (kids k)). \<forall>p. parent_of m x = Some p \<longrightarrow> \<not> bt x p))"
    using Node.IH [OF _ tk] by simp
  also have "\<dots> \<longleftrightarrow> (\<forall>k \<in> set ks. \<forall>x \<in> set (addrs_t k). \<forall>p. parent_of m x = Some p \<longrightarrow> \<not> bt x p)"
    using root by (auto simp: addrs_t_root)
  finally show ?case by (simp add: set_addrs)
qed

text \<open>The two facts for a root list.\<close>

definition parents_ok :: "'v mem \<Rightarrow> addr set \<Rightarrow> bool" where
  "parents_ok m A \<longleftrightarrow> (\<forall>x \<in> A. \<forall>p. parent_of m x = Some p \<longrightarrow> p \<in> A \<and> degree_of m x < degree_of m p)"

definition in_order :: "('v \<Rightarrow> 'v \<Rightarrow> bool) \<Rightarrow> 'v mem \<Rightarrow> addr set \<Rightarrow> bool" where
  "in_order hp m A \<longleftrightarrow> (\<forall>x \<in> A. \<forall>p. parent_of m x = Some p \<longrightarrow> \<not> better hp m x p)"

lemma root_no_parent: "tree_ok m None t \<Longrightarrow> parent_of m (root t) = None"
  by (cases t) simp

lemma forest_parents:
  assumes "forest m q ts" and "\<forall>t \<in> set ts. btree t" and "distinct (addrs ts)"
  shows "parents_ok m (set (addrs ts))"
  unfolding parents_ok_def
proof (intro ballI allI impI)
  fix x p assume x: "x \<in> set (addrs ts)" and p: "parent_of m x = Some p"
  obtain t where t: "t \<in> set ts" "x \<in> set (addrs_t t)" using x by (auto simp: set_addrs)
  have tk: "tree_ok m None t" using assms(1) t(1) by (simp add: forest_def)
  then have "x \<noteq> root t" using p root_no_parent by fastforce
  then have xk: "x \<in> set (addrs (kids t))" using t(2) by (simp add: addrs_t_root)
  have "small ts" using assms by (intro distinct_small) auto
  then have "rank t \<le> 64" using t(1) by (rule small_rank)
  then have "rank t < 2 ^ 32" by simp
  from tree_parents [OF tk _ this xk] assms(2) t(1) obtain p' where
    "p' \<in> set (addrs_t t)" "parent_of m x = Some p'" "degree_of m x < degree_of m p'" by blast
  then show "p \<in> set (addrs ts) \<and> degree_of m x < degree_of m p" using p t(1) by (auto simp: set_addrs)
qed

lemma forest_order:
  assumes "forest m q ts"
  shows "(\<forall>t \<in> set ts. ordered (better hp m) t) \<longleftrightarrow> in_order hp m (set (addrs ts))"
proof -
  have tk: "tree_ok m None t" if "t \<in> set ts" for t using assms that by (simp add: forest_def)
  have "(\<forall>t \<in> set ts. ordered (better hp m) t) \<longleftrightarrow> (\<forall>t \<in> set ts. \<forall>x \<in> set (addrs_t t). \<forall>p.
      parent_of m x = Some p \<longrightarrow> \<not> better hp m x p)"
    using ordered_parents [OF tk] root_no_parent [OF tk] by (auto simp: addrs_t_root)
  then show ?thesis by (simp add: in_order_def set_addrs)
qed

section \<open>Exchanging contents\<close>

text \<open>A step that changes values, references and cells only.\<close>

definition same_shape :: "'v mem \<Rightarrow> 'v mem \<Rightarrow> bool" where
  "same_shape m m' \<longleftrightarrow> (\<forall>a. n_parent (nodes m' a) = n_parent (nodes m a) \<and>
     n_next (nodes m' a) = n_next (nodes m a) \<and> n_child (nodes m' a) = n_child (nodes m a) \<and>
     n_degree (nodes m' a) = n_degree (nodes m a))"

lemma same_shape_refl [simp]: "same_shape m m"
  by (simp add: same_shape_def)

lemma same_shape_trans: "same_shape m m1 \<Longrightarrow> same_shape m1 m2 \<Longrightarrow> same_shape m m2"
  by (simp add: same_shape_def)

lemma same_shape_tree: "same_shape m m' \<Longrightarrow> tree_ok m' par t = tree_ok m par t"
proof (induction t arbitrary: par)
  case (Node a ks)
  have "chain m' p as = chain m p as" for p as
    by (rule chain_cong) (use Node.prems in \<open>simp add: same_shape_def\<close>)
  then show ?case using Node by (simp add: same_shape_def)
qed

lemma same_shape_forest:
  assumes "same_shape m m'"
  shows "forest m' p ts = forest m p ts"
proof -
  have "chain m' p as = chain m p as" for p as
    by (rule chain_cong) (use assms in \<open>simp add: same_shape_def\<close>)
  then show ?thesis using same_shape_tree [OF assms] by (simp add: forest_def)
qed

lemma same_shape_parents: "same_shape m m' \<Longrightarrow> parents_ok m' A = parents_ok m A"
  by (simp add: parents_ok_def same_shape_def)

text \<open>The content of a node, and reference variables that are in step with it.\<close>

definition item :: "'v mem \<Rightarrow> addr \<Rightarrow> 'v \<times> cell option" where
  "item m a = (n_value (nodes m a), n_ref (nodes m a))"

definition refs_ok :: "'v mem \<Rightarrow> addr set \<Rightarrow> bool" where
  "refs_ok m A \<longleftrightarrow> (\<forall>a \<in> A. \<forall>c. n_ref (nodes m a) = Some c \<longrightarrow> cells m c = Some a)"

definition items :: "'v mem \<Rightarrow> addr set \<Rightarrow> ('v \<times> cell option) multiset" where
  "items m A = image_mset (item m) (mset_set A)"

text \<open>The content of \<open>x\<close> has gone to \<open>y\<close>, that of the other nodes of \<open>A\<close> is rearranged.\<close>

definition moved :: "addr set \<Rightarrow> addr \<Rightarrow> addr \<Rightarrow> 'v mem \<Rightarrow> 'v mem \<Rightarrow> bool" where
  "moved A x y m m' \<longleftrightarrow> same_shape m m' \<and> (\<forall>a. a \<notin> A \<longrightarrow> nodes m' a = nodes m a) \<and>
     (\<forall>B. A \<subseteq> B \<longrightarrow> refs_ok m B \<longrightarrow> refs_ok m' B) \<and> item m' y = item m x \<and> items m' A = items m A"

lemma moved_refl [simp]: "moved A x x m m"
  by (simp add: moved_def)

lemma moved_trans: "moved A x y m m1 \<Longrightarrow> moved A y z m1 m2 \<Longrightarrow> moved A x z m m2"
  by (auto simp: moved_def intro: same_shape_trans)

lemma items_remove: "finite A \<Longrightarrow> x \<in> A \<Longrightarrow> items m (A - {x}) = items m A - {#item m x#}"
proof -
  assume "finite A" "x \<in> A"
  then have "mset_set A = add_mset x (mset_set (A - {x}))" by (simp add: mset_set.remove)
  then show ?thesis by (simp add: items_def)
qed

lemma items_member: "finite A \<Longrightarrow> i \<in># items m A \<longleftrightarrow> i \<in> item m ` A"
  by (simp add: items_def)

lemma items_values:
  assumes "finite A" and "items m' A = items m A" and "a \<in> A"
  shows "\<exists>b \<in> A. n_value (nodes m' a) = n_value (nodes m b)"
proof -
  have "item m' a \<in> item m ` A"
    using items_member [OF assms(1), of _ m] items_member [OF assms(1), of _ m'] assms(2,3) by auto
  then show ?thesis by (auto simp: item_def)
qed

lemma set_simps:
  "nodes (set_value a v m) = (nodes m)(a := (nodes m a)\<lparr>n_value := v\<rparr>)" "cells (set_value a v m) = cells m"
  "nodes (set_ref a r m) = (nodes m)(a := (nodes m a)\<lparr>n_ref := r\<rparr>)" "cells (set_ref a r m) = cells m"
  "nodes (set_cell c q m) = nodes m" "cells (set_cell c q m) = (cells m)(c := q)"
  by (simp_all add: set_value_def set_ref_def set_cell_def upd_def)

lemma swap_run:
  assumes "n_ref (nodes m x) = Some c" and "x \<noteq> p"
  shows "\<exists>m'. swap_with_parent x p m = Some m' \<and> nodes m' = (nodes m)
      (x := (nodes m x)\<lparr>n_value := n_value (nodes m p), n_ref := n_ref (nodes m p)\<rparr>,
       p := (nodes m p)\<lparr>n_value := n_value (nodes m x), n_ref := Some c\<rparr>) \<and>
    cells m' = (case n_ref (nodes m p) of None \<Rightarrow> cells m | Some d \<Rightarrow> (cells m)(d := Some x))(c := Some p)"
proof (cases "n_ref (nodes m p)")
  case None
  then show ?thesis using assms
    by (simp add: swap_with_parent_def Let_def set_simps fun_upd_twist)
next
  case (Some d)
  then show ?thesis using assms
    by (simp add: swap_with_parent_def Let_def set_simps fun_upd_twist)
qed

lemma swap_ok:
  assumes A: "x \<in> A" "p \<in> A" "x \<noteq> p" and c: "n_ref (nodes m x) = Some c"
  shows "\<exists>m'. swap_with_parent x p m = Some m' \<and> moved A x p m m' \<and> n_ref (nodes m' p) = Some c \<and>
    (\<forall>a. n_value (nodes m' a) = n_value (nodes m (if a = x then p else if a = p then x else a)))"
proof -
  define cs where "cs = (case n_ref (nodes m p) of None \<Rightarrow> cells m | Some d \<Rightarrow> (cells m)(d := Some x))"
  obtain m' where run: "swap_with_parent x p m = Some m'" and m': "nodes m' = (nodes m)
      (x := (nodes m x)\<lparr>n_value := n_value (nodes m p), n_ref := n_ref (nodes m p)\<rparr>,
       p := (nodes m p)\<lparr>n_value := n_value (nodes m x), n_ref := Some c\<rparr>)"
    "cells m' = cs(c := Some p)"
    using swap_run [OF c A(3)] unfolding cs_def by blast
  have it: "item m' = item m \<circ> (\<lambda>a. if a = x then p else if a = p then x else a)"
    using c A(3) by (auto simp: fun_eq_iff item_def m')
  let ?f = "\<lambda>a. if a = x then p else if a = p then x else a"
  have bij: "inj_on ?f A" "?f ` A = A" using A by (auto simp: inj_on_def image_iff split: if_splits) 
  have "items m' A = image_mset (item m) (image_mset ?f (mset_set A))"
    by (simp add: items_def it multiset.map_comp)
  also have "image_mset ?f (mset_set A) = mset_set A" using bij image_mset_mset_set [OF bij(1)] by simp
  finally have same: "items m' A = items m A" by (simp add: items_def)
  have "refs_ok m' B" if "A \<subseteq> B" and refs: "refs_ok m B" for B
    unfolding refs_ok_def
  proof (intro ballI allI impI)
    fix a d assume a: "a \<in> B" and d: "n_ref (nodes m' a) = Some d"
    have B: "x \<in> B" "p \<in> B" using A that(1) by auto
    have other: "cells m d = Some b \<Longrightarrow> n_ref (nodes m b') = Some d \<Longrightarrow> b' \<in> B \<Longrightarrow> b' = b" for b b'
      using refs by (auto simp: refs_ok_def)
    have cx: "cells m c = Some x" using refs B(1) c by (simp add: refs_ok_def)
    consider "a = x" | "a = p" | "a \<noteq> x" "a \<noteq> p" by blast
    then show "cells m' d = Some a"
    proof cases
      case 1
      then have pd: "n_ref (nodes m p) = Some d" using d A(3) by (simp add: m')
      then have "d \<noteq> c" using cx other [of x p] A(3) B by auto
      then show ?thesis using 1 pd by (simp add: m' cs_def)
    next
      case 2
      then show ?thesis using d by (simp add: m')
    next
      case 3
      then have ad: "n_ref (nodes m a) = Some d" using d by (simp add: m')
      then have da: "cells m d = Some a" using refs a by (simp add: refs_ok_def)
      then have "d \<noteq> c" using cx 3 by auto
      moreover have "n_ref (nodes m p) \<noteq> Some d" using other [OF da] B(2) 3 by blast
      ultimately show ?thesis using da by (auto simp: m' cs_def split: option.splits)
    qed
  qed
  moreover have "same_shape m m'" using A(3) by (auto simp: same_shape_def m')
  moreover have "nodes m' a = nodes m a" if "a \<notin> A" for a using that A by (auto simp: m')
  moreover have "item m' p = item m x" using A(3) by (simp add: it)
  ultimately have "moved A x p m m'" using same by (simp add: moved_def)
  moreover have "n_value (nodes m' a) = n_value (nodes m (?f a))" for a
    using arg_cong [OF fun_cong [OF it], of fst] by (simp add: item_def)
  ultimately show ?thesis using run c by (auto simp: m')
qed

section \<open>The loops\<close>

text \<open>
  Heap order with a hole at \<open>x\<close>: nothing is asked of \<open>x\<close> itself, but its children are not
  better than its parent.
\<close>

definition hole :: "('v \<Rightarrow> 'v \<Rightarrow> bool) \<Rightarrow> 'v mem \<Rightarrow> addr set \<Rightarrow> addr \<Rightarrow> bool" where
  "hole hp m A x \<longleftrightarrow>
     (\<forall>y \<in> A. \<forall>p. parent_of m y = Some p \<longrightarrow> y \<noteq> x \<longrightarrow> p \<noteq> x \<longrightarrow> \<not> better hp m y p) \<and>
     (\<forall>y \<in> A. \<forall>p. parent_of m y = Some x \<longrightarrow> parent_of m x = Some p \<longrightarrow> \<not> better hp m y p)"

text \<open>The children of \<open>x\<close> are not better than \<open>x\<close>.\<close>

definition below :: "('v \<Rightarrow> 'v \<Rightarrow> bool) \<Rightarrow> 'v mem \<Rightarrow> addr set \<Rightarrow> addr \<Rightarrow> bool" where
  "below hp m A x \<longleftrightarrow> (\<forall>y \<in> A. parent_of m y = Some x \<longrightarrow> \<not> better hp m y x)"

lemma hole_in_order:
  "hole hp m A x \<Longrightarrow> below hp m A x \<Longrightarrow> (\<And>p. parent_of m x = Some p \<Longrightarrow> \<not> better hp m x p) \<Longrightarrow>
   in_order hp m A"
  unfolding hole_def below_def in_order_def by metis

lemma moved_parent: "moved A x y m m' \<Longrightarrow> parent_of m' a = parent_of m a"
  by (simp add: moved_def same_shape_def)

context priority
begin

lemma in_order_hole: "parents_ok m A \<Longrightarrow> in_order hp m A \<Longrightarrow> hole hp m A x"
  unfolding hole_def in_order_def parents_ok_def by (meson better_trans)

text \<open>One exchange moves the hole to the parent.\<close>

lemma hole_step:
  assumes ok: "parents_ok m A" and h: "hole hp m A x" and x: "x \<in> A" "parent_of m x = Some p"
    and mv: "moved A x p m m'"
    and v: "\<And>a. n_value (nodes m' a) = n_value (nodes m (if a = x then p else if a = p then x else a))"
  shows "hole hp m' A p"
proof -
  have par: "parent_of m' a = parent_of m a" for a using mv by (rule moved_parent)
  have xp: "x \<noteq> p" and p: "p \<in> A" using ok x by (auto simp: parents_ok_def)
  have b: "better hp m' a b = better hp m (if a = x then p else if a = p then x else a)
      (if b = x then p else if b = p then x else b)" for a b
    by (simp add: better_def v)
  have up: "\<not> better hp m p q" if "parent_of m p = Some q" for q
  proof -
    have "degree_of m x < degree_of m p" "degree_of m p < degree_of m q" using ok x p that by (auto simp: parents_ok_def)
    then have "q \<noteq> x" by auto
    then show ?thesis using h p xp that by (auto simp: hole_def)
  qed
  have "\<not> better hp m' y q" if "y \<in> A" "parent_of m y = Some q" "y \<noteq> p" "q \<noteq> p" for y q
  proof -
    have "y \<noteq> x" using that x by auto
    then show ?thesis using h that x by (auto simp: b hole_def)
  qed
  moreover have "\<not> better hp m' y q" if "y \<in> A" "parent_of m y = Some p" "parent_of m p = Some q" for y q
  proof -
    have "degree_of m y < degree_of m p" "degree_of m x < degree_of m p" "degree_of m p < degree_of m q"
      using ok x p that by (auto simp: parents_ok_def)
    then have q: "q \<noteq> x" "q \<noteq> p" "y \<noteq> p" by auto
    show ?thesis
    proof (cases "y = x")
      case True
      then show ?thesis using up [OF that(3)] q by (simp add: b)
    next
      case False
      then have "\<not> better hp m y p" using h that xp by (auto simp: hole_def)
      then have "\<not> better hp m y q" using up [OF that(3)] by (rule better_trans)
      then show ?thesis using False q by (simp add: b)
    qed
  qed
  ultimately show ?thesis by (simp add: hole_def par)
qed

lemma below_step:
  assumes ok: "parents_ok m A" and h: "hole hp m A x" and d: "below hp m A x" and x: "x \<in> A" "parent_of m x = Some p"
    and bt: "better hp m x p" and mv: "moved A x p m m'"
    and v: "\<And>a. n_value (nodes m' a) = n_value (nodes m (if a = x then p else if a = p then x else a))"
  shows "below hp m' A p"
  unfolding below_def
proof (intro ballI impI)
  fix y assume y: "y \<in> A" and "parent_of m' y = Some p"
  then have py: "parent_of m y = Some p" using moved_parent [OF mv] by simp
  have xp: "x \<noteq> p" and yp: "y \<noteq> p" using ok x y py by (auto simp: parents_ok_def)
  have px: "\<not> better hp m p x" using bt by (rule better_asym)
  show "\<not> better hp m' y p"
  proof (cases "y = x")
    case True
    then show ?thesis using px xp by (simp add: better_def v)
  next
    case False
    then have "\<not> better hp m y p" using h y py xp by (auto simp: hole_def)
    then have "\<not> better hp m y x" using px by (rule better_trans)
    then show ?thesis using False yp xp by (simp add: better_def v)
  qed
qed

lemma bubble_loop_ok:
  assumes "parents_ok m A" and "hole hp m A x" and "x \<in> A" and "n_ref (nodes m x) = Some c"
  shows "\<exists>m' r. bubble_loop m x (parent_of m x) = Some (m', r) \<and> moved A x r m m' \<and> r \<in> A \<and>
    parent_of m' r = None \<and> n_ref (nodes m' r) = Some c \<and> hole hp m' A r"
  using assms
proof (induction "2 ^ 32 - degree_of m x" arbitrary: m x rule: less_induct)
  case less
  show ?case
  proof (cases "parent_of m x")
    case None
    then show ?thesis using less.prems by (simp add: bubble_loop.simps)
  next
    case (Some p)
    have p: "p \<in> A" "degree_of m x < degree_of m p" using less.prems(1,3) Some by (auto simp: parents_ok_def)
    then have "x \<noteq> p" by auto
    from swap_ok [OF less.prems(3) p(1) this less.prems(4)] obtain m1 where
      run: "swap_with_parent x p m = Some m1" and mv: "moved A x p m m1" and c: "n_ref (nodes m1 p) = Some c"
      and v: "\<And>a. n_value (nodes m1 a) = n_value (nodes m (if a = x then p else if a = p then x else a))" by blast
    have sh: "same_shape m m1" using mv by (simp add: moved_def)
    then have deg: "degree_of m1 p = degree_of m p" by (simp add: same_shape_def)
    have "degree_of m p < 2 ^ 32" using unsigned_less [of "n_degree (nodes m p)"] by simp
    then have "2 ^ 32 - degree_of m1 p < 2 ^ 32 - degree_of m x" using p(2) deg by linarith
    moreover have "parents_ok m1 A" using same_shape_parents [OF sh] less.prems(1) by simp
    moreover have "hole hp m1 A p" by (rule hole_step [OF less.prems(1-3) Some mv v])
    ultimately obtain m' r where "bubble_loop m1 p (parent_of m1 p) = Some (m', r)" "moved A p r m1 m'" "r \<in> A"
      "parent_of m' r = None" "n_ref (nodes m' r) = Some c" "hole hp m' A r"
      using less.hyps p(1) c by blast
    moreover from this(2) have "moved A x r m m'" by (rule moved_trans [OF mv])
    ultimately show ?thesis using Some run by (simp add: bubble_loop.simps)
  qed
qed

lemma decrease_loop_ok:
  assumes "parents_ok m A" and "hole hp m A x" and "below hp m A x" and "x \<in> A" and "n_ref (nodes m x) = Some c"
  shows "\<exists>m' y. decrease_loop hp m x (parent_of m x) = Some m' \<and> moved A x y m m' \<and> y \<in> A \<and>
    n_ref (nodes m' y) = Some c \<and> in_order hp m' A"
  using assms
proof (induction "2 ^ 32 - degree_of m x" arbitrary: m x rule: less_induct)
  case less
  show ?case
  proof (cases "\<exists>p. parent_of m x = Some p \<and> better hp m x p")
    case False
    then have "decrease_loop hp m x (parent_of m x) = Some m"
      by (auto simp: decrease_loop.simps better_def split: option.split)
    moreover have "in_order hp m A" using hole_in_order [OF less.prems(2,3)] False by blast
    ultimately show ?thesis using less.prems by (intro exI [of _ m] exI [of _ x]) simp
  next
    case True
    then obtain p where Some: "parent_of m x = Some p" and bt: "better hp m x p" by blast
    have p: "p \<in> A" "degree_of m x < degree_of m p" using less.prems(1,4) Some by (auto simp: parents_ok_def)
    then have "x \<noteq> p" by auto
    from swap_ok [OF less.prems(4) p(1) this less.prems(5)] obtain m1 where
      run: "swap_with_parent x p m = Some m1" and mv: "moved A x p m m1" and c: "n_ref (nodes m1 p) = Some c"
      and v: "\<And>a. n_value (nodes m1 a) = n_value (nodes m (if a = x then p else if a = p then x else a))" by blast
    have sh: "same_shape m m1" using mv by (simp add: moved_def)
    then have deg: "degree_of m1 p = degree_of m p" by (simp add: same_shape_def)
    have "degree_of m p < 2 ^ 32" using unsigned_less [of "n_degree (nodes m p)"] by simp
    then have "2 ^ 32 - degree_of m1 p < 2 ^ 32 - degree_of m x" using p(2) deg by linarith
    moreover have "parents_ok m1 A" using same_shape_parents [OF sh] less.prems(1) by simp
    moreover have "hole hp m1 A p" by (rule hole_step [OF less.prems(1,2,4) Some mv v])
    moreover have "below hp m1 A p" by (rule below_step [OF less.prems(1-4) Some bt mv v])
    ultimately obtain m' y where "decrease_loop hp m1 p (parent_of m1 p) = Some m'" "moved A p y m1 m'" "y \<in> A"
      "n_ref (nodes m' y) = Some c" "in_order hp m' A"
      using less.hyps p(1) c by blast
    moreover from this(2) have "moved A x y m m'" by (rule moved_trans [OF mv])
    ultimately show ?thesis
      using Some run bt decrease_loop.simps [of hp m x "Some p"]
      by (intro exI [of _ m'] exI [of _ y]) (simp add: better_def)
  qed
qed

end

lemma find_prev_ok:
  assumes "lseg m p as (Some r)" and "r \<notin> set as"
  shows "find_prev m r prev p = Some (if as = [] then prev else Some (last as))"
  using assms
proof (induction as arbitrary: p prev)
  case Nil
  then show ?case by (simp add: find_prev.simps)
next
  case (Cons a as)
  then show ?case by (subst find_prev.simps) auto
qed

section \<open>The operations\<close>

lemma parents_in_tree:
  assumes "tree_ok m par t" and "btree t" and "rank t < 2 ^ 32" and "x \<in> set (addrs (kids t))"
    and "parent_of m x = Some p"
  shows "p \<in> set (addrs_t t)"
  using tree_parents [OF assms(1-4)] assms(5) by auto

lemma hole_ordered:
  assumes h: "hole hp m A r" and t: "tree_ok m par t" "btree t" "rank t < 2 ^ 32"
    and "set (addrs_t t) \<subseteq> A - {r}"
  shows "ordered (better hp m) t"
  unfolding ordered_parents [OF t(1)]
proof (intro ballI allI impI)
  fix x p assume x: "x \<in> set (addrs (kids t))" and p: "parent_of m x = Some p"
  have "p \<in> A - {r}" using parents_in_tree [OF t x p] assms(5) by blast
  moreover have "x \<in> A - {r}" using x assms(5) by (auto simp: addrs_t_root)
  ultimately show "\<not> better hp m x p" using h p by (simp add: hole_def)
qed

lemma ordered_kids:
  assumes "btree t" and "\<forall>k \<in> set (kids t). ordered bt k"
  shows "binom_heap bt (rev (kids t))"
proof (cases t)
  case (Node a ks)
  have "map rank (rev ks) = rev (map rank ks)" by (simp add: rev_map)
  also have "\<dots> = [0..<length ks]" using assms(1) Node by simp
  finally show ?thesis using assms Node by (simp add: binom_heap_def asc_def)
qed

lemma forest_root:
  assumes "forest m q ts" and "\<forall>t \<in> set ts. btree t" and "distinct (addrs ts)"
    and "r \<in> set (addrs ts)" and "parent_of m r = None"
  shows "\<exists>ds t es. ts = ds @ t # es \<and> root t = r"
proof -
  obtain t where t: "t \<in> set ts" "r \<in> set (addrs_t t)" using assms(4) by (auto simp: set_addrs)
  have tk: "tree_ok m None t" using assms(1) t(1) by (simp add: forest_def)
  have "small ts" using assms(2,3) by (intro distinct_small) auto
  then have "rank t \<le> 64" using t(1) by (rule small_rank)
  then have rk: "rank t < 2 ^ 32" by simp
  have "r = root t" using tree_parents [OF tk _ rk, of r] assms(2,5) t by (auto simp: addrs_t_root)
  then show ?thesis using split_list [OF t(1)] by blast
qed

text \<open>The root \<open>r\<close>, with anything in it, leaves the root list.\<close>

context priority
begin

lemma remove_root_ok:
  assumes fo: "forest m (h_head h) ts" and bs: "\<forall>t \<in> set ts. btree t" "asc ts" and dist: "distinct (addrs ts)"
    and h: "hole hp m (set (addrs ts)) r" and r: "r \<in> set (addrs ts)" "parent_of m r = None"
  shows "\<exists>q m2 p2 m3 k m4 h4 vs. find_prev m r None (h_head h) = Some q \<and>
    write_pos m (h_head h) q (n_next (nodes m r)) = (m2, p2) \<and>
    heap_reverse m2 (n_child (nodes m2 r)) = Some (m3, k) \<and>
    heap_union_nodes hp m3 (h\<lparr>h_head := p2\<rparr>) k = Some (m4, h4) \<and> forest m4 (h_head h4) vs \<and>
    binom_heap (better hp m) vs \<and> distinct (addrs vs) \<and> set (addrs vs) = set (addrs ts) - {r} \<and>
    h_min h4 = h_min h \<and> frame_on (set (addrs ts)) m m4"
proof -
  obtain ds t es where ts: "ts = ds @ t # es" and t: "root t = r" using forest_root [OF fo bs(1) dist r] by blast
  have "lseg m (h_head h) (map root ds) (Some r)" using fo t by (simp add: ts forest_def chain_split)
  moreover have rds: "r \<notin> root ` set ds" using distinct_roots [OF dist] t by (auto simp: ts)
  ultimately have fp: "find_prev m r None (h_head h) = Some (prev_of_list (map root ds))"
    using find_prev_ok [of m "h_head h" "map root ds" r None] by (simp add: prev_of_list_def)
  obtain m2 p2 where w: "write_pos m (h_head h) (prev_of_list (map root ds)) (n_next (nodes m r)) = (m2, p2)"
    by (metis prod.exhaust)
  note un = unlink_root [OF fo [unfolded ts] dist [unfolded ts] w [folded t]]
  have sm: "small ts" using bs(1) dist by (intro distinct_small) auto
  have rk: "rank u \<le> 64" if "u \<in> set ts" for u using small_rank [OF sm that] .
  have ordx: "ordered (better hp m) u" if "u \<in> set (ds @ es)" for u
  proof (rule hole_ordered [OF h])
    have u: "u \<in> set ts" using that by (auto simp: ts)
    then show "tree_ok m None u" "btree u" "rank u < 2 ^ 32"
      using fo bs(1) rk [OF u] by (simp_all add: forest_def)
    have "r \<notin> set (addrs (ds @ es))" using dist t by (auto simp: ts addrs_t_root)
    then show "set (addrs_t u) \<subseteq> set (addrs ts) - {r}" using u that by (auto simp: set_addrs)
  qed
  have ordk: "ordered (better hp m) k" if "k \<in> set (kids t)" for k
  proof (rule hole_ordered [OF h])
    have tk: "tree_ok m None t" "btree t" using fo bs(1) by (simp_all add: forest_def ts)
    obtain ks where ks: "t = Node r ks" using t by (cases t) simp
    show "tree_ok m (Some r) k" "btree k" using tk that by (simp_all add: ks)
    have "rank k \<in> set (map rank ks)" using that by (simp add: ks)
    then have "rank k < length ks" using tk(2) by (metis ks btree.simps set_rev atLeastLessThan_iff set_upt)
    moreover have "rank t \<le> 64" by (rule rk) (simp add: ts)
    ultimately show "rank k < 2 ^ 32" by (simp add: ks)
    have "r \<notin> set (addrs ks)" "set (addrs ks) \<subseteq> set (addrs ts)" using dist by (auto simp: ts ks)
    then show "set (addrs_t k) \<subseteq> set (addrs ts) - {r}" using that by (auto simp: set_addrs ks)
  qed
  have "distinct (addrs_t t @ addrs (ds @ es))" using dist by (auto simp: ts)
  then obtain m3 k m4 h4 where run: "heap_reverse m2 (n_child (nodes m2 r)) = Some (m3, k)"
    "heap_union_nodes hp m3 (h\<lparr>h_head := p2\<rparr>) k = Some (m4, h4)"
    and res: "forest m4 (h_head h4) (union_lists (better hp m) (ds @ es) (rev (kids t)))" "h_min h4 = h_min h"
    and fr: "frame_on (set (addrs (kids t)) \<union> set (addrs (ds @ es))) m2 m4"
    using dissolve_root [of m2 "h\<lparr>h_head := p2\<rparr>" "ds @ es" t hp] un(1,2) t
      better_frame [OF only_next_frame [OF un(3)], of hp] by auto
  let ?vs = "union_lists (better hp m) (ds @ es) (rev (kids t))"
  have fr4: "frame_on (set (addrs ts)) m m4"
    by (rule frame_on_trans [OF only_next_frame [OF un(3)] fr])
      (use roots_in_addrs [of ds] in \<open>auto simp: ts addrs_t_root\<close>)
  have rest: "binom_heap (better hp m) (ds @ es)"
    using bs ordx by (auto simp: binom_heap_def asc_def ts sorted_wrt_append)
  have kd: "binom_heap (better hp m) (rev (kids t))" by (rule ordered_kids) (use bs ordk in \<open>simp_all add: ts\<close>)
  have rev: "mset (addrs (rev (kids t))) = mset (addrs (kids t))" by (simp add: mset_addrs)
  have "distinct (addrs (ds @ es @ kids t))" using dist by (auto simp: ts addrs_t_root)
  moreover have "mset (addrs ((ds @ es) @ rev (kids t))) = mset (addrs (ds @ es @ kids t))" using rev by simp
  ultimately have dd: "distinct (addrs ((ds @ es) @ rev (kids t)))" using distinct_addrs_mset by blast
  have ul: "binom_heap (better hp m) ?vs" "mset (addrs ?vs) = mset (addrs ((ds @ es) @ rev (kids t)))"
    using union_lists_ok [OF rest kd dd] better_asym by blast+
  have "set (addrs ?vs) = set (addrs ts) - {r}"
    using mset_eq_setD [OF ul(2)] mset_eq_setD [OF rev] dist t by (auto simp: ts addrs_t_root)
  moreover have "distinct (addrs ?vs)" using distinct_addrs_mset [OF ul(2)] dd by simp
  ultimately show ?thesis using fp w run res ul(1) fr4 by metis
qed

text \<open>The references and the items after the steps of \<open>heap_delete\<close> that change the trees.\<close>

lemma refs_frame: "frame_on S m m' \<Longrightarrow> refs_ok m' A = refs_ok m A"
  by (simp add: refs_ok_def frame_on_def)

lemma items_frame: "frame_on S m m' \<Longrightarrow> item m' = item m \<and> items m' A = items m A"
proof -
  assume "frame_on S m m'"
  then have "item m' = item m" by (intro ext) (simp add: item_def frame_on_def)
  then show ?thesis by (simp add: items_def)
qed

lemma refs_mono: "refs_ok m B \<Longrightarrow> A \<subseteq> B \<Longrightarrow> refs_ok m A"
  by (auto simp: refs_ok_def)

lemma moved_items:
  assumes mv: "moved T x y m m'" and "T \<subseteq> A" and fin: "finite A"
  shows "items m' A = items m A"
proof -
  have out: "image_mset (item m') (mset_set (A - T)) = image_mset (item m) (mset_set (A - T))"
    using mv fin by (intro image_mset_cong) (simp add: moved_def item_def)
  have "mset_set A = mset_set T + mset_set (A - T)"
    using mset_set_Union [of T "A - T"] assms(2) fin finite_subset by (metis Diff_disjoint Diff_partition finite_Diff)
  then show ?thesis using mv out by (simp add: moved_def items_def)
qed

lemma heap_trees:
  assumes "is_heap hp m h A"
  obtains ts where "forest m (h_head h) ts" "distinct (addrs ts)" "asc ts" "\<forall>t \<in> set ts. btree t"
    "in_order hp m (set (addrs ts))" "parents_ok m (set (addrs ts))" "A = set_option (h_min h) \<union> set (addrs ts)"
    "\<forall>c. h_min h = Some c \<longrightarrow> c \<notin> set (addrs ts) \<and> (\<forall>a \<in> set (addrs ts). \<not> better hp m a c)"
proof -
  obtain ts where ts: "rep hp m h ts" "A = set_option (h_min h) \<union> set (addrs ts)" using assms by (auto simp: is_heap_def)
  then have bs: "\<forall>t \<in> set ts. btree t" "\<forall>t \<in> set ts. ordered (better hp m) t" "asc ts"
    and fo: "forest m (h_head h) ts" and di: "distinct (addrs ts)"
    and mn: "\<forall>c. h_min h = Some c \<longrightarrow> c \<notin> set (addrs ts) \<and> (\<forall>a \<in> set (addrs ts). \<not> better hp m a c)"
    by (auto simp: rep_def binom_heap_def)
  show thesis by (rule that [OF fo di bs(3,1) _ _ ts(2) mn])
    (use forest_order [OF fo, of hp] bs(2) forest_parents [OF fo bs(1) di] in simp_all)
qed

lemma heap_of_trees:
  assumes "forest m (h_head h) ts" "distinct (addrs ts)" "asc ts" "\<forall>t \<in> set ts. btree t" "in_order hp m (set (addrs ts))"
    and "\<forall>c. h_min h = Some c \<longrightarrow> c \<notin> set (addrs ts) \<and> (\<forall>a \<in> set (addrs ts). \<not> better hp m a c)"
    and "A = set_option (h_min h) \<union> set (addrs ts)"
  shows "is_heap hp m h A"
  unfolding is_heap_def rep_def using assms forest_order [OF assms(1), of hp]
  by (intro exI [of _ ts]) (simp add: binom_heap_def)

text \<open>
  \<open>heap_delete\<close> removes the item of the node.  The node that leaves the heap is the root the
  item has been moved to.
\<close>

lemma delete_ok:
  assumes hA: "is_heap hp m h A" and x: "x \<in> A" "n_ref (nodes m x) = Some c" and refs: "refs_ok m A"
  shows "\<exists>m' h' r. heap_delete hp m h x = Some (m', h') \<and> r \<in> A \<and> is_heap hp m' h' (A - {r}) \<and>
    item m' r = item m x \<and> cells m' c = Some r \<and> \<not> heap_node_in_heap r m' \<and>
    items m' A = items m A \<and> refs_ok m' A \<and> (\<forall>a. a \<notin> A \<longrightarrow> nodes m' a = nodes m a)"
proof -
  obtain ts where fo: "forest m (h_head h) ts" and di: "distinct (addrs ts)" and bs: "\<forall>t \<in> set ts. btree t" "asc ts"
    and ord: "in_order hp m (set (addrs ts))" and par: "parents_ok m (set (addrs ts))"
    and A: "A = set_option (h_min h) \<union> set (addrs ts)"
    and mn: "\<forall>c. h_min h = Some c \<longrightarrow> c \<notin> set (addrs ts) \<and> (\<forall>a \<in> set (addrs ts). \<not> better hp m a c)"
    by (rule heap_trees [OF hA]) blast
  let ?T = "set (addrs ts)"
  have gone: "\<not> heap_node_in_heap r (set_degree r NOT_IN_HEAP m1)" for r and m1 :: "'v mem"
    by (simp add: heap_node_in_heap_def set_degree_def upd_def)
  have fin: "finite A" by (simp add: A)
  show ?thesis
  proof (cases "h_min h = Some x")
    case True
    let ?m = "set_degree x NOT_IN_HEAP m"
    have fr: "frame_on {x} m ?m" by (rule set_degree_frame)
    have "is_heap hp m (h\<lparr>h_min := None\<rparr>) ?T" by (rule heap_of_trees [of _ _ ts]) (use fo di bs ord in simp_all)
    then have "is_heap hp ?m (h\<lparr>h_min := None\<rparr>) (A - {x})" using is_heap_frame [OF _ fr] mn True A by auto
    moreover have "nodes ?m a = nodes m a" if "a \<notin> A" for a
    proof (rule frame_on_same [OF fr])
      show "a \<notin> {x}" using that x(1) by blast
    qed
    moreover have "refs_ok ?m A" "items ?m A = items m A" "item ?m x = item m x"
      using refs refs_frame [OF fr] items_frame [OF fr] by simp_all
    moreover have "cells ?m c = Some x" using fr x refs by (simp add: frame_on_def refs_ok_def)
    ultimately show ?thesis
      using True x gone [of x m]
      by (intro exI [of _ ?m] exI [of _ "h\<lparr>h_min := None\<rparr>"] exI [of _ x]) (simp add: heap_delete_def)
  next
    case False
    then have xT: "x \<in> ?T" using x(1) A by auto
    obtain m1 r where bub: "bubble_loop m x (parent_of m x) = Some (m1, r)" and mv: "moved ?T x r m m1" and r: "r \<in> ?T"
      "parent_of m1 r = None" "n_ref (nodes m1 r) = Some c" and h1: "hole hp m1 ?T r"
      using bubble_loop_ok [OF par in_order_hole [OF par ord] xT x(2)] by blast
    have sh: "same_shape m m1" using mv by (simp add: moved_def)
    have fo1: "forest m1 (h_head h) ts" using fo same_shape_forest [OF sh] by simp
    obtain q m2 p2 m3 k m4 h4 vs where run: "find_prev m1 r None (h_head h) = Some q"
      "write_pos m1 (h_head h) q (n_next (nodes m1 r)) = (m2, p2)" "heap_reverse m2 (n_child (nodes m2 r)) = Some (m3, k)"
      "heap_union_nodes hp m3 (h\<lparr>h_head := p2\<rparr>) k = Some (m4, h4)"
      and res: "forest m4 (h_head h4) vs" "binom_heap (better hp m1) vs" "distinct (addrs vs)"
        "set (addrs vs) = ?T - {r}" "h_min h4 = h_min h" and fr: "frame_on ?T m1 m4"
      using remove_root_ok [OF fo1 bs di h1 r(1,2)] by (elim exE conjE) (rule that, assumption+)
    let ?m = "set_degree r NOT_IN_HEAP m4"
    have fr5: "frame_on {r} m4 ?m" by (rule set_degree_frame)
    have del: "heap_delete hp m h x = Some (?m, h4)"
      using False x(2) bub run by (simp add: heap_delete_def)
    have same: "n_value (nodes m1 a) = n_value (nodes m a)" if "a \<notin> ?T" for a using mv that by (simp add: moved_def)
    have "\<not> better hp m1 a d" if d: "h_min h = Some d" and a: "a \<in> ?T" for a d
    proof -
      obtain b where "b \<in> ?T" "n_value (nodes m1 a) = n_value (nodes m b)"
        using items_values [of ?T m1 m a] mv a by (auto simp: moved_def)
      then show ?thesis using mn d same [of d] by (simp add: better_def)
    qed
    then have rep4: "rep hp m4 h4 vs"
      using res mn better_frame [OF fr, of hp] by (auto simp: rep_def)
    have "rep hp ?m h4 vs" using rep4 rep_frame [OF fr5, of vs] res(4) by auto
    moreover have "A - {r} = set_option (h_min h4) \<union> set (addrs vs)" using A res(4,5) r(1) mn by auto
    ultimately have "is_heap hp ?m h4 (A - {r})" by (auto simp: is_heap_def)
    moreover have it: "item ?m = item m1" "items ?m A = items m1 A" "refs_ok ?m A = refs_ok m1 A"
      using items_frame [OF fr] items_frame [OF fr5] refs_frame [OF fr] refs_frame [OF fr5] by simp_all
    moreover have "refs_ok m1 A" "items m1 A = items m A" "item m1 r = item m x"
      using mv A refs fin moved_items [OF mv] by (auto simp: moved_def)
    moreover have "cells ?m c = Some r"
      using \<open>refs_ok m1 A\<close> r(1,3) A fr fr5 by (auto simp: refs_ok_def frame_on_def)
    moreover have "nodes ?m a = nodes m a" if "a \<notin> A" for a
      using that A r(1) frame_on_same [OF fr, of a] frame_on_same [OF fr5, of a] mv by (auto simp: moved_def)
    moreover have "r \<in> A" using r(1) A by simp
    ultimately show ?thesis using del gone [of r m4] by metis
  qed
qed

text \<open>
  \<open>heap_decrease\<close> after the priority of a node has been raised: the item has found its place
  in the trees.  The whole is a heap again if the cached minimum, when it is another node, is
  not beaten by the new value.
\<close>

lemma decrease_ok:
  assumes hA: "is_heap hp m h A" and x: "x \<in> A" "n_ref (nodes m x) = Some c" and refs: "refs_ok m A"
    and v: "\<not> hp (n_value (nodes m x)) v"
  shows "\<exists>m' y. heap_decrease hp (set_value x v m) h x = Some m' \<and> y \<in> A \<and> item m' y = (v, Some c) \<and>
    cells m' c = Some y \<and> refs_ok m' A \<and> items m' A = items (set_value x v m) A \<and>
    (\<forall>a. a \<notin> A \<longrightarrow> nodes m' a = nodes m a) \<and>
    (\<forall>d. h_min h = Some d \<longrightarrow> d \<noteq> x \<longrightarrow> nodes m' d = nodes m d) \<and>
    is_heap hp m' (h\<lparr>h_min := None\<rparr>) (A - set_option (h_min h)) \<and>
    ((\<forall>d. h_min h = Some d \<longrightarrow> d \<noteq> x \<longrightarrow> \<not> hp v (n_value (nodes m d))) \<longrightarrow> is_heap hp m' h A)"
proof -
  obtain ts where fo: "forest m (h_head h) ts" and di: "distinct (addrs ts)" and bs: "\<forall>t \<in> set ts. btree t" "asc ts"
    and ord: "in_order hp m (set (addrs ts))" and par: "parents_ok m (set (addrs ts))"
    and A: "A = set_option (h_min h) \<union> set (addrs ts)"
    and mn: "\<forall>c. h_min h = Some c \<longrightarrow> c \<notin> set (addrs ts) \<and> (\<forall>a \<in> set (addrs ts). \<not> better hp m a c)"
    by (rule heap_trees [OF hA]) blast
  let ?T = "set (addrs ts)" and ?m = "set_value x v m"
  have nx: "nodes ?m = (nodes m)(x := (nodes m x)\<lparr>n_value := v\<rparr>)" and cx: "cells ?m = cells m" by (simp_all add: set_simps)
  have sh: "same_shape m ?m" by (simp add: same_shape_def nx)
  have refs': "refs_ok ?m A" using refs by (auto simp: refs_ok_def nx cx)
  have trees: "is_heap hp m' (h\<lparr>h_min := None\<rparr>) ?T" if "same_shape m m'" "in_order hp m' ?T" for m'
    by (rule heap_of_trees [of _ _ ts]) (use fo di bs that same_shape_forest [OF that(1)] in simp_all)
  have heap: "is_heap hp m' h A"
    if "same_shape m m'" "in_order hp m' ?T" "\<And>a d. h_min h = Some d \<Longrightarrow> a \<in> ?T \<Longrightarrow> \<not> better hp m' a d" for m'
    by (rule heap_of_trees [of _ _ ts]) (use fo di bs mn A that same_shape_forest [OF that(1)] in auto)
  show ?thesis
  proof (cases "h_min h = Some x")
    case True
    have xT: "x \<notin> ?T" using mn True by blast
    have up: "\<not> better hp m a b \<Longrightarrow> \<not> better hp ?m a b" if "a \<in> ?T" for a b
      using that xT v not_trans by (auto simp: better_def nx)
    have ord': "in_order hp ?m ?T" unfolding in_order_def
    proof (intro ballI allI impI)
      fix y p assume "y \<in> ?T" "parent_of ?m y = Some p"
      moreover from this have "parent_of m y = Some p" using sh by (simp add: same_shape_def)
      ultimately show "\<not> better hp ?m y p" using up ord by (simp add: in_order_def)
    qed
    have "is_heap hp ?m h A" by (rule heap [OF sh ord']) (use up mn in blast)
    moreover have "heap_decrease hp ?m h x = Some ?m" using True by (simp add: heap_decrease_def)
    moreover have "A - set_option (h_min h) = ?T" using A mn by auto
    ultimately show ?thesis
      using trees [OF sh ord'] True x refs refs'
      by (intro exI [of _ ?m] exI [of _ x]) (auto simp: item_def nx cx refs_ok_def)
  next
    case False
    then have xT: "x \<in> ?T" using x(1) A by auto
    have par': "parents_ok ?m ?T" using par same_shape_parents [OF sh] by simp
    have pe: "parent_of ?m a = parent_of m a" for a using sh by (simp add: same_shape_def)
    have ne: "parent_of m y = Some y \<Longrightarrow> y \<notin> ?T" for y using par by (auto simp: parents_ok_def)
    have "hole hp ?m ?T x"
      using in_order_hole [OF par ord, of x] ne ne [of x] xT unfolding hole_def pe better_def
      by (auto simp: nx)
    moreover have "below hp ?m ?T x" unfolding below_def
    proof (intro ballI impI)
      fix y assume y: "y \<in> ?T" "parent_of ?m y = Some x"
      then have "\<not> better hp m y x" "y \<noteq> x" using ord ne by (auto simp: pe in_order_def)
      then show "\<not> better hp ?m y x" using v not_trans by (auto simp: better_def nx)
    qed
    moreover have "n_ref (nodes ?m x) = Some c" using x(2) by (simp add: nx)
    ultimately obtain m' y where run: "decrease_loop hp ?m x (parent_of ?m x) = Some m'" and mv: "moved ?T x y ?m m'"
      and y: "y \<in> ?T" "n_ref (nodes m' y) = Some c" and ord': "in_order hp m' ?T"
      using decrease_loop_ok [OF par' _ _ xT] by blast
    have sh': "same_shape m m'" using sh mv same_shape_trans by (auto simp: moved_def)
    have dec: "heap_decrease hp ?m h x = Some m'" using run False x(2) by (simp add: heap_decrease_def nx)
    have out: "nodes m' a = nodes m a" if "a \<notin> ?T" for a using mv that xT by (auto simp: moved_def nx)
    have it: "refs_ok m' A" "items m' A = items ?m A" "item m' y = (v, Some c)"
      using mv refs' A moved_items [OF mv] x(2) by (auto simp: moved_def item_def nx)
    have "is_heap hp m' h A" if small: "\<forall>d. h_min h = Some d \<longrightarrow> d \<noteq> x \<longrightarrow> \<not> hp v (n_value (nodes m d))"
    proof (rule heap [OF sh' ord'])
      fix a d assume d: "h_min h = Some d" and a: "a \<in> ?T"
      obtain b where "b \<in> ?T" "n_value (nodes m' a) = n_value (nodes ?m b)"
        using items_values [of ?T m' ?m a] mv a by (auto simp: moved_def)
      then show "\<not> better hp m' a d"
        using mn d False small out [of d] by (auto simp: better_def nx)
    qed
    moreover have "A - set_option (h_min h) = ?T" using A mn by auto
    moreover have "cells m' c = Some y" using it(1) y A by (auto simp: refs_ok_def)
    ultimately show ?thesis using dec it y(1) A out trees [OF sh' ord'] mn
      by (intro exI [of _ m'] exI [of _ y]) auto
  qed
qed

end

end
