(* ===== verification/Event_Links.thy ===== *)
theory Event_Links
  imports Tasks_Correct
begin

text \<open>
  The lists of events as \<^verbatim>\<open>src/load.c\<close> keeps them: links in one allocated block, linked by
  their next pointers, and for every task (and for the system events) a pointer to the cell
  where the next link goes, which is the head of the list or the next field of its last link.
  \<open>Tasks\<close> speaks of lists of records instead; here the two are shown to agree.
\<close>

section \<open>Links\<close>

text \<open>The lists, and the cells of type \<^verbatim>\<open>struct evlink *\<close>.\<close>

datatype owner = Task_list nat | System_list
datatype link_cell = Head owner | Next_of nat

record link_store =
  heads :: "owner \<Rightarrow> nat option"
  nexts :: "nat \<Rightarrow> nat option"
  link_rec :: "nat \<Rightarrow> st_event_record"
  tails :: "owner \<Rightarrow> link_cell"

definition read_cell :: "link_cell \<Rightarrow> link_store \<Rightarrow> nat option" where
  "read_cell c s = (case c of Head ow \<Rightarrow> heads s ow | Next_of l \<Rightarrow> nexts s l)"

definition write_cell :: "link_cell \<Rightarrow> nat option \<Rightarrow> link_store \<Rightarrow> link_store" where
  "write_cell c v s =
     (case c of
        Head ow \<Rightarrow> s\<lparr>heads := (heads s)(ow := v)\<rparr>
      | Next_of l \<Rightarrow> s\<lparr>nexts := (nexts s)(l := v)\<rparr>)"

text \<open>The lists of \<open>init_tasks\<close>: all heads are null, and the tail pointers point to them.\<close>

definition init_links :: "link_store \<Rightarrow> link_store" where
  "init_links s = s\<lparr>heads := (\<lambda>ow. None), tails := Head\<rparr>"

text \<open>
  The link \<open>n\<close> is filled, written to the cell at the end of the list, and its next field
  becomes that cell.
\<close>

definition append_link :: "owner \<Rightarrow> nat \<Rightarrow> st_event_record \<Rightarrow> link_store \<Rightarrow> link_store" where
  "append_link ow n r s =
     (let s = s\<lparr>link_rec := (link_rec s)(n := r)\<rparr>;
          s = write_cell (Next_of n) None s;
          s = write_cell (tails s ow) (Some n) s
      in s\<lparr>tails := (tails s)(ow := Next_of n)\<rparr>)"

text \<open>\<open>crop_events\<close>: \<open>c\<close> is the pointer \<^verbatim>\<open>p\<close> that runs over the cells of the list.\<close>

partial_function (option) crop_links ::
    "(st_event_record \<Rightarrow> bool) \<Rightarrow> link_cell \<Rightarrow> link_store \<Rightarrow> link_store option" where
  "crop_links out c s =
     (case read_cell c s of
        None \<Rightarrow> Some s
      | Some l \<Rightarrow>
          if out (link_rec s l) then crop_links out c (write_cell c (nexts s l) s)
          else crop_links out (Next_of l) s)"

section \<open>Lists in the store\<close>

fun linked :: "link_store \<Rightarrow> nat option \<Rightarrow> nat list \<Rightarrow> bool" where
  "linked s p [] \<longleftrightarrow> p = None"
| "linked s p (l # ls) \<longleftrightarrow> p = Some l \<and> linked s (nexts s l) ls"

text \<open>\<open>L\<close> gives the links of every list; the first \<open>n\<close> links of the block are in use.\<close>

definition lists_ok :: "link_store \<Rightarrow> nat \<Rightarrow> (owner \<Rightarrow> nat list) \<Rightarrow> bool" where
  "lists_ok s n L \<longleftrightarrow>
     (\<forall>ow. linked s (heads s ow) (L ow) \<and> distinct (L ow) \<and> (\<forall>l \<in> set (L ow). l < n) \<and>
        tails s ow = (if L ow = [] then Head ow else Next_of (last (L ow)))) \<and>
     (\<forall>ow ow'. ow \<noteq> ow' \<longrightarrow> set (L ow) \<inter> set (L ow') = {})"

lemma linked_cong:
  "(\<And>l. l \<in> set ls \<Longrightarrow> nexts s' l = nexts s l) \<Longrightarrow> linked s' p ls = linked s p ls"
  by (induction ls arbitrary: p) auto

lemma linked_extend:
  assumes "linked s p ls" and "ls \<noteq> []" and "distinct ls" and "l \<notin> set ls"
  shows "linked (s\<lparr>nexts := (nexts s)(l := None, last ls := Some l)\<rparr>) p (ls @ [l])"
  using assms
proof (induction ls arbitrary: p)
  case (Cons x ls)
  show ?case
  proof (cases "ls = []")
    case True
    then show ?thesis using Cons.prems by simp
  next
    case False
    then have "last ls \<noteq> x" "x \<noteq> l" using Cons.prems by auto
    then show ?thesis using Cons.IH [of "nexts s x"] Cons.prems False by simp
  qed
qed simp

lemma lists_ok_init: "lists_ok (init_links s) 0 (\<lambda>ow. [])"
  by (simp add: lists_ok_def init_links_def)

text \<open>Through the tail pointer a link is added at the end, and no other list changes.\<close>

lemma append_link_ok:
  assumes "lists_ok s n L"
  shows "lists_ok (append_link ow n r s) (Suc n) (L(ow := L ow @ [n])) \<and>
    link_rec (append_link ow n r s) = (link_rec s)(n := r)"
proof -
  have n: "n \<notin> set (L ow')" for ow' using assms by (auto simp: lists_ok_def)
  have lk: "linked s (heads s ow') (L ow')" "distinct (L ow')" for ow' using assms by (auto simp: lists_ok_def)
  have tl: "tails s ow = (if L ow = [] then Head ow else Next_of (last (L ow)))"
    using assms by (auto simp: lists_ok_def)
  let ?s = "append_link ow n r s"
  have tails: "tails ?s = (tails s)(ow := Next_of n)" "link_rec ?s = (link_rec s)(n := r)"
    by (simp_all add: append_link_def write_cell_def Let_def split: link_cell.split)
  have nx: "nexts ?s = (if L ow = [] then (nexts s)(n := None) else (nexts s)(n := None, last (L ow) := Some n))"
    and hd: "heads ?s = (if L ow = [] then (heads s)(ow := Some n) else heads s)"
    using tl by (simp_all add: append_link_def write_cell_def Let_def)
  have own: "linked ?s (heads ?s ow) (L ow @ [n])"
  proof (cases "L ow = []")
    case False
    have "linked (s\<lparr>nexts := (nexts s)(n := None, last (L ow) := Some n)\<rparr>) (heads s ow) (L ow @ [n])"
      by (rule linked_extend [OF lk(1) False lk(2) n])
    then show ?thesis using nx hd False linked_cong [of "L ow @ [n]" ?s "s\<lparr>nexts := (nexts s)(n := None, last (L ow) := Some n)\<rparr>"]
      by simp
  qed (simp add: nx hd)
  have other: "linked ?s (heads ?s ow') (L ow')" if "ow' \<noteq> ow" for ow'
  proof -
    have "nexts ?s l = nexts s l" if "l \<in> set (L ow')" for l
    proof -
      have "l \<noteq> n" using n that by auto
      moreover have "L ow \<noteq> [] \<Longrightarrow> l \<noteq> last (L ow)"
        using assms \<open>ow' \<noteq> ow\<close> that last_in_set [of "L ow"] unfolding lists_ok_def by blast
      ultimately show ?thesis by (simp add: nx)
    qed
    then show ?thesis using lk(1) [of ow'] linked_cong [of "L ow'" ?s s] that by (simp add: hd)
  qed
  have "lists_ok ?s (Suc n) (L(ow := L ow @ [n]))"
    unfolding lists_ok_def
  proof (intro conjI allI impI)
    fix ow'
    show "linked ?s (heads ?s ow') ((L(ow := L ow @ [n])) ow')" using own other by simp
    show "distinct ((L(ow := L ow @ [n])) ow')" using lk(2) n by simp
    show "\<forall>l \<in> set ((L(ow := L ow @ [n])) ow'). l < Suc n" using assms by (auto simp: lists_ok_def less_SucI)
    show "tails ?s ow' = (if (L(ow := L ow @ [n])) ow' = [] then Head ow' else Next_of (last ((L(ow := L ow @ [n])) ow')))"
      using assms by (simp add: tails lists_ok_def)
  next
    fix ow1 ow2 :: owner assume "ow1 \<noteq> ow2"
    then show "set ((L(ow := L ow @ [n])) ow1) \<inter> set ((L(ow := L ow @ [n])) ow2) = {}"
      using assms n by (auto simp: lists_ok_def)
  qed
  then show ?thesis using tails(2) by simp
qed

section \<open>Cropping\<close>

lemma write_cell_select [simp]:
  "link_rec (write_cell c v s) = link_rec s" "tails (write_cell c v s) = tails s"
  "read_cell c' (write_cell c v s) = (if c' = c then v else read_cell c' s)"
  by (auto simp: write_cell_def read_cell_def split: link_cell.splits)

lemma linked_frame:
  "(\<And>l. l \<in> set ls \<Longrightarrow> read_cell (Next_of l) s' = read_cell (Next_of l) s) \<Longrightarrow> linked s' p ls = linked s p ls"
  by (rule linked_cong) (simp add: read_cell_def)

text \<open>The pointer loop unlinks the links whose records are out, and nothing else.\<close>

lemma crop_links_ok:
  assumes "linked s (read_cell c s) ls" and "distinct ls" and "c \<notin> Next_of ` set ls"
  shows "\<exists>s'. crop_links out c s = Some s' \<and>
    linked s' (read_cell c s') (filter (\<lambda>l. \<not> out (link_rec s l)) ls) \<and>
    link_rec s' = link_rec s \<and> tails s' = tails s \<and>
    (\<forall>c'. c' \<notin> insert c (Next_of ` set ls) \<longrightarrow> read_cell c' s' = read_cell c' s)"
  using assms
proof (induction ls arbitrary: c s)
  case Nil
  then show ?case by (subst crop_links.simps) simp
next
  case (Cons l ls)
  have here: "read_cell c s = Some l" and rest: "linked s (nexts s l) ls" using Cons.prems(1) by auto
  show ?case
  proof (cases "out (link_rec s l)")
    case True
    let ?s = "write_cell c (nexts s l) s"
    have "linked ?s (nexts s l) ls = linked s (nexts s l) ls"
      by (rule linked_frame) (use Cons.prems(3) in auto)
    then have "linked ?s (read_cell c ?s) ls" using rest by simp
    from Cons.IH [OF this] Cons.prems(2,3) obtain s' where
      "crop_links out c ?s = Some s'" "linked s' (read_cell c s') (filter (\<lambda>l. \<not> out (link_rec s l)) ls)"
      "link_rec s' = link_rec s" "tails s' = tails s"
      "\<forall>c'. c' \<notin> insert c (Next_of ` set ls) \<longrightarrow> read_cell c' s' = read_cell c' ?s" by auto
    then show ?thesis using here True by (subst crop_links.simps) auto
  next
    case False
    have "linked s (read_cell (Next_of l) s) ls" using rest by (simp add: read_cell_def)
    from Cons.IH [OF this] Cons.prems(2) obtain s' where
      r: "crop_links out (Next_of l) s = Some s'"
      "linked s' (read_cell (Next_of l) s') (filter (\<lambda>l. \<not> out (link_rec s l)) ls)"
      "link_rec s' = link_rec s" "tails s' = tails s"
      and frame: "\<forall>c'. c' \<notin> insert (Next_of l) (Next_of ` set ls) \<longrightarrow> read_cell c' s' = read_cell c' s" by auto
    have "read_cell c s' = Some l" using frame Cons.prems(3) here by auto
    then show ?thesis using r frame here False by (subst crop_links.simps) (auto simp: read_cell_def)
  qed
qed

section \<open>Splitting with links\<close>

text \<open>
  One round of the loop of \<^verbatim>\<open>split\<close> as the code has it: the lists of events are in the store,
  and \<open>n\<close> is the index of \<^verbatim>\<open>lnk\<close> in its block.  The list fields of the tasks and of the
  global variables are not used.
\<close>

definition split_links ::
    "bool \<Rightarrow> u32 \<Rightarrow> st_event_record \<Rightarrow> nat \<times> globals \<times> link_store \<Rightarrow> (nat \<times> globals \<times> link_store) option" where
  "split_links find_time0 cnt r s =
     (case s of (n, g, st) \<Rightarrow>
       let time = event_time r;
           g = (if find_time0 \<and> time0 g = 0 \<and> time \<noteq> 0 then g\<lparr>time0 := time\<rparr> else g)
       in case by_pid (pid_of r) (tasks g) of (ts, t) \<Rightarrow>
         let g = g\<lparr>tasks := ts\<rparr> in
         if kind_of r = ST_PARAM then
           (case t of
              Some i \<Rightarrow> Some (n, g\<lparr>tasks := ts[i := (ts ! i)\<lparr>tk_param := Some r\<rparr>]\<rparr>, st)
            | None \<Rightarrow> Some (n, g, st))
         else if kind_of r = ST_NAME then
           (case t of
              Some i \<Rightarrow> Some (n, g\<lparr>tasks := ts[i := (ts ! i)\<lparr>tk_name := Some r\<rparr>]\<rparr>, st)
            | None \<Rightarrow> Some (n, g, st))
         else if n < unat cnt then
           (case t of
              Some i \<Rightarrow> Some (Suc n,
                g\<lparr>tasks := ts[i := (ts ! i)\<lparr>tk_no_events := tk_no_events (ts ! i) + 1\<rparr>]\<rparr>,
                append_link (Task_list i) n r st)
            | None \<Rightarrow> Some (Suc n, g, append_link System_list n r st))
         else None)"

fun split_links_all ::
    "bool \<Rightarrow> u32 \<Rightarrow> st_event_record list \<Rightarrow> nat \<times> globals \<times> link_store \<Rightarrow> (nat \<times> globals \<times> link_store) option" where
  "split_links_all ft cnt [] s = Some s"
| "split_links_all ft cnt (r # rs) s =
     (case split_links ft cnt r s of None \<Rightarrow> None | Some s1 \<Rightarrow> split_links_all ft cnt rs s1)"

text \<open>The tasks with given lists of events.\<close>

definition with_events :: "(nat \<Rightarrow> st_event_record list) \<Rightarrow> task list \<Rightarrow> task list" where
  "with_events E ts = map (\<lambda>i. (ts ! i)\<lparr>tk_events := E i\<rparr>) [0..<length ts]"

definition with_lists :: "link_store \<Rightarrow> (owner \<Rightarrow> nat list) \<Rightarrow> globals \<Rightarrow> globals" where
  "with_lists st L g =
     g\<lparr>tasks := with_events (\<lambda>i. map (link_rec st) (L (Task_list i))) (tasks g),
       sys_events := map (link_rec st) (L System_list)\<rparr>"

lemma with_events_Cons: "with_events E (t # ts) = t\<lparr>tk_events := E 0\<rparr> # with_events (\<lambda>i. E (Suc i)) ts"
proof -
  have "[0..<length (t # ts)] = 0 # map Suc [0..<length ts]" by (simp add: map_Suc_upt upt_conv_Cons del: upt_Suc)
  then show ?thesis by (simp add: with_events_def del: upt_Suc)
qed

lemma with_events_simps [simp]:
  "with_events E [] = []" "length (with_events E ts) = length ts"
  "i < length ts \<Longrightarrow> with_events E ts ! i = (ts ! i)\<lparr>tk_events := E i\<rparr>"
  by (simp_all add: with_events_def)

lemma by_pid_loop_with_events:
  "by_pid_loop p (with_events E ts) = (with_events E (fst (by_pid_loop p ts)), snd (by_pid_loop p ts))"
  by (induction ts arbitrary: E) (auto simp: with_events_Cons Let_def split: prod.splits)

lemma by_pid_with_events:
  "by_pid p ts = (ts', j) \<Longrightarrow> by_pid p (with_events E ts) = (with_events E ts', j)"
  by (auto simp: by_pid_def by_pid_loop_with_events split: if_splits)

lemma with_events_update:
  assumes "\<And>t e. (f t)\<lparr>tk_events := e\<rparr> = f (t\<lparr>tk_events := e\<rparr>)"
  shows "with_events E (ts[i := f (ts ! i)]) = (with_events E ts)[i := f (with_events E ts ! i)]"
proof (rule nth_equalityI)
  fix k assume "k < length (with_events E (ts[i := f (ts ! i)]))"
  then show "with_events E (ts[i := f (ts ! i)]) ! k = (with_events E ts)[i := f (with_events E ts ! i)] ! k"
    by (cases "k = i") (simp_all add: assms)
qed simp

lemma with_events_append:
  assumes "\<And>k. k \<noteq> i \<Longrightarrow> E' k = E k" and "E' i = E i @ [r]"
  shows "with_events E' (ts[i := (ts ! i)\<lparr>tk_no_events := tk_no_events (ts ! i) + 1\<rparr>]) =
    (with_events E ts)[i := (with_events E ts ! i)
      \<lparr>tk_events := tk_events (with_events E ts ! i) @ [r], tk_no_events := tk_no_events (with_events E ts ! i) + 1\<rparr>]"
    (is "?lhs = ?rhs")
proof (rule nth_equalityI)
  fix k assume "k < length ?lhs"
  then show "?lhs ! k = ?rhs ! k" by (cases "k = i") (simp_all add: assms)
qed simp

lemma with_lists_select [simp]:
  "time0 (with_lists st L g) = time0 g"
  "tasks (with_lists st L g) = with_events (\<lambda>i. map (link_rec st) (L (Task_list i))) (tasks g)"
  "sys_events (with_lists st L g) = map (link_rec st) (L System_list)"
  "with_lists st L (g\<lparr>time0 := t\<rparr>) = (with_lists st L g)\<lparr>time0 := t\<rparr>"
  by (simp_all add: with_lists_def)

lemma with_lists_tasks:
  "with_lists st L (g\<lparr>tasks := ts\<rparr>) =
     (with_lists st L g)\<lparr>tasks := with_events (\<lambda>i. map (link_rec st) (L (Task_list i))) ts\<rparr>"
  by (simp add: with_lists_def)

lemma split_links_refines:
  assumes ok: "lists_ok st n L"
  shows "case split_links ft cnt r (n, g, st) of
      None \<Rightarrow> split_record ft cnt r (n, with_lists st L g) = None
    | Some (n', g', st') \<Rightarrow> \<exists>L'. lists_ok st' n' L' \<and>
        split_record ft cnt r (n, with_lists st L g) = Some (n', with_lists st' L' g')"
proof -
  define g1 where "g1 = (if ft \<and> time0 g = 0 \<and> event_time r \<noteq> 0 then g\<lparr>time0 := event_time r\<rparr> else g)"
  have g1: "(if ft \<and> time0 (with_lists st L g) = 0 \<and> event_time r \<noteq> 0
      then (with_lists st L g)\<lparr>time0 := event_time r\<rparr> else with_lists st L g) = with_lists st L g1"
    by (simp add: g1_def)
  let ?E = "\<lambda>i. map (link_rec st) (L (Task_list i))"
  obtain ts j where j: "by_pid (pid_of r) (tasks g1) = (ts, j)" by fastforce
  have j': "by_pid (pid_of r) (tasks (with_lists st L g1)) = (with_events ?E ts, j)"
    using by_pid_with_events [OF j] by simp
  have step: "split_links ft cnt r (n, g, st) =
      (if kind_of r = ST_PARAM then
         Some (n, g1\<lparr>tasks := (case j of None \<Rightarrow> ts | Some i \<Rightarrow> ts[i := (ts ! i)\<lparr>tk_param := Some r\<rparr>])\<rparr>, st)
       else if kind_of r = ST_NAME then
         Some (n, g1\<lparr>tasks := (case j of None \<Rightarrow> ts | Some i \<Rightarrow> ts[i := (ts ! i)\<lparr>tk_name := Some r\<rparr>])\<rparr>, st)
       else if n < unat cnt then
         Some (Suc n, g1\<lparr>tasks := (case j of None \<Rightarrow> ts
             | Some i \<Rightarrow> ts[i := (ts ! i)\<lparr>tk_no_events := tk_no_events (ts ! i) + 1\<rparr>])\<rparr>,
           append_link (case j of None \<Rightarrow> System_list | Some i \<Rightarrow> Task_list i) n r st)
       else None)"
    using j unfolding g1_def split_links_def prod.case Let_def by (simp split: option.split)
  have spec: "split_record ft cnt r (n, with_lists st L g) =
      (case (with_events ?E ts, j) of (us, t) \<Rightarrow>
         let h = (with_lists st L g1)\<lparr>tasks := us\<rparr> in
         if kind_of r = ST_PARAM then
           (case t of Some i \<Rightarrow> Some (n, h\<lparr>tasks := us[i := (us ! i)\<lparr>tk_param := Some r\<rparr>]\<rparr>) | None \<Rightarrow> Some (n, h))
         else if kind_of r = ST_NAME then
           (case t of Some i \<Rightarrow> Some (n, h\<lparr>tasks := us[i := (us ! i)\<lparr>tk_name := Some r\<rparr>]\<rparr>) | None \<Rightarrow> Some (n, h))
         else if n < unat cnt then
           (case t of Some i \<Rightarrow> Some (Suc n, h\<lparr>tasks := us[i := (us ! i)
                \<lparr>tk_events := tk_events (us ! i) @ [r], tk_no_events := tk_no_events (us ! i) + 1\<rparr>]\<rparr>)
            | None \<Rightarrow> Some (Suc n, h\<lparr>sys_events := sys_events h @ [r]\<rparr>))
         else None)"
    unfolding split_record_def prod.case Let_def g1 j' ..
  consider (param) "kind_of r = ST_PARAM" | (name) "kind_of r \<noteq> ST_PARAM" "kind_of r = ST_NAME"
    | (room) "kind_of r \<noteq> ST_PARAM" "kind_of r \<noteq> ST_NAME" "n < unat cnt"
    | (full) "kind_of r \<noteq> ST_PARAM" "kind_of r \<noteq> ST_NAME" "\<not> n < unat cnt" by blast
  then show ?thesis
  proof cases
    case param
    have "split_record ft cnt r (n, with_lists st L g) = Some (n, with_lists st L
        (g1\<lparr>tasks := (case j of None \<Rightarrow> ts | Some i \<Rightarrow> ts[i := (ts ! i)\<lparr>tk_param := Some r\<rparr>])\<rparr>))"
      unfolding spec using param
      by (cases j) (simp_all add: with_lists_tasks with_events_update [where f = "\<lambda>t. t\<lparr>tk_param := Some r\<rparr>"])
    then show ?thesis unfolding step using param ok by auto
  next
    case name
    have "split_record ft cnt r (n, with_lists st L g) = Some (n, with_lists st L
        (g1\<lparr>tasks := (case j of None \<Rightarrow> ts | Some i \<Rightarrow> ts[i := (ts ! i)\<lparr>tk_name := Some r\<rparr>])\<rparr>))"
      unfolding spec using name
      by (cases j) (simp_all add: with_lists_tasks with_events_update [where f = "\<lambda>t. t\<lparr>tk_name := Some r\<rparr>"])
    then show ?thesis unfolding step using name ok by auto
  next
    case room
    define ow where "ow = (case j of None \<Rightarrow> System_list | Some i \<Rightarrow> Task_list i)"
    let ?st = "append_link ow n r st" and ?L = "L(ow := L ow @ [n])"
    have ap: "lists_ok ?st (Suc n) ?L" "link_rec ?st = (link_rec st)(n := r)"
      using append_link_ok [OF ok] by auto
    have "n \<notin> set (L ow')" for ow' using ok by (auto simp: lists_ok_def)
    then have recs: "map (link_rec ?st) (?L ow') = (if ow' = ow then map (link_rec st) (L ow') @ [r] else map (link_rec st) (L ow'))" for ow'
      by (simp add: ap(2) map_fun_upd)
    have "split_record ft cnt r (n, with_lists st L g) = Some (Suc n, with_lists ?st ?L
        (g1\<lparr>tasks := (case j of None \<Rightarrow> ts | Some i \<Rightarrow> ts[i := (ts ! i)\<lparr>tk_no_events := tk_no_events (ts ! i) + 1\<rparr>])\<rparr>))"
    proof (cases j)
      case None
      then have ow: "ow = System_list" by (simp add: ow_def)
      show ?thesis unfolding spec using room None recs [unfolded ow]
        by (simp add: with_lists_def ow del: map_map fun_upd_apply)
    next
      case (Some i)
      then have ow: "ow = Task_list i" by (simp add: ow_def)
      have "with_events (\<lambda>k. map (link_rec ?st) (?L (Task_list k))) (ts[i := (ts ! i)\<lparr>tk_no_events := tk_no_events (ts ! i) + 1\<rparr>]) =
          (with_events ?E ts)[i := (with_events ?E ts ! i)\<lparr>tk_events := tk_events (with_events ?E ts ! i) @ [r],
             tk_no_events := tk_no_events (with_events ?E ts ! i) + 1\<rparr>]"
        by (rule with_events_append) (simp_all add: recs [unfolded ow] ow del: map_map fun_upd_apply)
      moreover have "map (link_rec ?st) (?L System_list) = map (link_rec st) (L System_list)"
        using recs [of System_list] by (simp add: ow)
      ultimately show ?thesis unfolding spec using room Some
        by (simp add: with_lists_def del: map_map fun_upd_apply)
    qed
    then show ?thesis unfolding step using room ap(1) ow_def by auto
  next
    case full
    then show ?thesis unfolding step spec by (simp add: Let_def)
  qed
qed

text \<open>The whole loop.\<close>

lemma split_links_all_refines:
  assumes "lists_ok st n L" and "split_all ft cnt rs (n, with_lists st L g) = Some (n', h)"
  shows "\<exists>g' st' L'. split_links_all ft cnt rs (n, g, st) = Some (n', g', st') \<and>
    lists_ok st' n' L' \<and> with_lists st' L' g' = h"
  using assms
proof (induction rs arbitrary: n g st L)
  case (Cons r rs)
  note ref = split_links_refines [OF Cons.prems(1), of ft cnt r g]
  obtain n1 g1 st1 where one: "split_links ft cnt r (n, g, st) = Some (n1, g1, st1)"
    using ref Cons.prems(2) by (cases "split_links ft cnt r (n, g, st)") auto
  then obtain L1 where "lists_ok st1 n1 L1"
    "split_record ft cnt r (n, with_lists st L g) = Some (n1, with_lists st1 L1 g1)"
    using ref by auto
  from Cons.IH [OF this(1)] this(2) one Cons.prems(2) show ?case by simp
qed auto

text \<open>Started on empty lists, the links hold just what the specification says.\<close>

lemma split_links_globals:
  assumes "length (filter ordinary rs) \<le> unat cnt"
  shows "\<exists>g st L. split_links_all ft cnt rs (0, init_tasks initial_globals, init_links st0) =
      Some (length (filter ordinary rs), g, st) \<and>
    lists_ok st (length (filter ordinary rs)) L \<and> with_lists st L g = globals_of ft rs"
proof -
  let ?g = "init_tasks initial_globals"
  have "tasks ?g = replicate MAX_TASKS empty_task" "sys_events ?g = []"
    unfolding globals_of_Nil [of False, symmetric] by (simp_all add: globals_of_def globals_with_def table_def)
  moreover have "with_events (\<lambda>i. []) (replicate MAX_TASKS empty_task) = replicate MAX_TASKS empty_task"
    by (rule nth_equalityI) (simp_all add: empty_task_def)
  ultimately have start: "with_lists (init_links st0) (\<lambda>ow. []) ?g = globals_of ft []"
    by (simp add: with_lists_def globals_of_Nil)
  show ?thesis
    using split_links_all_refines [OF lists_ok_init, of ft cnt rs st0 ?g] split_all_globals [OF assms, of ft]
    unfolding start by blast
qed

text \<open>Cropping one list through its links is cropping the list of its records.\<close>

lemma crop_links_list:
  assumes "lists_ok st n L"
  shows "\<exists>st'. crop_links (\<lambda>r. evtime g r < mn \<or> evtime g r > mx) (Head ow) st = Some st' \<and>
    (\<forall>ow'. \<exists>ls. linked st' (heads st' ow') ls \<and> map (link_rec st') ls =
       (if ow' = ow then crop_list g mn mx (map (link_rec st) (L ow')) else map (link_rec st) (L ow')))"
proof -
  let ?out = "\<lambda>r. evtime g r < mn \<or> evtime g r > mx"
  have L: "linked st (heads st ow') (L ow')" "distinct (L ow')"
    "ow' \<noteq> ow \<Longrightarrow> set (L ow') \<inter> set (L ow) = {}" for ow'
    using assms by (auto simp: lists_ok_def)
  have "linked st (read_cell (Head ow) st) (L ow)" using L(1) by (simp add: read_cell_def)
  from crop_links_ok [OF this L(2)] obtain st' where run: "crop_links ?out (Head ow) st = Some st'"
    "linked st' (read_cell (Head ow) st') (filter (\<lambda>l. \<not> ?out (link_rec st l)) (L ow))"
    "link_rec st' = link_rec st"
    and frame: "\<And>c'. c' \<notin> insert (Head ow) (Next_of ` set (L ow)) \<Longrightarrow> read_cell c' st' = read_cell c' st"
    by blast
  have crop: "crop_list g mn mx (map f ls) = map f (filter (\<lambda>l. \<not> ?out (f l)) ls)"
    for f :: "nat \<Rightarrow> st_event_record" and ls
    by (induction ls) auto
  have "\<exists>ls. linked st' (heads st' ow') ls \<and> map (link_rec st') ls =
       (if ow' = ow then crop_list g mn mx (map (link_rec st) (L ow')) else map (link_rec st) (L ow'))" for ow'
  proof (cases "ow' = ow")
    case True
    then show ?thesis using run(2,3) crop [of "link_rec st" "L ow"]
      by (intro exI [of _ "filter (\<lambda>l. \<not> ?out (link_rec st l)) (L ow)"]) (simp add: read_cell_def)
  next
    case False
    have "heads st' ow' = heads st ow'" using frame [of "Head ow'"] False by (auto simp: read_cell_def)
    moreover have "linked st' p (L ow') = linked st p (L ow')" for p
      by (rule linked_frame, rule frame) (use L(3) [OF False] in auto)
    ultimately show ?thesis using L(1) run(3) False by (intro exI [of _ "L ow'"]) simp
  qed
  then show ?thesis using run(1) by blast
qed

end
