(* ===== verification/Sched_Properties.thy ===== *)
theory Sched_Properties
  imports Job_Stats_Correct Stdump Heap_Decrease Event_Links
begin

text \<open>
  What the schedule tools guarantee: the contract of the binomial heap, the queue of events
  built from it, loading and splitting of traces (on lists and on links), and the programs
  \<^verbatim>\<open>st-dump\<close> and \<^verbatim>\<open>st-job-stats\<close> on top of them.
\<close>

section \<open>Samples\<close>

definition srec :: "nat \<Rightarrow> u8 \<Rightarrow> u16 \<Rightarrow> u32 \<Rightarrow> u64 \<Rightarrow> u64 \<Rightarrow> st_event_record" where
  "srec k c p j x y =
     \<lparr>st_type = of_nat k, st_cpu = c, st_pid = p, st_job = j, raw0 = x, raw1 = y\<rparr>"

lemma srec_select [simp]:
  "st_type (srec k c p j x y) = of_nat k" "st_cpu (srec k c p j x y) = c"
  "st_pid (srec k c p j x y) = p" "st_job (srec k c p j x y) = j" "raw0 (srec k c p j x y) = x"
  "raw1 (srec k c p j x y) = y"
  by (simp_all add: srec_def)

text \<open>Fresh memory with given values in the nodes.\<close>

definition mem_of :: "(addr \<Rightarrow> 'v) \<Rightarrow> 'v mem" where
  "mem_of v =
     \<lparr>nodes = (\<lambda>a. \<lparr>n_parent = None, n_next = None, n_child = None, n_degree = NOT_IN_HEAP,
                     n_value = v a, n_ref = None\<rparr>), cells = (\<lambda>c. None)\<rparr>"

lemma nat_priority: "priority ((<) :: nat \<Rightarrow> nat \<Rightarrow> bool)"
  by unfold_locales auto

section \<open>The binomial heap\<close>

text \<open>
  C24. Inserting a node.  If the comparison function is a strict weak order and the node is
  not in the heap yet, \<open>heap_insert\<close> returns, and the result is a binomial heap (with its
  cached minimum) over the old nodes and the new one; no value and no node elsewhere changes.
\<close>

theorem heap_insert_keeps:
  assumes "priority hp" and "is_heap hp m h A" and "a \<notin> A"
  shows "\<exists>m' h'. heap_insert hp m h a = Some (m', h') \<and> is_heap hp m' h' (insert a A) \<and>
    (\<forall>b. n_value (nodes m' b) = n_value (nodes m b)) \<and>
    (\<forall>b. b \<notin> insert a A \<longrightarrow> nodes m' b = nodes m b)"
proof -
  obtain m' h' where r: "heap_insert hp m h a = Some (m', h')" "is_heap hp m' h' (insert a A)"
    "frame_on (insert a A) m m'"
    using priority.insert_ok [OF assms] by blast
  show ?thesis
    using r(1,2) frame_on_value [OF r(3)] frame_on_same [OF r(3)] by blast
qed

theorem heap_insert_keeps_witness:
  "\<exists>m' h'. heap_insert (<) (mem_of (unat :: addr \<Rightarrow> nat)) heap_init 48 = Some (m', h') \<and>
     is_heap (<) m' h' {48} \<and> n_value (nodes m' 48) = 48"
proof -
  have v: "n_value (nodes (mem_of (unat :: addr \<Rightarrow> nat)) 48) = 48" by (simp add: mem_of_def)
  from heap_insert_keeps [OF nat_priority is_heap_init, of 48 "mem_of unat"] show ?thesis
    unfolding v [symmetric] by auto
qed

text \<open>
  C25. Uniting two heaps without common nodes: the target gets all nodes of both, the
  addition is left empty, and no value changes.
\<close>

theorem heap_union_joins:
  assumes "priority hp" and "is_heap hp m h A" and "is_heap hp m g B" and "A \<inter> B = {}"
  shows "\<exists>m' h' g'. heap_union hp m h g = Some (m', h', g') \<and> is_heap hp m' h' (A \<union> B) \<and>
    heap_empty g' \<and> (\<forall>b. n_value (nodes m' b) = n_value (nodes m b)) \<and>
    (\<forall>b. b \<notin> A \<union> B \<longrightarrow> nodes m' b = nodes m b)"
proof -
  obtain m' h' g' where r: "heap_union hp m h g = Some (m', h', g')" "is_heap hp m' h' (A \<union> B)"
    "is_heap hp m' g' {}" "frame_on (A \<union> B) m m'"
    using priority.union_ok [OF assms] by blast
  then show ?thesis
    using frame_on_value [OF r(4)] frame_on_same [OF r(4)] is_heap_empty [OF r(3)] by blast
qed

text \<open>A heap of one node that is only cached, and one whose node is the only root.\<close>

definition two_nodes :: "nat mem" where
  "two_nodes = reset_node 96 (reset_node 48 (mem_of unat))"

lemma one_node_heap: "is_heap (<) two_nodes \<lparr>h_head = Some a, h_min = None\<rparr> {a}" if "a \<in> {48, 96}" for a
  unfolding is_heap_def rep_def using that
  by (intro exI [of _ "[Node a []]"])
    (auto simp: two_nodes_def forest_def binom_heap_def asc_def reset_node_def upd_def)

theorem heap_union_joins_witness:
  "\<exists>m' h' g'. heap_union (<) two_nodes \<lparr>h_head = Some 48, h_min = None\<rparr> \<lparr>h_head = Some 96, h_min = None\<rparr> =
     Some (m', h', g') \<and> is_heap (<) m' h' {48, 96} \<and> heap_empty g'"
  using heap_union_joins [OF nat_priority one_node_heap one_node_heap, of 48 96] by (auto simp: insert_commute)

text \<open>
  C26. Taking the first node: \<open>heap_take\<close> returns; it gives nothing only if the heap is
  empty, and otherwise a node of the heap before which no other one has priority; the node
  is marked as out of the heap, the others remain.
\<close>

theorem heap_take_first:
  assumes "priority hp" and "is_heap hp m h A"
  shows "\<exists>m' h' r. heap_take hp m h = Some (m', h', r) \<and>
    (case r of None \<Rightarrow> A = {} \<and> heap_empty h'
     | Some x \<Rightarrow> x \<in> A \<and> is_heap hp m' h' (A - {x}) \<and> \<not> heap_node_in_heap x m' \<and>
         (\<forall>a \<in> A. \<not> hp (heap_node_value a m) (heap_node_value x m))) \<and>
    (\<forall>b. n_value (nodes m' b) = n_value (nodes m b))"
proof -
  obtain m' h' r where run: "heap_take hp m h = Some (m', h', r)" and fr: "frame_on A m m'"
    and res: "case r of None \<Rightarrow> A = {} \<and> is_heap hp m' h' {}
     | Some x \<Rightarrow> x \<in> A \<and> is_heap hp m' h' (A - {x}) \<and> (\<forall>a \<in> A. \<not> better hp m a x) \<and>
         \<not> heap_node_in_heap x m'"
    using priority.take_ok [OF assms] by blast
  then show ?thesis
    using frame_on_value [OF fr] is_heap_empty [of hp m' h' "{}"]
    by (intro exI [of _ m'] exI [of _ h'] exI [of _ r])
      (auto simp: better_def heap_node_value_def split: option.splits)
qed

theorem heap_take_first_witness:
  "\<exists>m' h'. heap_take (<) two_nodes \<lparr>h_head = Some 48, h_min = None\<rparr> = Some (m', h', Some 48) \<and>
     is_heap (<) m' h' {}"
  using heap_take_first [OF nat_priority one_node_heap, of 48] by (auto split: option.splits)

text \<open>
  C27. Deleting a node that has a reference: \<open>heap_delete\<close> returns, and exactly the item
  (value and reference) of the node is gone from the heap.  The items of its ancestors have
  moved down by one, so another node \<open>r\<close> may be the one that leaves; it holds the deleted
  item, is marked as out of the heap, and every reference variable points to the node that
  now holds its item.
\<close>

theorem heap_delete_removes:
  assumes "priority hp" and "is_heap hp m h A" and "x \<in> A" and "n_ref (nodes m x) = Some c" and "refs_ok m A"
  shows "\<exists>m' h' r. heap_delete hp m h x = Some (m', h') \<and> r \<in> A \<and> is_heap hp m' h' (A - {r}) \<and>
    item m' r = item m x \<and> items m' (A - {r}) = items m A - {#item m x#} \<and>
    cells m' c = Some r \<and> refs_ok m' A \<and> \<not> heap_node_in_heap r m' \<and>
    (\<forall>b. b \<notin> A \<longrightarrow> nodes m' b = nodes m b)"
proof -
  obtain m' h' r where r: "heap_delete hp m h x = Some (m', h')" "r \<in> A" "is_heap hp m' h' (A - {r})"
    "item m' r = item m x" "items m' A = items m A" and
    rest: "cells m' c = Some r" "refs_ok m' A" "\<not> heap_node_in_heap r m'" "\<forall>b. b \<notin> A \<longrightarrow> nodes m' b = nodes m b"
    using priority.delete_ok [OF assms] by blast
  have "finite A" using assms(2) by (auto simp: is_heap_def)
  then have "items m' (A - {r}) = items m A - {#item m x#}" using r by (simp add: items_remove)
  with r(1-4) rest show ?thesis by blast
qed

text \<open>A cached minimum without, and a root with a reference.\<close>

definition ref_nodes :: "nat mem" where
  "ref_nodes = set_cell 8 (Some 96) (set_ref 96 (Some 8) two_nodes)"

definition ref_heap :: heap where
  "ref_heap = \<lparr>h_head = Some 96, h_min = Some 48\<rparr>"

lemma ref_heap_ok: "is_heap (<) ref_nodes ref_heap {48, 96}" "refs_ok ref_nodes {48, 96}"
  "n_ref (nodes ref_nodes 96) = Some 8" "n_value (nodes ref_nodes 96) = 96" "n_value (nodes ref_nodes 48) = 48"
proof -
  note ds = two_nodes_def ref_nodes_def ref_heap_def set_simps reset_node_def upd_def mem_of_def
  show "is_heap (<) ref_nodes ref_heap {48, 96}"
    unfolding is_heap_def rep_def
    by (intro exI [of _ "[Node 96 []]"]) (auto simp: ds forest_def binom_heap_def asc_def better_def)
  show "refs_ok ref_nodes {48, 96}" "n_ref (nodes ref_nodes 96) = Some 8"
    "n_value (nodes ref_nodes 96) = 96" "n_value (nodes ref_nodes 48) = 48"
    by (simp_all add: ds refs_ok_def)
qed

theorem heap_delete_removes_witness:
  "\<exists>m' h' r. heap_delete (<) ref_nodes ref_heap 96 = Some (m', h') \<and> is_heap (<) m' h' ({48, 96} - {r}) \<and>
     item m' r = (96, Some 8) \<and> cells m' 8 = Some r"
proof -
  have "item ref_nodes 96 = (96, Some 8)" using ref_heap_ok by (simp add: item_def)
  with heap_delete_removes [OF nat_priority ref_heap_ok(1) _ ref_heap_ok(3,2)] show ?thesis by auto
qed

text \<open>
  C28. Raising a priority.  After the value of a node with a reference has been changed to
  one that is not worse, \<open>heap_decrease\<close> returns, the items are those of the heap with the
  new value, the reference variables follow the items, and the result is a heap, provided
  that the new value does not beat another, cached minimum.  If it does, the heap is left
  wrong: the next \<open>heap_take\<close> delivers the cached node although the changed one is better.
\<close>

theorem heap_decrease_moves:
  assumes "priority hp" and "is_heap hp m h A" and "x \<in> A" and "n_ref (nodes m x) = Some c" and "refs_ok m A"
    and "\<not> hp (n_value (nodes m x)) v"
  shows "\<exists>m' y. heap_decrease hp (set_value x v m) h x = Some m' \<and> y \<in> A \<and> item m' y = (v, Some c) \<and>
    cells m' c = Some y \<and> refs_ok m' A \<and> items m' A = items (set_value x v m) A \<and>
    (case h_min h of
       None \<Rightarrow> is_heap hp m' h A
     | Some d \<Rightarrow>
         if d = x \<or> \<not> hp v (n_value (nodes m d)) then is_heap hp m' h A
         else (\<exists>m1 h1. heap_take hp m' h = Some (m1, h1, Some d)) \<and> y \<noteq> d \<and>
           hp (heap_node_value y m') (heap_node_value d m'))"
proof -
  obtain m' y where run: "heap_decrease hp (set_value x v m) h x = Some m'" "y \<in> A" "item m' y = (v, Some c)"
      "cells m' c = Some y" "refs_ok m' A" "items m' A = items (set_value x v m) A"
    and kept: "\<forall>d. h_min h = Some d \<longrightarrow> d \<noteq> x \<longrightarrow> nodes m' d = nodes m d"
    and good: "(\<forall>d. h_min h = Some d \<longrightarrow> d \<noteq> x \<longrightarrow> \<not> hp v (n_value (nodes m d))) \<longrightarrow> is_heap hp m' h A"
    using priority.decrease_ok [OF assms] by blast
  have stale: "(\<exists>m1 h1. heap_take hp m' h = Some (m1, h1, Some d)) \<and> y \<noteq> d \<and> hp (heap_node_value y m') (heap_node_value d m')"
    if "h_min h = Some d" "d \<noteq> x" "hp v (n_value (nodes m d))" for d
  proof -
    have "n_value (nodes m' y) = v" "n_value (nodes m' d) = n_value (nodes m d)"
      using run(3) kept that by (simp_all add: item_def)
    moreover from this have "y \<noteq> d" using that(3) priority.asym [OF assms(1)] by metis
    ultimately show ?thesis using that by (simp add: heap_take_def fill_min_def heap_node_value_def)
  qed
  show ?thesis
    by (intro exI [of _ m'] exI [of _ y] conjI run)
      (use good stale in \<open>auto split: option.split\<close>)
qed

theorem heap_decrease_moves_witness:
  "\<exists>m' m1 h1. heap_decrease (<) (set_value 96 1 ref_nodes) ref_heap 96 = Some m' \<and>
     heap_take (<) m' ref_heap = Some (m1, h1, Some 48) \<and>
     (\<exists>y. y \<noteq> 48 \<and> item m' y = (1, Some 8))"
proof -
  have old: "\<not> n_value (nodes ref_nodes 96) < 1" "1 < n_value (nodes ref_nodes 48)"
    and mn: "h_min ref_heap = Some 48" and d: "(48 :: addr) \<noteq> 96" "(96 :: addr) \<in> {48, 96}"
    using ref_heap_ok(4,5) by (simp_all add: ref_heap_def)
  from heap_decrease_moves [OF nat_priority ref_heap_ok(1) d(2) ref_heap_ok(3,2) old(1)]
  show ?thesis unfolding mn option.case using old(2) d(1) by (elim exE) (auto split: if_splits)
qed

section \<open>The queue of events\<close>

text \<open>
  C29. A queue that is filled with an array of records and then emptied delivers a
  permutation of them, ordered by time, and by PID among those without a time.
\<close>

theorem heapified_queue_sorts:
  assumes "alloc_ok al (length evs)"
  shows "\<exists>m' h rs q. heapify_events al evs m = Some (m', Some h) \<and>
    drains take_event (m', h) rs q \<and> mset rs = mset evs \<and>
    sorted_wrt (\<lambda>a b. event_time a < event_time b \<or>
      event_time a = event_time b \<and> (event_time a = 0 \<longrightarrow> st_pid a \<le> st_pid b)) rs"
proof -
  obtain m' h where fill: "heapify_events al evs m = Some (m', Some h)"
    and rep: "is_heap earlier_event m' h (alloc_addrs al (length evs))"
      "waiting m' (alloc_addrs al (length evs)) = mset evs"
    using heapify_ok [OF assms, of m] by blast
  have "queued (m', h) (mset evs)"
    unfolding queued_def using rep by (intro exI [of _ "alloc_addrs al (length evs)"]) simp
  then obtain rs q where "drains take_event (m', h) rs q" "mset rs = mset evs"
    "sorted_wrt (\<lambda>a b. \<not> earlier_event b a) rs"
    using event_heap.drained by blast
  moreover from this(3) have "sorted_wrt (\<lambda>a b. event_time a < event_time b \<or>
      event_time a = event_time b \<and> (event_time a = 0 \<longrightarrow> st_pid a \<le> st_pid b)) rs"
    by (rule sorted_wrt_mono_rel [rotated]) (auto simp: earlier_event_def word_gt_0 split: if_splits)
  ultimately show ?thesis using fill by blast
qed

text \<open>Two small traces: a system release, the parameters, a release and a first run of a
  task in one, its completion in the other.\<close>

definition trace_a :: "st_event_record list" where
  "trace_a = [srec 5 0 7 1 510 0, srec 3 0 7 1 500 900, srec 2 0 7 0 0x6400000014 0, srec 11 0 0 0 100 500]"

definition trace_b :: "st_event_record list" where
  "trace_b = [srec 7 1 7 1 800 0]"

definition sample_alloc :: "nat \<Rightarrow> heap_alloc" where
  "sample_alloc i = \<lparr>heap_block = Some (of_nat (16 * i + 16)), node_block = Some (of_nat (4096 * i + 4096))\<rparr>"

theorem heapified_queue_sorts_witness:
  "\<exists>m' h rs q. heapify_events (sample_alloc 0) trace_a (mem_of (\<lambda>a. srec 0 0 0 0 0 0)) = Some (m', Some h) \<and>
     drains take_event (m', h) rs q \<and> mset rs = mset trace_a"
proof -
  have "alloc_ok (sample_alloc 0) (length trace_a)"
    by (simp add: alloc_ok_def sample_alloc_def trace_a_def NODE_SIZE_def)
  from heapified_queue_sorts [OF this] show ?thesis by blast
qed

section \<open>Loading\<close>

text \<open>A system with the two traces as files.\<close>

definition sample_contents :: "string \<Rightarrow> u8 list option" where
  "sample_contents f =
     (if f = ''a'' then Some (concat (map st_to_bytes trace_a))
      else if f = ''b'' then Some (concat (map st_to_bytes trace_b)) else None)"

definition sample_file :: "int \<Rightarrow> string" where
  "sample_file fd = (if fd = 3 then ''a'' else if fd = 4 then ''b'' else '''')"

definition sample_os :: os where
  "sample_os =
     \<lparr>os_stat = (\<lambda>f. map_option length (sample_contents f)),
      os_open = (\<lambda>f mode. if f = ''a'' then 3 else if f = ''b'' then 4 else - 1),
      os_mmap = (\<lambda>fd n fl. sample_contents (sample_file fd)),
      os_madvise = (\<lambda>bs n adv. 0)\<rparr>"

lemma sample_faithful: "faithful_os sample_os sample_contents sample_file"
  by (auto simp: faithful_os_def sample_os_def sample_file_def)

lemma file_records_written: "file_records (concat (map st_to_bytes rs)) = rs"
proof -
  have "length (concat (map st_to_bytes rs)) = ST_SIZE * length rs"
    by (induction rs) simp_all
  then show ?thesis using st_array_written [of rs] by (simp add: file_records_def ST_SIZE_def)
qed

lemma sample_records [simp]:
  "records_in sample_contents ''a'' = trace_a" "records_in sample_contents ''b'' = trace_b"
  by (simp_all add: records_in_def sample_contents_def file_records_written)

lemma sample_loadable: "\<forall>f \<in> set [''a'', ''b'']. loadable sample_os sample_contents f"
  by (simp add: loadable_def load_map_file_def sample_os_def sample_file_def sample_contents_def
      trace_a_def trace_b_def ST_SIZE_def)

lemma sample_allocs:
  "allocs_ok sample_alloc 0 (map (\<lambda>f. length (records_in sample_contents f)) [''a'', ''b'']) {}"
proof -
  have "length trace_a = Suc (Suc (Suc (Suc 0)))" "length trace_b = Suc 0"
    by (simp_all add: trace_a_def trace_b_def)
  then show ?thesis by (simp add: alloc_ok_def alloc_addrs_def sample_alloc_def NODE_SIZE_def)
qed

text \<open>
  C30. Loading.  Assume that the system shows the contents of the files, that every file can
  be mapped and is smaller than 4 GB (\<open>loadable\<close>: its length is below \<open>2 ^ 32\<close> bytes; the
  cast in \<open>heap_from_file\<close> cuts longer ones off), and that every allocation gives a block that
  is large enough and overlaps no other.  Then \<open>load\<close> of at least one file returns a queue in
  which exactly the records of all files wait, and their number modulo \<open>2 ^ 32\<close>; a rest of a
  file that is smaller than a record is ignored.  A further file that cannot be mapped makes
  \<open>load\<close> fail with the null pointer, whatever follows it.
\<close>

theorem load_result:
  assumes "faithful_os os contents file_of" and "\<forall>f \<in> set files. loadable os contents f"
    and "allocs_ok al 0 (map (\<lambda>f. length (records_in contents f)) files) {}"
  shows "(files \<noteq> [] \<longrightarrow> (\<exists>m' h cnt. load os al files m = Some (m', Some h, cnt) \<and>
      queued (m', h) (mset (concat (map (records_in contents) files))) \<and>
      cnt = of_nat (length (concat (map (records_in contents) files))))) \<and>
    (map_error (load_map_file os f) \<noteq> 0 \<longrightarrow>
      (\<exists>m' cnt. load os al (files @ f # ys) m = Some (m', None, cnt)))"
  using load_ok [OF assms(1) _ assms(2,3)] load_fails [OF assms] by blast

theorem load_result_witness:
  "(\<exists>m' h. load sample_os sample_alloc [''a'', ''b''] (mem_of (\<lambda>a. srec 0 0 0 0 0 0)) = Some (m', Some h, 5) \<and>
     queued (m', h) (mset (trace_a @ trace_b))) \<and>
   (\<exists>m' cnt. load sample_os sample_alloc [''a'', ''b'', ''c''] (mem_of (\<lambda>a. srec 0 0 0 0 0 0)) = Some (m', None, cnt))"
proof -
  have "map_error (load_map_file sample_os ''c'') \<noteq> 0"
    by (simp add: load_map_file_def sample_os_def sample_contents_def)
  with load_result [OF sample_faithful sample_loadable sample_allocs, of "mem_of (\<lambda>a. srec 0 0 0 0 0 0)" "''c''" "[]"]
  show ?thesis by (simp add: trace_a_def trace_b_def)
qed

section \<open>The task table\<close>

text \<open>
  C31. The table of tasks stays well-formed: the places in use come first and have
  different PIDs.  A call of \<open>by_pid\<close> changes at most the PID of the place it returns, which
  is the place of the task; it returns none only for PID 0 or if all places are in use by
  other tasks.
\<close>

theorem by_pid_table:
  assumes "table_ok ts" and "by_pid p ts = (ts', r)"
  shows "table_ok ts' \<and>
    (case r of
       Some i \<Rightarrow> i < MAX_TASKS \<and> tk_pid (ts' ! i) = p \<and> p \<noteq> 0 \<and> ts' = ts[i := (ts ! i)\<lparr>tk_pid := p\<rparr>]
     | None \<Rightarrow> ts' = ts \<and> (p = 0 \<or> (\<forall>t \<in> set ts. tk_pid t \<noteq> 0 \<and> tk_pid t \<noteq> p)))"
  by (rule by_pid_ok [OF assms])

theorem by_pid_table_witness:
  "\<exists>ts' i. by_pid 7 (tasks (init_tasks initial_globals)) = (ts', Some i) \<and> table_ok ts' \<and> tk_pid (ts' ! i) = 7"
proof -
  have start: "tasks (init_tasks initial_globals) = replicate MAX_TASKS empty_task"
    using globals_of_Nil [of False] by (simp add: globals_of_def globals_with_def table_def flip: globals_of_Nil [of False])
  obtain ts' r where run: "by_pid 7 (replicate MAX_TASKS empty_task) = (ts', r)" by fastforce
  have "empty_task \<in> set (replicate MAX_TASKS empty_task)" by (simp add: MAX_TASKS_def)
  then show ?thesis
    using by_pid_table [OF initial_table_ok run] run start
    by (cases r) (auto simp: empty_task_def)
qed

lemma load_split_ok:
  assumes "faithful_os os contents file_of" and "files \<noteq> []"
    and "\<forall>f \<in> set files. loadable os contents f"
    and "allocs_ok al 0 (map (\<lambda>f. length (records_in contents f)) files) {}"
    and "length (concat (map (records_in contents) files)) < 2 ^ 32"
  shows "\<exists>m' h cnt rs q. load os al files m = Some (m', Some h, cnt) \<and>
    split True (m', h) cnt find_time0 (init_tasks initial_globals) = Some (q, globals_of find_time0 rs) \<and>
    mset rs = mset (concat (map (records_in contents) files)) \<and>
    sorted_wrt (\<lambda>a b. \<not> earlier_event b a) rs"
proof -
  let ?all = "concat (map (records_in contents) files)"
  obtain m' h where l: "load os al files m = Some (m', Some h, of_nat (length ?all))" "queued (m', h) (mset ?all)"
    using load_ok [OF assms(1-4)] by blast
  have "size (mset ?all) \<le> unat (of_nat (length ?all) :: u32)" using assms(5) by (simp add: unat_of_nat)
  from split_ok [OF l(2) this, of find_time0] obtain rs q where
    s: "mset rs = mset ?all" "sorted_wrt (\<lambda>a b. \<not> earlier_event b a) rs"
    "split True (m', h) (of_nat (length ?all)) find_time0 (init_tasks initial_globals) = Some (q, globals_of find_time0 rs)" by blast
  with l(1) show ?thesis by blast
qed


lemma sample_total: "length (concat (map (records_in sample_contents) [''a'', ''b''])) < 2 ^ 32"
  by (simp add: trace_a_def trace_b_def)


text \<open>
  C33. The linked lists.  Splitting as the code does it, by writing links through the tail
  pointers of the lists, always leaves disjoint, null-terminated lists, whose records are
  those of the splitting on lists; and the pointer loop of \<open>crop_events\<close> on any of them ends
  and leaves the records within the interval, in order.
\<close>

theorem split_through_links:
  assumes "length (filter ordinary rs) \<le> unat cnt"
  shows "\<exists>n g st L. split_links_all ft cnt rs (0, init_tasks initial_globals, init_links st0) = Some (n, g, st) \<and>
    n \<le> unat cnt \<and> lists_ok st n L \<and> with_lists st L g = globals_of ft rs \<and>
    (\<forall>ow. \<exists>st' ls. crop_links (\<lambda>r. evtime g r < mn \<or> evtime g r > mx) (Head ow) st = Some st' \<and>
       linked st' (heads st' ow) ls \<and>
       map (link_rec st') ls = crop_list g mn mx (map (link_rec st) (L ow)))"
proof -
  obtain g st L where run: "split_links_all ft cnt rs (0, init_tasks initial_globals, init_links st0) =
      Some (length (filter ordinary rs), g, st)"
    and ok: "lists_ok st (length (filter ordinary rs)) L" "with_lists st L g = globals_of ft rs"
    using split_links_globals [OF assms] by blast
  have "\<exists>st' ls. crop_links (\<lambda>r. evtime g r < mn \<or> evtime g r > mx) (Head ow) st = Some st' \<and>
       linked st' (heads st' ow) ls \<and> map (link_rec st') ls = crop_list g mn mx (map (link_rec st) (L ow))" for ow
    using crop_links_list [OF ok(1), of g mn mx ow] by (metis (no_types, lifting))
  with run ok assms show ?thesis by blast
qed

definition fresh_links :: link_store where
  "fresh_links =
     \<lparr>heads = (\<lambda>ow. None), nexts = (\<lambda>l. None), link_rec = (\<lambda>l. srec 0 0 0 0 0 0), tails = Head\<rparr>"

theorem split_through_links_witness:
  "\<exists>n g st L. split_links_all True 5 (trace_a @ trace_b) (0, init_tasks initial_globals, init_links fresh_links) = Some (n, g, st) \<and>
     lists_ok st n L \<and> with_lists st L g = globals_of True (trace_a @ trace_b)"
proof -
  have "length (filter ordinary (trace_a @ trace_b)) \<le> unat (5 :: u32)"
    by (rule order_trans [OF length_filter_le]) (simp add: trace_a_def trace_b_def)
  from split_through_links [OF this] show ?thesis by blast
qed

section \<open>Job statistics\<close>

text \<open>
  C34. The completion that is matched to a release is the first one with the number of the
  job among the first 20 completions from the release on, and there is none otherwise.
\<close>

theorem matched_completion:
  "map_option hd (find_completion job 0 pos) =
   find (\<lambda>c. st_job c = job)
     (take MAX_COMPLETIONS_TO_CHECK (filter (\<lambda>r. kind_of r = ST_COMPLETION) pos))"
  using find_completion_spec [of job 0 pos] by simp

text \<open>
  C35. Preemptions and migrations.  Between a release and the completion, each switch to the
  job after it has been switched away from counts as a preemption, and as a migration if it
  is on another CPU than the last switch away; so there are never more migrations than
  preemptions.  (The counters have 32 bits.)
\<close>

theorem preemptions_counted:
  assumes "es @ completion = r # e"
  shows "count_preemptions (es @ completion) completion (0, 0) =
      Some (of_nat (resumed (st_job r) es), of_nat (migrated (st_job r) es)) \<and>
    migrated (st_job r) es \<le> resumed (st_job r) es"
  using count_preemptions_spec [OF assms] migrated_le by blast

definition job_run :: "st_event_record list" where
  "job_run = [srec 3 0 7 1 100 900, srec 5 0 7 1 110 0, srec 6 0 7 1 120 0, srec 5 1 7 1 130 0,
     srec 6 1 7 1 140 0, srec 5 1 7 1 150 0]"

theorem preemptions_counted_witness:
  "count_preemptions (job_run @ trace_b) trace_b (0, 0) = Some (2, 1)"
proof -
  obtain e where e: "job_run @ trace_b = srec 3 0 7 1 100 900 # e" by (simp add: job_run_def)
  have "resumed 1 job_run = 2" "migrated 1 job_run = 1" by code_simp+
  then show ?thesis using preemptions_counted [OF e] by simp
qed

text \<open>
  C36. The report.  When the files, at least one, can be loaded (as in C30: each can be mapped
  and is smaller than 4 GB, and the allocations succeed), their records number less than
  \<open>2 ^ 32\<close>, and all names in them are terminated, \<^verbatim>\<open>st-job-stats\<close> (without \<^verbatim>\<open>-r\<close>) ends
  with the header and the report on the tasks of the time-ordered trace; nothing it does is
  undefined.
\<close>

theorem job_stats_report:
  assumes "faithful_os os contents file_of" and "files \<noteq> []"
    and "\<forall>f \<in> set files. loadable os contents f"
    and "allocs_ok al 0 (map (\<lambda>f. length (records_in contents f)) files) {}"
    and "length (concat (map (records_in contents) files)) < 2 ^ 32"
    and "\<forall>r \<in> set (concat (map (records_in contents) files)). kind_of r = ST_NAME \<longrightarrow> c_string (name_cmd r) \<noteq> None"
    and "js_options atoi js_defaults args = Inr opts" and "\<not> wait_for_release opts"
  shows "\<exists>rs s. mset rs = mset (concat (map (records_in contents) files)) \<and>
    sorted_wrt (\<lambda>a b. \<not> earlier_event b a) rs \<and>
    report_loop (js_period opts) None (map (task_of rs) (slots rs)) = Some s \<and>
    job_stats_main atoi os al True m args files = Inr (header_line @ s)"
proof -
  obtain m' h cnt rs q where l: "load os al files m = Some (m', Some h, cnt)"
    and s: "split True (m', h) cnt True (init_tasks initial_globals) = Some (q, globals_of True rs)"
      "mset rs = mset (concat (map (records_in contents) files))" "sorted_wrt (\<lambda>a b. \<not> earlier_event b a) rs"
    using load_split_ok [OF assms(1-5)] by blast
  have "set rs = set (concat (map (records_in contents) files))" using s(2) by (rule mset_eq_setD)
  then have "tsk_name (task_of rs p) \<noteq> None" for p
    by (intro tsk_name_defined) (use assms(6) in blast)
  then obtain out where out: "report_loop (js_period opts) None (map (task_of rs) (slots rs)) = Some out"
    using report_loop_defined [of "map (task_of rs) (slots rs)" "js_period opts" None] by auto
  have "\<not> wait_for_release (js_period opts)" using assms(8) by (simp add: js_period_def)
  then have "job_stats_main atoi os al True m args files = Inr (header_line @ out)"
    using assms(7) l s(1) out by (simp add: job_stats_main_def js_report_def each_task_globals Let_def)
  with s(2,3) out show ?thesis by blast
qed

theorem job_stats_report_witness:
  "\<exists>rs s. mset rs = mset (trace_a @ trace_b) \<and> report_loop js_defaults None (map (task_of rs) (slots rs)) = Some s \<and>
     job_stats_main (\<lambda>s. 0) sample_os sample_alloc True (mem_of (\<lambda>a. srec 0 0 0 0 0 0)) [] [''a'', ''b''] =
       Inr (header_line @ s)"
proof -
  have names: "\<forall>r \<in> set (concat (map (records_in sample_contents) [''a'', ''b''])).
      kind_of r = ST_NAME \<longrightarrow> c_string (name_cmd r) \<noteq> None"
    by (simp add: trace_a_def trace_b_def kind_of_def event_ids)
  have opts: "js_options (\<lambda>s. 0) js_defaults [] = Inr js_defaults" "\<not> wait_for_release js_defaults"
    "js_period js_defaults = js_defaults" by (simp_all add: js_defaults_def js_period_def)
  show ?thesis
    using job_stats_report [OF sample_faithful _ sample_loadable sample_allocs sample_total names opts(1,2),
        of "mem_of (\<lambda>a. srec 0 0 0 0 0 0)"] opts(3)
    by (simp only: list.map concat.simps sample_records append_Nil2) blast
qed

section \<open>Printing traces\<close>

text \<open>
  C37. Assume, as in C30, that the system shows the contents of the files, that there is at
  least one, that every one of them can be mapped and is smaller than 4 GB (below \<open>2 ^ 32\<close>
  bytes), and that the allocations give large and disjoint blocks.  Then \<^verbatim>\<open>st-dump\<close> puts the
  records of the files into the order of their times.  Without
  options it prints one line for each of them.  With \<^verbatim>\<open>-r -f\<close> it prints one time: the
  release of the task system in the first system release record or, when there is none, the
  time of the first record that has one.
\<close>

theorem stdump_output:
  assumes "faithful_os os contents file_of" and "files \<noteq> []"
    and "\<forall>f \<in> set files. loadable os contents f"
    and "allocs_ok al 0 (map (\<lambda>f. length (records_in contents f)) files) {}"
  shows "\<exists>rs. mset rs = mset (concat (map (records_in contents) files)) \<and>
    sorted_wrt (\<lambda>a b. \<not> earlier_event b a) rs \<and>
    stdump_main os al m [] files = Inr (concat (map event_line rs)) \<and>
    stdump_main os al m [(CHR ''r'', ''''), (CHR ''f'', '''')] files = Inr
      (case find (\<lambda>r. kind_of r = ST_SYS_RELEASE) rs of
         Some r \<Rightarrow> ms_line (sys_release_release r)
       | None \<Rightarrow> (case find (\<lambda>r. event_time r \<noteq> 0) rs of None \<Rightarrow> '''' | Some r \<Rightarrow> ms_line (event_time r)))"
proof -
  obtain m' h cnt where l: "load os al files m = Some (m', Some h, cnt)"
    "queued (m', h) (mset (concat (map (records_in contents) files)))"
    using load_ok [OF assms] by blast
  obtain rs q where rs: "drains take_event (m', h) rs q" "mset rs = mset (concat (map (records_in contents) files))"
    "sorted_wrt (\<lambda>a b. \<not> earlier_event b a) rs"
    using event_heap.drained [OF l(2)] by blast
  have "stdump_main os al m [] files = Inr (concat (map event_line rs))"
    using stdump_prints_all [OF rs(1), of None "''''"] l(1) by (auto simp: stdump_main_def)
  moreover have "stdump_main os al m [(CHR ''r'', ''''), (CHR ''f'', '''')] files = Inr
      (case find (\<lambda>r. kind_of r = ST_SYS_RELEASE) rs of
         Some r \<Rightarrow> ms_line (sys_release_release r)
       | None \<Rightarrow> (case find (\<lambda>r. event_time r \<noteq> 0) rs of None \<Rightarrow> '''' | Some r \<Rightarrow> ms_line (event_time r)))"
  proof (cases "find (\<lambda>r. kind_of r = ST_SYS_RELEASE) rs")
    case None
    then show ?thesis using stdump_no_release [OF rs(1) None, of None "''''"] l(1)
      by (simp add: stdump_main_def split: option.split)
  next
    case (Some r)
    then show ?thesis using stdump_finds_release [OF rs(1) Some, of None "''''"] l(1)
      by (auto simp: stdump_main_def sys_release_release_def)
  qed
  ultimately show ?thesis using rs(2,3) by blast
qed

theorem stdump_output_witness:
  "\<exists>rs. mset rs = mset (trace_a @ trace_b) \<and>
     stdump_main sample_os sample_alloc (mem_of (\<lambda>a. srec 0 0 0 0 0 0)) [] [''a'', ''b''] = Inr (concat (map event_line rs))"
  using stdump_output [OF sample_faithful _ sample_loadable sample_allocs, of "mem_of (\<lambda>a. srec 0 0 0 0 0 0)"]
  by (simp only: list.map concat.simps sample_records append_Nil2) blast

end
