(* ===== verification/Spec2Isabelle.thy ===== *)
theory Spec2Isabelle
  imports Ftsort Ft2csv_Correct File_Map Ftdump Ftcat_Correct Sched_Properties
begin

text \<open>
  A model of the C tools of feather-trace-tools and the theorems that make them correct.

  \<^bold>\<open>The program.\<close>  Two families of tools work on two kinds of trace.  Overhead traces are
  streams of 16-byte records with a cycle counter, a sequence number, a CPU and an event
  (\<^verbatim>\<open>include/timestamp.h\<close>).  \<^verbatim>\<open>ftcat\<close> copies them from a device, \<^verbatim>\<open>ftsort\<close> repairs a
  file in place (byte order, spikes, order of the sequence numbers, implausible
  latencies), \<^verbatim>\<open>ftdump\<close> prints it, and \<^verbatim>\<open>ft2csv\<close> pairs start and end records into
  samples.  Schedule traces are files of 24-byte records (\<^verbatim>\<open>include/sched_trace.h\<close>), one
  per CPU; \<^verbatim>\<open>load.c\<close> merges them through a binomial heap (\<^verbatim>\<open>include/heap.h\<close>,
  \<^verbatim>\<open>eheap.c\<close>) and splits the merged stream into tasks, \<^verbatim>\<open>st-dump\<close> prints it in order
  and \<^verbatim>\<open>st-job-stats\<close> reports on the jobs of each task.

  \<^bold>\<open>The theories\<close>, in the order of the components:

  \<^item> \<^verbatim>\<open>FT_Prelude\<close>: integer types, \<^verbatim>\<open>printf\<close> and \<^verbatim>\<open>sscanf\<close> of decimal numbers, generic
    lemmas; \<^verbatim>\<open>C_Float\<close>: \<^verbatim>\<open>double\<close> and \<^verbatim>\<open>float\<close> as rounded rationals; \<^verbatim>\<open>C_Format\<close>: output
    conversions.
  \<^item> \<^verbatim>\<open>Timestamp\<close> (\<^verbatim>\<open>timestamp.h\<close>, \<^verbatim>\<open>timestamp.c\<close>): the record with its bit-field widths,
    event identifiers, the name table and its lookups.
  \<^item> \<^verbatim>\<open>Ftsort_Seqno\<close>, \<^verbatim>\<open>Ftsort_Reorder\<close>, \<^verbatim>\<open>Ftsort_Sorting\<close> (\<^verbatim>\<open>ftsort.c\<close>, lines 34 to 208):
    32-bit sequence numbers across the wrap-around, the window searches, \<open>move_record\<close> and
    \<open>reorder\<close> over the state of records and counters.  \<^verbatim>\<open>Ftsort_Marking\<close> (lines 210 to 325):
    \<open>pre_check_cpu_monotonicity\<close> and \<open>filter_implausible_latencies\<close> with their per-CPU
    tables.  \<^verbatim>\<open>Ftsort\<close>: \<open>ntohx\<close>, \<open>restore_byte_order\<close>, options and \<^verbatim>\<open>main\<close>.
  \<^item> \<^verbatim>\<open>Ft2csv\<close> (\<^verbatim>\<open>ft2csv.c\<close>): all search, filter and output functions with options and
    counters as records; \<^verbatim>\<open>Ft2csv_Matching\<close>: what each search finds, which execution time
    it gives and which interrupt ends it; \<^verbatim>\<open>Ft2csv_Correct\<close>: what \<open>show_csv\<close> does with a
    start record, and what the reports and counters are.
  \<^item> \<^verbatim>\<open>File_Map\<close> (\<^verbatim>\<open>mapping.c\<close>, and its variant in \<^verbatim>\<open>load.c\<close>); \<^verbatim>\<open>Layout\<close>, \<^verbatim>\<open>Ts_File\<close> and
    \<^verbatim>\<open>St_File\<close>: the bytes of a file as arrays of the two kinds of records, and back.
  \<^item> \<^verbatim>\<open>Ftdump\<close> (\<^verbatim>\<open>ftdump.c\<close>); \<^verbatim>\<open>Ftcat\<close>, \<^verbatim>\<open>Ftcat_Correct\<close> (\<^verbatim>\<open>ftcat.c\<close>): enabling and the
    copying loop, and the signal handler, whose requests may come between any two accesses of
    the program (or of another handler) to the identifiers, their number or the device
    (\<open>ftcat_step\<close>).
  \<^item> \<^verbatim>\<open>Heap_Model\<close> (\<^verbatim>\<open>heap.h\<close>): nodes in a memory and every operation as the updates of the
    code.  \<^verbatim>\<open>Heap_Forest\<close>: the pointer routines compute functions on lists of trees;
    \<^verbatim>\<open>Heap_Binomial\<close>: these keep the binomial invariant; \<^verbatim>\<open>Heap_Correct\<close>: the contract of
    insertion, union, peek and take; \<^verbatim>\<open>Heap_Decrease\<close>: that of decrease and delete.
  \<^item> \<^verbatim>\<open>Event_Queue\<close> (\<^verbatim>\<open>eheap.c\<close>), \<^verbatim>\<open>Sched_Trace\<close> (\<^verbatim>\<open>sched_trace.h\<close>, \<^verbatim>\<open>util.c\<close>), \<^verbatim>\<open>Load\<close> and
    \<^verbatim>\<open>Tasks\<close> (\<^verbatim>\<open>load.c\<close>, \<^verbatim>\<open>load.h\<close>): loading, the task table, splitting and cropping over
    lists; \<^verbatim>\<open>Tasks_Correct\<close>: the specification of the table; \<^verbatim>\<open>Event_Links\<close>: splitting and
    cropping over links and tail pointers, and the refinement to the lists.
  \<^item> \<^verbatim>\<open>Job_Stats\<close>, \<^verbatim>\<open>Job_Stats_Correct\<close> (\<^verbatim>\<open>job_stats.c\<close>) and \<^verbatim>\<open>Stdump\<close> (\<^verbatim>\<open>stdump.c\<close>).
  \<^item> \<^verbatim>\<open>Sched_Properties\<close> and this theory: the properties C1 to C40.

  \<^bold>\<open>The interfaces.\<close>  \<open>order_guard\<close>: a test that refuses to move a record before another one
  keeps the order of a class of records; given by \<open>violates\<close> for CPUs and for tasks.
  \<open>marking_pass\<close>: a pass changes event fields only; given by both passes of \<^verbatim>\<open>ftsort\<close>.
  \<open>priority\<close>: what the heap asks of its comparison (a strict weak order); given by
  \<open>earlier_event\<close>.  \<open>event_queue\<close>: what the schedule tools ask of a queue (taking delivers
  a least record and leaves the others); given by the heap through \<open>take_event\<close>.

  \<^bold>\<open>What is shown.\<close>  C1 to C6: \<^verbatim>\<open>ftsort\<close> sorts traces of bounded disorder, permutes the
  records, never passes a record over one of its CPU or task, counts the holes that are
  left.  C7, C8: the comparisons across the wrap-around.  C9 to C13: which records the two
  passes mark (the latency filter by the next release or scheduler invocation of the CPU), where their tables are overrun, and that rounding does no harm.  C14, C15:
  byte swaps.  C16, C17: event names and identifiers, one to one.  C18 to C23: which samples \<^verbatim>\<open>ft2csv\<close> reports, with
  which durations and counts.  C24 to C28: the contract of the heap.  C29 to C33: the
  queue, loading, and splitting, on lists and on links.  C34 to C37: \<^verbatim>\<open>st-job-stats\<close> and
  \<^verbatim>\<open>st-dump\<close>.  C38: \<^verbatim>\<open>ftdump\<close> gives no warning on a file that \<^verbatim>\<open>ftsort\<close> has sorted.  C39, C40:
  \<^verbatim>\<open>ftcat\<close> ends at its limit, and its handler disables what has been counted, which is what
  has been enabled but for one event whose request is still to come.

  \<^bold>\<open>Loops and bounds.\<close>  There is no fuel.  Loops over arrays recurse on the list or on the
  distance to its end.  Loops along pointers, loops that take from a queue, and the loop of
  \<^verbatim>\<open>ftcat\<close> are partial functions into \<open>option\<close>, and the theorems show that they return:
  along a list or a tree that is laid out in memory, by the degree of a node (which grows
  towards the root and has 32 bits), by the number of records that wait, by the limit on
  the size.  \<open>None\<close> also stands for undefined behaviour (a null pointer, an index out of
  bounds), so a theorem that gives \<open>Some\<close> excludes it.  Tables and windows have the sizes
  of the code (\<open>LOOK_AHEAD\<close> 1024, \<open>MAX_CPUS\<close> 255, \<open>MAX_TASKS\<close> 512, \<open>MAX_EVENTS\<close> 128),
  and counters their 32 or 64 bits.

  \<^bold>\<open>Parameters.\<close>  The results of the system calls that map files (\<open>os\<close>), the device of
  \<^verbatim>\<open>ftcat\<close> (\<open>device\<close>), the blocks of \<^verbatim>\<open>malloc\<close> (\<open>heap_alloc\<close>), the conversions \<^verbatim>\<open>atoi\<close>,
  \<^verbatim>\<open>atof\<close> and \<^verbatim>\<open>atol\<close>, the list of options that \<^verbatim>\<open>getopt\<close> returns, and the content of the
  uninitialised table \<^verbatim>\<open>last_preemptable\<close> and of the unused bytes of records.  The
  hypotheses on them say that files keep their contents while they are mapped and that
  blocks are large enough and disjoint.  The theorems on the schedule tools are about files
  smaller than 4 GB, the bound of the cast in \<^verbatim>\<open>load.c\<close>, line 56.

  \<^bold>\<open>Not modelled.\<close>  Messages on the error stream and usage texts (errors are values of an
  error type; the final statistics of \<^verbatim>\<open>ftsort\<close> and \<^verbatim>\<open>ft2csv\<close> are modelled, without the lines
  that depend on the wall clock), verbose output, unmapping and process exit, and the Python
  and shell scripts around the tools.  Rounded output of a double is
  that of the exact decimal rounding, and the hosts are taken to be little-endian, as the
  code itself does.
\<close>

section \<open>Sample records\<close>

text \<open>A record with a time stamp, a PID, a sequence number, a CPU and an event.\<close>

definition stamp :: "u48 \<Rightarrow> u16 \<Rightarrow> u32 \<Rightarrow> u8 \<Rightarrow> u8 \<Rightarrow> timestamp" where
  "stamp t p n c e =
     \<lparr>ts_timestamp = t, ts_pid = p, ts_seq_no = n, ts_cpu = c, ts_event = e,
      ts_task_type = 1, ts_irq_flag = 0, ts_irq_count = 0\<rparr>"

lemma stamp_select [simp]:
  "ts_timestamp (stamp t p n c e) = t" "ts_pid (stamp t p n c e) = p"
  "ts_seq_no (stamp t p n c e) = n" "ts_cpu (stamp t p n c e) = c"
  "ts_event (stamp t p n c e) = e" "ts_task_type (stamp t p n c e) = 1"
  "ts_irq_flag (stamp t p n c e) = 0"
  by (simp_all add: stamp_def)

section \<open>Sorting a trace\<close>

text \<open>
  C1. \<^verbatim>\<open>ftsort\<close> sorts.  A trace whose records are out of place by fewer than 512
  positions, whose sequence numbers form one run (wrap-around included) starting with the
  first record, and in which no record has to pass another one of its own CPU or task, is
  written back with consecutive sequence numbers and no hole is reported.  No record may
  come from CPU 255, and the byte swap \<^verbatim>\<open>-e\<close> is not asked for.
\<close>

theorem ftsort_sorts:
  assumes "bounded_disorder s0 ts" and "\<forall>r \<in> set ts. ts_cpu r \<noteq> 255"
    and "\<not> swap_byte_order opts" and "length lp0 = MAX_CPUS"
  shows "\<exists>s. ftsort_passes lp0 opts ts = Some s \<and>
    map ts_seq_no (recs s) = map (\<lambda>i. s0 + of_nat i) [0..<length ts] \<and> holes s = 0"
proof -
  obtain s where "ftsort_passes lp0 opts ts = Some s"
    using passes_total [OF assms(4,2)] by blast
  then show ?thesis using passes_sort assms by blast
qed

definition swapped_trace :: "timestamp list" where
  "swapped_trace =
     [stamp 10 1 4294967295 0 100, stamp 30 2 1 1 100, stamp 20 1 0 0 101, stamp 40 2 2 1 101]"

lemma swapped_trace_disorder: "bounded_disorder 4294967295 swapped_trace"
  by code_simp

lemma swapped_trace_facts:
  "length swapped_trace = 4" "\<forall>r \<in> set swapped_trace. ts_cpu r \<noteq> 255"
  "\<not> swap_byte_order ftsort_defaults" "length (replicate MAX_CPUS (0 :: u64)) = MAX_CPUS"
  by (simp_all add: swapped_trace_def ftsort_defaults_def)

theorem ftsort_sorts_witness:
  "\<exists>s. ftsort_passes (replicate MAX_CPUS 0) ftsort_defaults swapped_trace = Some s \<and>
    map ts_seq_no (recs s) = map (\<lambda>i. 4294967295 + of_nat i) [0..<4] \<and> holes s = 0"
  using ftsort_sorts [OF swapped_trace_disorder swapped_trace_facts(2-4)]
  by (simp only: swapped_trace_facts(1))

text \<open>
  C2. What \<^verbatim>\<open>ftsort\<close> does to the records.  With \<^verbatim>\<open>-e\<close> every record first goes through
  \<open>restore_byte_order\<close> (see C15 for what that loses).  From there on no record is lost,
  duplicated or altered but for marks: the result is a rearrangement of the records, some of
  which have their event, and nothing else, replaced by 255; and the number of these is that
  of the two counters of marked records (modulo \<open>2 ^ 32\<close>).  This is so for any content of the
  table that the latency filter does not initialise.
\<close>

theorem ftsort_permutes:
  assumes "ftsort_passes lp0 opts ts = Some s" and "length lp0 = MAX_CPUS"
  shows "let ts' = (if swap_byte_order opts then restore_byte_order ts else ts) in
    \<exists>us. length us = length ts' \<and>
      (\<forall>i < length ts'. us ! i = ts' ! i \<or> us ! i = (ts' ! i)\<lparr>ts_event := 255\<rparr>) \<and>
      mset (recs s) = mset us \<and>
      of_nat (card {i. i < length ts' \<and> us ! i \<noteq> ts' ! i}) = non_monotonic s + implausible s"
  using passes_marks [OF assms refl]
  unfolding only_marks_def marks_def marked_def BAD_EVENT_def Let_def by blast

theorem ftsort_permutes_witness:
  "\<exists>s us. ftsort_passes (replicate MAX_CPUS 0) ftsort_defaults swapped_trace = Some s \<and>
    mset (recs s) = mset us \<and> length us = length swapped_trace \<and>
    (\<forall>i < length swapped_trace. us ! i = swapped_trace ! i \<or> us ! i = (swapped_trace ! i)\<lparr>ts_event := 255\<rparr>)"
proof -
  obtain s where run: "ftsort_passes (replicate MAX_CPUS 0) ftsort_defaults swapped_trace = Some s"
    using passes_total [OF swapped_trace_facts(4,2)] by blast
  then show ?thesis using ftsort_permutes [OF run swapped_trace_facts(4)] swapped_trace_facts(3)
    by (auto simp: Let_def)
qed

text \<open>
  C3. \<open>reorder\<close> respects sequentiality: the records of every CPU and of every task, apart
  from those recorded on another CPU, come out in the order in which they went in, and no
  record is lost.
\<close>

theorem reorder_respects_sequentiality:
  "filter (on_cpu c) (recs (reorder s)) = filter (on_cpu c) (recs s) \<and>
   filter (of_task p) (recs (reorder s)) = filter (of_task p) (recs s) \<and>
   mset (recs (reorder s)) = mset (recs s)"
  by (intro conjI reorder_invariant [where f = "filter (on_cpu c)"]
      reorder_invariant [where f = "filter (of_task p)"] reorder_invariant [where f = mset])
    (rule stream_move_cpu stream_move_task stream_move_mset; assumption)+

text \<open>
  C4. The hole counter: \<open>reorder\<close> adds to it (modulo \<open>2 ^ 32\<close>) the number of neighbours in
  its result that do not have consecutive sequence numbers, and leaves the counters of the
  other passes alone.
\<close>

theorem reorder_counts_holes:
  "holes (reorder s) = holes s + of_nat (gaps (recs (reorder s))) \<and>
   non_monotonic (reorder s) = non_monotonic s \<and> implausible (reorder s) = implausible s"
  by (simp add: reorder_holes frame)

text \<open>
  C5. The search for the next record: when \<open>find_lowest_seq_no\<close> returns a record, it is
  in the window, less than \<open>LOOK_AHEAD\<close> ahead of the expected number, and no record of the
  window is closer to it, in the arithmetic modulo \<open>2 ^ 32\<close>.
\<close>

theorem find_lowest_minimal:
  assumes "find_lowest_seq_no a start end' s = Some j" and "start \<le> end'"
  shows "start \<le> j \<and> j < min end' (start + LOOK_AHEAD) \<and> ahead s (ts_seq_no (a ! j)) < LOOK_AHEAD \<and>
    (\<forall>i \<in> {start..<min end' (start + LOOK_AHEAD)}.
       ahead s (ts_seq_no (a ! j)) \<le> ahead s (ts_seq_no (a ! i)))"
  using find_lowest_sound [OF assms] by (simp add: best_def dist_def window_end_eq)

theorem find_lowest_minimal_witness:
  "ahead 0 (ts_seq_no (swapped_trace ! 2)) \<le> ahead 0 (ts_seq_no (swapped_trace ! 1))"
proof -
  have "find_lowest_seq_no swapped_trace 1 4 0 = Some 2" by code_simp
  from find_lowest_minimal [OF this] show ?thesis by (simp add: LOOK_AHEAD_def)
qed

text \<open>
  C6. The expected record is found: when it is in the window and at most
  \<open>MAX_NR_NOT_IN_RANGE\<close> records before it are out of range, the search returns its first
  occurrence.
\<close>

theorem find_lowest_expected:
  assumes "start \<le> i" and "i < min end' (start + LOOK_AHEAD)" and "ts_seq_no (a ! i) = s"
    and "\<forall>k \<in> {start..<i}. ts_seq_no (a ! k) \<noteq> s"
    and "length (filter (\<lambda>k. \<not> in_range s (ts_seq_no (a ! k))) [start..<i]) \<le> MAX_NR_NOT_IN_RANGE"
  shows "find_lowest_seq_no a start end' s = Some i"
  using assms by (intro find_lowest_hit) (simp_all add: window_end_eq in_range_ahead dist_def not_less)

theorem find_lowest_expected_witness: "find_lowest_seq_no swapped_trace 1 4 0 = Some 2"
proof (rule find_lowest_expected)
  show "\<forall>k \<in> {1..<2}. ts_seq_no (swapped_trace ! k) \<noteq> 0"
    and "length (filter (\<lambda>k. \<not> in_range 0 (ts_seq_no (swapped_trace ! k))) [1..<2]) \<le> MAX_NR_NOT_IN_RANGE"
    by code_simp+
qed (simp_all add: swapped_trace_def LOOK_AHEAD_def)

text \<open>
  C7. \<open>in_range\<close> decides whether a sequence number is less than \<open>LOOK_AHEAD\<close> ahead,
  wrap-around included.
\<close>

theorem in_range_iff: "in_range s c \<longleftrightarrow> ahead s c < LOOK_AHEAD"
  by (rule in_range_ahead)

text \<open>
  C8. \<open>is_lower_seqno\<close>, which compares signed values, orders the numbers that
  \<open>in_range\<close> lets pass by their distance from the expected one.
\<close>

theorem is_lower_iff:
  assumes "in_range s c" and "in_range s m"
  shows "is_lower_seqno c m \<longleftrightarrow> ahead s c \<le> ahead s m"
  using assms by (intro is_lower_ahead) (simp_all add: in_range_ahead)

theorem is_lower_iff_witness:
  "is_lower_seqno 4294967295 3 \<longleftrightarrow> ahead 4294967290 4294967295 \<le> ahead 4294967290 3"
  by (rule is_lower_iff) code_simp+


section \<open>Marking bad records\<close>

text \<open>
  C9. \<open>pre_check_cpu_monotonicity\<close> marks, among the checked records of each CPU, exactly
  those that the scan of the time stamps of this CPU alone flags as spikes or gaps; it
  changes no other field and no unchecked record, and its counter grows by the number of
  records marked.
\<close>

theorem pre_check_marks_outliers:
  assumes "pre_check_cpu_monotonicity s = Some s'" and "c < MAX_CPUS"
  shows "map (marked (recs s) (recs s')) (lane (recs s) c (length (recs s))) =
      cpu_flags (lane_times (recs s) (lane (recs s) c (length (recs s)))) \<and>
    only_marks (recs s) (recs s') \<and>
    {i. i < length (recs s) \<and> marked (recs s) (recs s') i \<and> not_checked (recs s ! i)} = {} \<and>
    non_monotonic s' = non_monotonic s + of_nat (marks (recs s) (recs s')) \<and> holes s' = holes s"
proof -
  note pc = pre_check_sound [OF assms(1)]
  have "non_monotonic s' = non_monotonic s + of_nat (marks (recs s) (recs s')) \<and> holes s' = holes s"
    by (subst (1 2) pc(2)) simp
  then show ?thesis using pc(1,3,4) assms(2) by auto
qed

definition spike_trace :: "timestamp list" where
  "spike_trace =
     [stamp 10 1 1 0 100, stamp 90 1 2 0 101, stamp 20 1 3 0 104, stamp 30 1 4 0 105]"

theorem pre_check_marks_outliers_witness:
  "\<exists>s'. pre_check_cpu_monotonicity (initial_state spike_trace) = Some s' \<and>
    map (marked spike_trace (recs s')) [0, 1, 2, 3] = [False, True, False, False]"
proof -
  have "lane spike_trace 0 4 = [0, 1, 2, 3]"
    and "cpu_flags (lane_times spike_trace [0, 1, 2, 3]) = [False, True, False, False]"
    by code_simp+
  moreover obtain s' where "pre_check_cpu_monotonicity (initial_state spike_trace) = Some s'"
    using pre_check_None [of "initial_state spike_trace"]
    by (fastforce simp: initial_state_def spike_trace_def)
  moreover have "length spike_trace = 4" by (simp add: spike_trace_def)
  ultimately show ?thesis
    using pre_check_marks_outliers [of "initial_state spike_trace" s' 0]
    by (auto simp: initial_state_def MAX_CPUS_def)
qed

text \<open>
  C10. A CPU whose checked records have strictly growing time stamps is left alone.
\<close>

theorem pre_check_accepts_monotonic:
  assumes "pre_check_cpu_monotonicity s = Some s'" and "c < MAX_CPUS"
    and "sorted_wrt (<) (lane_times (recs s) (lane (recs s) c (length (recs s))))"
  shows "map (\<lambda>i. recs s' ! i) (lane (recs s) c (length (recs s))) =
    map (\<lambda>i. recs s ! i) (lane (recs s) c (length (recs s)))"
proof -
  let ?L = "lane (recs s) c (length (recs s))"
  have "map (marked (recs s) (recs s')) ?L = replicate (length ?L) False"
    using pre_check_sound(4) [OF assms(1,2)] cpu_flags_mono [OF assms(3)] by (simp add: lane_times_def)
  then have "\<forall>i \<in> set ?L. \<not> marked (recs s) (recs s') i"
    by (metis in_set_replicate length_map map_replicate_const list.set_map imageI)
  then show ?thesis by (simp add: marked_def)
qed

theorem pre_check_accepts_monotonic_witness:
  "\<exists>s'. pre_check_cpu_monotonicity (initial_state swapped_trace) = Some s' \<and>
    map (\<lambda>i. recs s' ! i) [0, 2] = map (\<lambda>i. swapped_trace ! i) [0, 2]"
proof -
  have "lane swapped_trace 0 4 = [0, 2]" and "sorted_wrt (<) (lane_times swapped_trace [0, 2])"
    by code_simp+
  moreover obtain s' where "pre_check_cpu_monotonicity (initial_state swapped_trace) = Some s'"
    using pre_check_None [of "initial_state swapped_trace"] swapped_trace_facts(2)
    by (fastforce simp: initial_state_def)
  ultimately show ?thesis
    using pre_check_accepts_monotonic [of "initial_state swapped_trace" s' 0] swapped_trace_facts(1)
    by (auto simp: initial_state_def MAX_CPUS_def)
qed

text \<open>
  C11. The tables of \<open>pre_check_cpu_monotonicity\<close> have one entry too few: the pass leaves
  them exactly when a checked record comes from CPU 255.
\<close>

theorem pre_check_out_of_bounds:
  "pre_check_cpu_monotonicity s = None \<longleftrightarrow>
    (\<exists>r \<in> set (recs s). \<not> not_checked r \<and> ts_cpu r = 255)"
  by (rule pre_check_None)

text \<open>
  C12. \<open>filter_implausible_latencies\<close>, for a trace without records of CPU 255, marks exactly
  the latencies that are longer than the time from the latest scheduler invocation of their
  CPU to the next release or scheduler invocation there, if these exist in a stretch without
  holes; the table it does not initialise (of any content) has no influence, and its counter
  grows by the number of records marked.
\<close>

theorem filter_marks_implausible:
  assumes "length lp0 = MAX_CPUS" and "\<forall>r \<in> set (recs s). unat (ts_cpu r) < MAX_CPUS"
  shows "\<exists>s'. filter_implausible_latencies lp0 cycles s = Some s' \<and>
    recs s' = map (\<lambda>i. if implausible_at cycles (recs s) i
      then (recs s ! i)\<lparr>ts_event := BAD_EVENT\<rparr> else recs s ! i) [0..<length (recs s)] \<and>
    implausible s' = implausible s + of_nat (marks (recs s) (recs s'))"
proof -
  obtain s' where run: "filter_implausible_latencies lp0 cycles s = Some s'"
    using filter_total [OF assms] by blast
  note flt = filter_sound [OF run assms(1), unfolded latency_test_iff]
  have "implausible s' = implausible s + of_nat (marks (recs s) (recs s'))"
    by (subst flt(2)) simp
  with run flt(1) show ?thesis by blast
qed

definition latency_trace :: "timestamp list" where
  "latency_trace =
     [stamp 100 1 1 0 100, stamp 5000 1 2 0 208, stamp 400 1 3 0 106, stamp 500 1 4 0 107]"

lemma below_sample: "below_latency 2 300 5000"
  using fl_of_nat [of 300 53] fl_of_nat [of 150 53] fl_of_nat [of 5000 53]
  by (simp add: below_latency_def to_double_def)

lemma latency_trace_nth:
  "length latency_trace = 4" "latency_trace ! 0 = stamp 100 1 1 0 100"
  "latency_trace ! Suc 0 = stamp 5000 1 2 0 208" "latency_trace ! 2 = stamp 400 1 3 0 106"
  "latency_trace ! 3 = stamp 500 1 4 0 107"
  by (simp_all add: latency_trace_def)

lemma latency_trace_implausible: "implausible_at 2 latency_trace i \<longleftrightarrow> i = Suc 0"
proof -
  have "last_sched latency_trace 0 (Suc 0) = Some 0"
    and "find_np_upper_bound 0 (Suc (Suc 0)) latency_trace = Some 2"
    by code_simp+
  then have "implausible_at 2 latency_trace (Suc 0)"
    using below_sample
    unfolding latency_test_iff [symmetric]
    by (simp add: latency_test_def latency_trace_nth ev_def event_ids numeral_2_eq_2 [symmetric])
  moreover have "i = Suc 0" if "implausible_at 2 latency_trace i"
  proof -
    have "ev (latency_trace ! i) = 208" and "Suc i < 4"
      using that unfolding latency_test_iff [symmetric]
      by (simp_all add: latency_test_def event_ids latency_trace_nth(1))
    moreover from this have "i = 0 \<or> i = Suc 0 \<or> i = 2" by linarith
    ultimately show ?thesis by (auto simp: latency_trace_nth ev_def)
  qed
  ultimately show ?thesis by blast
qed

theorem filter_marks_implausible_witness:
  "\<exists>s'. filter_implausible_latencies (replicate MAX_CPUS 7) 2 (initial_state latency_trace) = Some s' \<and>
    map ts_event (recs s') = [100, BAD_EVENT, 106, 107]"
proof -
  let ?s = "initial_state latency_trace"
  have recs: "recs ?s = latency_trace" by (simp add: initial_state_def)
  have cpus: "\<forall>r \<in> set (recs ?s). unat (ts_cpu r) < MAX_CPUS"
    unfolding recs by (simp add: latency_trace_def MAX_CPUS_def)
  obtain s' where run: "filter_implausible_latencies (replicate MAX_CPUS 7) 2 ?s = Some s'"
    and s': "recs s' = map (\<lambda>i. if i = Suc 0 then (latency_trace ! i)\<lparr>ts_event := BAD_EVENT\<rparr>
      else latency_trace ! i) [0..<4]"
    using filter_marks_implausible [OF _ cpus, of "replicate MAX_CPUS 7" 2]
    unfolding recs latency_trace_implausible latency_trace_nth(1) by auto
  have "map ts_event (recs s') = [100, BAD_EVENT, 106, 107]"
  proof -
    have "[0..<4] = [0, Suc 0, 2, 3]" by code_simp
    then show ?thesis unfolding s' by (simp add: latency_trace_nth)
  qed
  with run show ?thesis by (intro exI conjI)
qed

text \<open>
  C13. The floating-point test of the filter never accuses a latency that is plausible in
  exact arithmetic: rounding in the division errs on the safe side only.
\<close>

theorem latency_rounding_safe:
  assumes "below_latency cycles delta latency" and "0 < cycles" and "unat delta < 2 ^ 53" and "0 < delta"
  shows "of_nat (unat delta) / cycles < of_nat (unat latency)"
  by (rule below_latency_exact [OF assms])

theorem latency_rounding_safe_witness:
  "of_nat (unat (300 :: u64)) / 2 < (of_nat (unat (5000 :: u48)) :: rat)"
proof (rule latency_rounding_safe)
  show "below_latency 2 300 5000" by (rule below_sample)
qed simp_all


section \<open>Byte order\<close>

text \<open>
  C14. \<open>ntohx\<close> reverses the eight bytes of a word, and applying it, or \<open>ntohl\<close>, twice
  gives the word back.
\<close>

theorem byte_swap_reverses:
  assumes "i < 8"
  shows "bget i (ntohx q) = bget (7 - i) q \<and> ntohx (ntohx q) = q \<and> ntohl (ntohl n) = n"
  by (simp add: bget_ntohx [OF assms] ntohx_involution ntohl_involution)

theorem byte_swap_reverses_witness: "bget 0 (ntohx 0x1122334455667788) = 0x11"
  by (subst byte_swap_reverses [of 0 "0x1122334455667788" 0, THEN conjunct1]) code_simp+

text \<open>
  C15. \<open>restore_byte_order\<close> cannot restore a 48-bit time stamp: the swap is over 64 bits,
  so the two low bytes of the field are dropped and the result ends in two zero bytes.
\<close>

theorem restore_drops_bytes:
  assumes "drop_bit 16 (ts_timestamp r) = drop_bit 16 (ts_timestamp r')"
  shows "map ts_timestamp (restore_byte_order [r]) = map ts_timestamp (restore_byte_order [r']) \<and>
    take_bit 16 (ts_timestamp (restore_record r)) = 0"
proof -
  have "take_bit 16 (ts_timestamp (restore_record r)) = 0"
    by (rule bit_word_eqI) (auto simp: bit_take_bit_iff restored_low_bytes)
  then show ?thesis by (simp add: restored_forgets [OF assms])
qed

theorem restore_drops_bytes_witness:
  "ts_timestamp (restore_record (stamp 0x0102 1 1 0 100)) = ts_timestamp (restore_record (stamp 0x0304 1 1 0 100))"
proof -
  have "drop_bit 16 (ts_timestamp (stamp 0x0102 1 1 0 100)) = drop_bit 16 (ts_timestamp (stamp 0x0304 1 1 0 100))"
    by code_simp
  from restore_drops_bytes [OF this] show ?thesis by simp
qed

section \<open>Event names\<close>

text \<open>
  C16. Names and identifiers of events correspond one to one: no name and no identifier
  occurs twice in the table, \<open>event2str\<close> gives every identifier of the table the name of its
  entry and answers nothing for any other, \<open>str2event\<close> reads every name of the table as the
  identifier of its entry, and every 32-bit identifier can be given as a decimal number.
\<close>

theorem event_name_roundtrip:
  "distinct (map fst event_table) \<and> distinct (map snd event_table) \<and>
   (event2str i = Some name \<longleftrightarrow> (name, i) \<in> set event_table) \<and>
   (event2str i = None \<longleftrightarrow> i \<notin> snd ` set event_table) \<and>
   list_all (\<lambda>(name, j). str2event name = (1, Some j)) event_table \<and>
   str2event (dec (unat i)) = (1, Some i)"
proof -
  have "str2event (dec (unat i)) = (1, Some (of_nat (unat i)))"
    using unat_bound32 [of i] by (intro str2event_dec) simp
  moreover have "event2str i = Some name \<longleftrightarrow> (name, i) \<in> set event_table"
    unfolding event2str_def using lookup_id_mem lookup_id_eq [OF event_ids_distinct] by blast
  moreover have "list_all (\<lambda>(name, j). str2event name = (1, Some j)) event_table"
    using lookup_name_mem [OF event_names_distinct] by (auto simp: list_all_iff str2event_def)
  ultimately show ?thesis
    using event_names_distinct event_ids_distinct by (simp add: event2str_def lookup_id_None)
qed

lemma short_name_argument:
  assumes "(name @ ''_START'', i) \<in> set event_table"
  shows "event_argument name = Inr i"
proof -
  have "list_all (\<lambda>(s, i). drop (length s - 6) s = ''_START'' \<longrightarrow>
      event_argument (take (length s - 6) s) = Inr i) event_table"
    by code_simp
  then have "drop (length (name @ ''_START'') - 6) (name @ ''_START'') = ''_START'' \<longrightarrow>
      event_argument (take (length (name @ ''_START'') - 6) (name @ ''_START'')) = Inr i"
    using assms by (auto simp: list_all_iff)
  then show ?thesis by simp
qed

lemma blank_argument:
  assumes "\<forall>c \<in> set arg. is_space c"
  shows "event_argument arg = Inl Uninitialised_id"
proof -
  have "arg \<notin> fst ` set event_table"
    using assms event_names_visible by (fastforce simp: list_all_iff list_ex_iff)
  moreover have "sscanf_u arg = (- 1, None)"
  proof -
    have "dropWhile is_space arg = []" using assms by simp
    then show ?thesis by (simp only: sscanf_u_def list.case)
  qed
  ultimately show ?thesis
    by (simp add: event_argument_def str2event_def lookup_name_None)
qed

text \<open>
  C17. The event argument of \<^verbatim>\<open>ft2csv\<close> may be given without \<^verbatim>\<open>_START\<close>: the short name
  of every start event selects it.  But an argument of blanks is taken for a number that was
  read, because \<^verbatim>\<open>sscanf\<close> answers \<open>-1\<close> at the end of the input: the event identifier is
  then used uninitialised.
\<close>

theorem event_arguments:
  "((name @ ''_START'', i) \<in> set event_table \<longrightarrow> event_argument name = Inr i) \<and>
   ((\<forall>c \<in> set arg. is_space c) \<longrightarrow> event_argument arg = Inl Uninitialised_id)"
  using short_name_argument blank_argument by blast

theorem event_arguments_witness:
  "event_argument ''SEND_RESCHED'' = Inr 190 \<and> event_argument ''  '' = Inl Uninitialised_id"
proof -
  have "(''SEND_RESCHED'' @ ''_START'', 190) \<in> set event_table" by (simp add: event_table_unfold)
  moreover have "\<forall>c \<in> set ''  ''. is_space c" by (simp add: is_space_def)
  ultimately show ?thesis using event_arguments [of "''SEND_RESCHED''" 190 "''  ''"] by blast
qed

section \<open>Extracting samples\<close>

text \<open>
  C18. Matching by event and CPU: what \<open>show_csv\<close> does with a start record, in terms of the
  output and all counters but \<open>interrupted\<close> and \<open>interleaved\<close>.  A record of an unwanted CPU
  is counted as avoided.  The end record is the first one on the CPU of the start; it must be
  reached over an unbroken run of sequence numbers with no other start in between (nor
  anything else on the CPU with \<^verbatim>\<open>-i\<close>) and, without \<^verbatim>\<open>-x\<close>, no interrupt, and the time
  stamps must increase.  If there is such an end record, the pair is written with the
  difference of the time stamps and counted as complete when one of the two is real-time or
  \<^verbatim>\<open>-b\<close> is given, and only counted as non-real-time otherwise.  If there is none, nothing is
  written, and the record is counted as incomplete unless an interrupt has ended the search.
\<close>

theorem matched_by_event:
  assumes "find_by_pid opts = 0"
  shows "(cpu_excluded opts (a ! i) \<longrightarrow>
      core (show_csv opts a i c) = core (c\<lparr>avoided := avoided c + 1\<rparr>)) \<and>
    (\<not> cpu_excluded opts (a ! i) \<longrightarrow>
      (\<forall>j. cpu_match opts a (ts_cpu (a ! i)) (ev (a ! i) + 1) (ev (a ! i)) i j \<and>
         ts_timestamp (a ! i) < ts_timestamp (a ! j) \<longrightarrow>
         core (show_csv opts a i c) = core
           (if task_type (a ! i) = TSK_RT \<or> task_type (a ! j) = TSK_RT \<or> want_best_effort opts
            then c\<lparr>out := out c @ [format_pair opts (a ! i) (a ! j) (of_nat (elapsed a i j))],
                   complete := complete c + 1\<rparr>
            else c\<lparr>non_rt := non_rt c + 1\<rparr>)) \<and>
      ((\<nexists>j. cpu_match opts a (ts_cpu (a ! i)) (ev (a ! i) + 1) (ev (a ! i)) i j \<and>
         ts_timestamp (a ! i) < ts_timestamp (a ! j)) \<longrightarrow>
         core (show_csv opts a i c) = core
           (if cpu_cut opts a (ts_cpu (a ! i)) (ev (a ! i) + 1) (ev (a ! i)) i then c
            else c\<lparr>incomplete := incomplete c + 1\<rparr>)))"
  unfolding show_csv_core
  using outcome_excluded [of opts a i] outcome_by_event [OF assms, of a i]
  unfolding cpu_pair_def cpu_disturbed_def
  by (simp add: emit_def)

definition pair_trace :: "timestamp list" where
  "pair_trace =
     [stamp 100 1 1 0 100, stamp 110 2 2 1 100, stamp 130 1 3 0 104, stamp 150 1 4 0 101,
      stamp 170 2 5 1 101]"

lemma pair_trace_match: "cpu_match (csv_select csv_defaults 100) pair_trace 0 101 100 0 3"
proof -
  have "\<exists>c'. find_second_ts (csv_select csv_defaults 100) pair_trace 0 csv_init = (Some 3, False, c')"
    unfolding prod_eq_iff by (simp, code_simp)
  then show ?thesis unfolding find_second_ts_Some by (simp add: pair_trace_def ev_def)
qed

theorem matched_by_event_witness:
  "out (show_csv (csv_select csv_defaults 100) pair_trace 0 csv_init) =
     [print_pair_csv (pair_trace ! 0) (pair_trace ! 3) 50]"
proof -
  let ?opts = "csv_select csv_defaults 100"
  have opts: "find_by_pid ?opts = 0" "\<not> cpu_excluded ?opts (pair_trace ! 0)" "elapsed pair_trace 0 3 = 50"
    "task_type (pair_trace ! 0) = TSK_RT" "ts_timestamp (pair_trace ! 0) < ts_timestamp (pair_trace ! 3)"
    "ts_cpu (pair_trace ! 0) = 0" "ev (pair_trace ! 0) = 100" "\<not> raw_output ?opts"
    by code_simp+
  then have "core (show_csv ?opts pair_trace 0 csv_init) = core (csv_init\<lparr>out := out csv_init @
      [format_pair ?opts (pair_trace ! 0) (pair_trace ! 3) 50], complete := complete csv_init + 1\<rparr>)"
    using matched_by_event [OF opts(1), of pair_trace 0 csv_init] pair_trace_match by simp
  then show ?thesis using opts(8) by (simp add: core_def csv_init_def format_pair_def)
qed

text \<open>
  C19. Matching by PID: what \<open>show_csv\<close> does with a start record.  A record of an unwanted
  CPU is counted as avoided.  For a locking event (without \<^verbatim>\<open>-s\<close>) the records of the task
  after the start must be suspensions, each followed by its resume record, and then the end
  record; what is written is the time between the start and the end record less the time
  between the suspensions and their resume records.  Otherwise the end record (or an event
  0) must be the next record of the task, but for \<^verbatim>\<open>-s\<close>, and what is written is the distance
  of the time stamps, which must increase.  The records are joined by an unbroken run of
  sequence numbers, and no interrupt disturbs the task while it runs, unless \<^verbatim>\<open>-x\<close> is given.
  When a start record has no such end, nothing is written, and it is counted as incomplete
  unless an interrupt has ended the search.
\<close>

theorem matched_by_pid:
  assumes "find_by_pid opts \<noteq> 0"
  shows "(cpu_excluded opts (a ! i) \<longrightarrow>
      core (show_csv opts a i c) = core (c\<lparr>avoided := avoided c + 1\<rparr>)) \<and>
    (\<not> cpu_excluded opts (a ! i) \<longrightarrow>
      (\<forall>j t s. pid_pair opts a i j t s \<longrightarrow>
         core (show_csv opts a i c) =
           core (c\<lparr>out := out c @ [format_pair opts (a ! i) (a ! j) (of_nat t)], complete := complete c + 1\<rparr>) \<and>
         pid_reach a i j \<and> t + s = elapsed a i j \<and> unat (of_nat t :: u64) = t) \<and>
      ((\<nexists>j t s. pid_pair opts a i j t s) \<longrightarrow>
         core (show_csv opts a i c) =
           core (if pid_disturbed opts a i then c else c\<lparr>incomplete := incomplete c + 1\<rparr>)))"
proof -
  have exact: "unat (of_nat t :: u64) = t" if "pid_pair opts a i j t s" for j t s
  proof -
    have "t \<le> elapsed a i j" using pid_pair_total [OF that] by linarith
    also have "\<dots> < 2 ^ 48" by (rule elapsed_less)
    finally show ?thesis by (simp add: unat_of_nat)
  qed
  show ?thesis
    unfolding show_csv_core
    using outcome_excluded [of opts a i] outcome_by_pid [OF assms, of a i] pid_pair_total [of opts a i] exact
    by (auto simp: emit_def)
qed

definition lock_trace :: "timestamp list" where
  "lock_trace =
     [stamp 100 1 1 0 30, stamp 120 1 2 0 38, stamp 125 2 3 0 100, stamp 180 1 4 0 39,
      stamp 195 1 5 0 31]"

lemma lock_trace_path: "exec_path (csv_select csv_defaults 30) lock_trace 31 0 4 35 60"
proof -
  let ?acc = "accumulate_exec_time (csv_select csv_defaults 30) lock_trace 0 31 csv_init"
  have run: "fst ?acc = Some 4" "fst (snd ?acc) = 35" "elapsed lock_trace 0 4 = 95" by code_simp+
  from accumulate_result [of "csv_select csv_defaults 30" lock_trace 0 31 csv_init] obtain r tot fl c' where
    acc: "?acc = (r, tot, fl, c')"
    and r: "\<forall>j. r = Some j \<longleftrightarrow> (\<exists>t s. exec_path (csv_select csv_defaults 30) lock_trace 31 0 j t s)"
    and tot: "\<forall>j t s. exec_path (csv_select csv_defaults 30) lock_trace 31 0 j t s \<longrightarrow> tot = of_nat t"
    by (elim exE conjE)
  have "r = Some 4" using run(1) acc by simp
  with r obtain t s where path: "exec_path (csv_select csv_defaults 30) lock_trace 31 0 4 t s"
    by blast
  have sum: "t + s = 95" using exec_path_total [OF path] run(3) by simp
  then have "unat (of_nat t :: u64) = t" by (simp add: unat_of_nat)
  moreover have "of_nat t = (35 :: u64)" using tot [rule_format, OF path] run(2) acc by simp
  ultimately have "t = 35" by simp
  with sum path show ?thesis by simp
qed

theorem matched_by_pid_witness:
  "out (show_csv (csv_select csv_defaults 30) lock_trace 0 csv_init) =
     [print_pair_csv (lock_trace ! 0) (lock_trace ! 4) 35]"
proof -
  let ?opts = "csv_select csv_defaults 30"
  have opts: "find_by_pid ?opts \<noteq> 0" "\<not> cpu_excluded ?opts (lock_trace ! 0)" "locking ?opts lock_trace 0"
    "ev (lock_trace ! 0) + 1 = 31" "\<not> raw_output ?opts"
    by code_simp+
  then have "pid_pair ?opts lock_trace 0 4 35 60" using lock_trace_path by (simp add: pid_pair_def)
  then have "core (show_csv ?opts lock_trace 0 csv_init) = core (csv_init\<lparr>out := out csv_init @
      [format_pair ?opts (lock_trace ! 0) (lock_trace ! 4) 35], complete := complete csv_init + 1\<rparr>)"
    using matched_by_pid [OF opts(1), of lock_trace 0 csv_init] opts(2) by fastforce
  then show ?thesis using opts(5) by (simp add: core_def csv_init_def format_pair_def)
qed

text \<open>
  C20. The report of an event: the output is one line per reported start record, in the
  order of the trace, from the first end record on, and the counters (modulo \<open>2 ^ 32\<close>) are
  the numbers of start records with the respective outcome; together with those dropped
  because of an interrupt, they account for every start record.  The event is called absent
  exactly when the trace has no end record of it.
\<close>

theorem report_counts:
  "let c = show_id opts a eid csv_init in
    out c = concat (map (report opts a) (starts a eid)) \<and>
    complete c = of_nat (length (out c)) \<and>
    incomplete c = number (\<lambda>i. outcome opts a i = Incomplete) (starts a eid) \<and>
    non_rt c = number (\<lambda>i. outcome opts a i = Non_rt) (starts a eid) \<and>
    avoided c = number (\<lambda>i. outcome opts a i = Avoided) (starts a eid) \<and>
    skipped c = of_nat (length (takeWhile (\<lambda>r. ev r \<noteq> eid + 1) a)) \<and>
    of_nat (length (starts a eid)) = complete c + incomplete c + non_rt c + avoided c +
      number (\<lambda>i. outcome opts a i = Disturbed) (starts a eid) \<and>
    (length a < 2 ^ 32 \<longrightarrow> reported_absent a c \<longleftrightarrow> (\<forall>r \<in> set a. ev r \<noteq> eid + 1))"
proof -
  have n: "number (\<lambda>x. x = y) (map f xs) = number (\<lambda>i. f i = y) xs" for y and f :: "nat \<Rightarrow> outcome" and xs
    by (simp add: number_def filter_map o_def)
  let ?c = "show_id opts a eid csv_init"
  note counts = show_id_counts [OF refl refl, of opts a eid]
  have "complete ?c = number (\<lambda>i. \<exists>j t. outcome opts a i = Reported j t) (starts a eid)"
    unfolding counts(2) counts(1) by (rule reports_length)
  moreover have "reported_absent a ?c \<longleftrightarrow> (\<forall>r \<in> set a. ev r \<noteq> eid + 1)" if "length a < 2 ^ 32"
  proof -
    have "length (takeWhile (\<lambda>r. ev r \<noteq> eid + 1) a) < 2 ^ 32"
      using length_takeWhile_le [of "\<lambda>r. ev r \<noteq> eid + 1" a] that by linarith
    then have "unat (skipped ?c) = length (takeWhile (\<lambda>r. ev r \<noteq> eid + 1) a)"
      using counts(6) by (simp add: unat_of_nat skip_to_end_eq)
    then have "reported_absent a ?c \<longleftrightarrow> takeWhile (\<lambda>r. ev r \<noteq> eid + 1) a = a"
      using takeWhile_eq_take [of "\<lambda>r. ev r \<noteq> eid + 1" a] by (metis reported_absent_def take_all_iff order_refl)
    then show ?thesis by (simp add: takeWhile_eq_all_conv)
  qed
  ultimately show ?thesis
    using counts(1-5) outcomes_partition [of "starts a eid" opts a] counts(6)
    unfolding n skip_to_end_eq Let_def by simp
qed

theorem report_counts_witness:
  "let c = show_id csv_defaults pair_trace 100 csv_init in
     complete c = of_nat (length (out c)) \<and> \<not> reported_absent pair_trace c"
proof -
  have "length pair_trace < 2 ^ 32" "\<exists>r \<in> set pair_trace. ev r = 100 + 1"
    by (simp_all add: pair_trace_def ev_def)
  then show ?thesis using report_counts [of csv_defaults pair_trace 100] unfolding Let_def by simp
qed

text \<open>
  C21. A single-record event: one line per real-time record of the event on a wanted CPU,
  in the order of the trace, with matching counters.  Nothing counts as skipped, so the
  event is never called absent unless the trace is empty.
\<close>

theorem single_records_report:
  "let c = show_single_records opts a eid csv_init;
       hits = filter (\<lambda>r. ev r = eid \<and> \<not> cpu_excluded opts r \<and> task_type r = TSK_RT) a
   in out c = map (single_fmt opts) hits \<and> complete c = of_nat (length hits) \<and>
      avoided c = number (\<lambda>r. ev r = eid \<and> cpu_excluded opts r) a \<and>
      non_rt c = number (\<lambda>r. ev r = eid \<and> \<not> cpu_excluded opts r \<and> task_type r \<noteq> TSK_RT) a \<and>
      (reported_absent a c \<longleftrightarrow> a = [])"
  using show_single_records_out [of opts a eid csv_init]
  by (simp add: Let_def csv_init_def single_hits_def reported_absent_def)

text \<open>
  C22. \<^verbatim>\<open>ft2csv -l\<close> lists the events of a trace, each once and in the order of first
  appearance, and what is printed for an event is accepted as the argument that selects it.
\<close>

theorem list_ids_roundtrip:
  "\<exists>names. list_ids a = map (\<lambda>name. Text (name @ newline)) names \<and>
     map str2event names = map (\<lambda>e. (1, Some (ucast e))) (first_seen (map ts_event a)) \<and>
     distinct (first_seen (map ts_event a)) \<and> set (first_seen (map ts_event a)) = ts_event ` set a"
proof -
  obtain name where name: "\<And>e. id_line e = name e @ newline \<and> str2event (name e) = (1, Some (ucast e))"
    using id_line_str2event by metis
  show ?thesis
    by (intro exI [of _ "map name (first_seen (map ts_event a))"])
      (simp add: name list_ids_eq, simp add: first_seen_def)
qed

text \<open>
  C23. The binary output: a duration is written as a \<^verbatim>\<open>float\<close> with a relative error of at
  most \<open>2 ^ - 24\<close>, exactly when it is below \<open>2 ^ 24\<close>, and longer durations never come out
  shorter.
\<close>

theorem raw_output_precision:
  assumes "print_pair_bin r r' t = Float x"
  shows "\<bar>x - of_nat (unat t)\<bar> * 2 ^ 24 \<le> of_nat (unat t) \<and>
    (unat t < 2 ^ 24 \<longrightarrow> x = of_nat (unat t)) \<and>
    (\<forall>u y. t \<le> u \<and> print_pair_bin r r' u = Float y \<longrightarrow> x \<le> y)"
proof -
  have x: "x = round_bits 24 (of_nat (unat t))"
    using assms by (simp add: print_pair_bin_def to_float_def)
  have "\<bar>x - of_nat (unat t)\<bar> * 2 ^ 24 \<le> of_nat (unat t)"
  proof (cases "unat t = 0")
    case False
    then have "0 < (of_nat (unat t) :: rat)" by (simp only: of_nat_0_less_iff)
    then show ?thesis unfolding x by (rule fl_error) simp
  qed (simp add: x round_bits_def)
  moreover have "round_bits 24 (of_nat (unat t)) \<le> round_bits 24 (of_nat (unat u))" if "t \<le> u" for u
    using that by (intro fl_mono_nat) (simp_all add: word_le_nat_alt)
  ultimately show ?thesis
    using fl_of_nat [of "unat t" 24] by (auto simp: x print_pair_bin_def to_float_def)
qed

theorem raw_output_precision_witness:
  "\<exists>x. print_pair_bin (pair_trace ! 0) (pair_trace ! 3) 50 = Float x \<and> x = 50"
  using raw_output_precision [of "pair_trace ! 0" "pair_trace ! 3" 50]
  by (simp add: print_pair_bin_def)

section \<open>Printing a sorted trace\<close>

text \<open>
  C38. \<^verbatim>\<open>ftdump\<close> after \<^verbatim>\<open>ftsort\<close>, on the bytes of the file.  When the records of a file
  form a trace as in C1, \<^verbatim>\<open>ftsort FILE\<close> keeps the length of the file and leaves the sorted
  records in it, whatever it leaves in the unused bytes of the records; and \<^verbatim>\<open>ftdump FILE\<close>
  then prints them one by one, with no warning of a non-consecutive sequence number.
\<close>

theorem ftdump_after_ftsort:
  assumes "faithful_os os contents file_of" and "contents f = Some bs" and "map_error (map_file_rw os f) = 0"
    and "ftsort_options atof ftsort_defaults args = Inr opts" and "\<not> simulate opts"
    and "\<not> swap_byte_order opts" and "length lp0 = MAX_CPUS"
    and "bounded_disorder s0 (ts_records bs)" and "\<forall>r \<in> set (ts_records bs). ts_cpu r \<noteq> 255"
  shows "\<exists>bs' s. ftsort_main atof os lp0 pad args [f] = Inr (bs', s, ftsort_summary (length bs) s) \<and>
    length bs' = length bs \<and> ts_records bs' = recs s \<and>
    map ts_seq_no (recs s) = map (\<lambda>i. s0 + of_nat i) [0..<length (recs s)] \<and>
    (\<forall>os' contents' file_of'. faithful_os os' contents' file_of' \<and> contents' f = Some bs' \<and>
       map_error (map_file os' f) = 0 \<longrightarrow>
       ftdump_main os' [f] = (layout_info @ concat (map dump_record (recs s)), None))"
proof -
  obtain s where run: "ftsort_passes lp0 opts (ts_records bs) = Some s"
    using passes_total [OF assms(7,9)] by blast
  have srt: "map ts_seq_no (recs s) = map (\<lambda>i. s0 + of_nat i) [0..<length (ts_records bs)]"
    using passes_sort [OF run assms(7,6,8)] by blast
  then have len: "length (recs s) = length (ts_records bs)" by (metis length_map length_upt minus_nat.diff_0)
  obtain bs' where out: "ftsort_main atof os lp0 pad args [f] = Inr (bs', s, ftsort_summary (length bs) s)"
    "length bs' = length bs" "ts_records bs' = recs s"
    using ftsort_writes [OF assms(1-5) run len] by blast
  have "dump (recs s) = concat (map dump_record (recs s))"
    using srt len by (intro dump_consecutive [of _ s0]) simp
  then have prints: "ftdump_main os' [f] = (layout_info @ concat (map dump_record (recs s)), None)"
    if "faithful_os os' contents' file_of'" "contents' f = Some bs'" "map_error (map_file os' f) = 0"
    for os' contents' file_of' using ftdump_prints [OF that] out(3) by simp
  have "map ts_seq_no (recs s) = map (\<lambda>i. s0 + of_nat i) [0..<length (recs s)]" using srt len by simp
  with out prints show ?thesis by (intro exI [of _ bs'] exI [of _ s] conjI allI impI) auto
qed

text \<open>A system with one file.\<close>

definition file_os :: "string \<Rightarrow> u8 list \<Rightarrow> os" where
  "file_os name bs =
     \<lparr>os_stat = (\<lambda>f. if f = name then Some (length bs) else None),
      os_open = (\<lambda>f mode. if f = name then 3 else - 1),
      os_mmap = (\<lambda>fd n fl. Some bs), os_madvise = (\<lambda>m n adv. 0)\<rparr>"

lemma file_os_ok:
  "faithful_os (file_os name bs) (\<lambda>f. if f = name then Some bs else None) (\<lambda>fd. name)"
  "map_error (map_file_rw (file_os name bs) name) = 0" "map_error (map_file (file_os name bs) name) = 0"
  by (auto simp: faithful_os_def file_os_def map_file_rw_def map_file_def map_file_with_def split: if_splits)

theorem ftdump_after_ftsort_witness:
  "\<exists>bs' s x. ftsort_main (\<lambda>s. 0) (file_os ''t'' (write_records (\<lambda>i. 0) 0 swapped_trace)) (replicate MAX_CPUS 0)
       (\<lambda>i. 0) [] [''t''] = Inr (bs', s, x) \<and>
     ftdump_main (file_os ''t'' bs') [''t''] = (layout_info @ concat (map dump_record (recs s)), None)"
proof -
  let ?bs = "write_records (\<lambda>i. 0) 0 swapped_trace"
  have recs: "ts_records ?bs = swapped_trace"
    using ts_records_written [of "[]" "\<lambda>i. 0" 0 swapped_trace] by (simp add: TS_SIZE_def)
  have opts: "ftsort_options (\<lambda>s. 0) ftsort_defaults [] = Inr ftsort_defaults" "\<not> simulate ftsort_defaults"
    by (simp_all add: ftsort_defaults_def)
  have one: "(if ''t'' = ''t'' then Some ?bs else None) = Some ?bs" by simp
  have trace: "bounded_disorder 4294967295 (ts_records ?bs)" "\<forall>r \<in> set (ts_records ?bs). ts_cpu r \<noteq> 255"
    unfolding recs by (fact swapped_trace_disorder swapped_trace_facts(2))+
  obtain bs' s where "ftsort_main (\<lambda>s. 0) (file_os ''t'' ?bs) (replicate MAX_CPUS 0) (\<lambda>i. 0) [] [''t''] =
      Inr (bs', s, ftsort_summary (length ?bs) s)"
    and dump: "\<And>os' contents' file_of'. faithful_os os' contents' file_of' \<and> contents' ''t'' = Some bs' \<and>
       map_error (map_file os' ''t'') = 0 \<Longrightarrow>
       ftdump_main os' [''t''] = (layout_info @ concat (map dump_record (recs s)), None)"
    using ftdump_after_ftsort [OF file_os_ok(1) one file_os_ok(2) opts swapped_trace_facts(3,4) trace, of "\<lambda>i. 0"]
    by blast
  moreover have "ftdump_main (file_os ''t'' bs') [''t''] = (layout_info @ concat (map dump_record (recs s)), None)"
    by (rule dump [where contents' = "\<lambda>f. if f = ''t'' then Some bs' else None" and file_of' = "\<lambda>fd. ''t''"])
      (simp add: file_os_ok)
  ultimately show ?thesis by blast
qed

section \<open>Recording\<close>

text \<open>
  C39. \<^verbatim>\<open>ftcat -s SIZE\<close> ends.  With a device that keeps to the contract of \<^verbatim>\<open>read\<close>, at
  most 128 events and a limit on the size that is at least one buffer (4096 bytes) below
  \<open>2 ^ 64\<close> (so not \<^verbatim>\<open>-s -1\<close>), the program returns, whatever the device delivers;
  it has then written less than one buffer more than the limit, and the number of bytes it
  reports is the number it has written.
\<close>

theorem ftcat_size_limit:
  assumes "ftcat_options (env_atol env) ftcat_defaults args = Some opts" and "env_open env f = Some dv"
    and "reads_ok dv" and "stop_after opts \<noteq> 0" and "unat (stop_after opts) + BUF_SIZE \<le> 2 ^ 64"
    and "length events \<le> MAX_EVENTS"
  shows "\<exists>rc s. ftcat_main env args (f # events) = Some (rc, s) \<and>
    total_bytes s = of_nat (length (stdout_bytes s)) \<and>
    length (stdout_bytes s) < unat (stop_after opts) + BUF_SIZE"
  using ftcat_returns [OF assms] unfolding counted_def .

definition endless_device :: device where
  "endless_device = \<lparr>dv_ioctl = (\<lambda>h r. 0), dv_read = (\<lambda>h n. (16, replicate 16 (of_nat n)))\<rparr>"

definition sample_env :: environment where
  "sample_env = \<lparr>env_atol = (\<lambda>s. 1000), env_open = (\<lambda>f. if f = ''ft_trace0'' then Some endless_device else None),
     env_migrate = (\<lambda>cpu. 0), env_cpus = 4\<rparr>"

lemma endless_reads: "reads_ok endless_device"
  by (simp add: reads_ok_def endless_device_def BUF_SIZE_def)

theorem ftcat_size_limit_witness:
  "\<exists>rc s. ftcat_main sample_env [(CHR ''s'', ''1000''), (CHR ''c'', '''')] [''ft_trace0'', ''SCHED_START''] = Some (rc, s) \<and>
     length (stdout_bytes s) < 1000 + 4096"
proof -
  let ?args = "[(CHR ''s'', ''1000''), (CHR ''c'', '''')]"
  let ?opts = "ftcat_defaults\<lparr>stop_after := 1000, want_calibrate := True\<rparr>"
  have "ftcat_options (env_atol sample_env) ftcat_defaults ?args = Some ?opts"
    by (simp add: sample_env_def)
  moreover have "env_open sample_env ''ft_trace0'' = Some endless_device" by (simp add: sample_env_def)
  moreover have "stop_after ?opts \<noteq> 0" "unat (stop_after ?opts) + BUF_SIZE \<le> 2 ^ 64"
    "length [''SCHED_START''] \<le> MAX_EVENTS" by (simp_all add: BUF_SIZE_def MAX_EVENTS_def)
  ultimately have "\<exists>rc s. ftcat_main sample_env ?args [''ft_trace0'', ''SCHED_START''] = Some (rc, s) \<and>
      total_bytes s = of_nat (length (stdout_bytes s)) \<and>
      length (stdout_bytes s) < unat (stop_after ?opts) + BUF_SIZE"
    using ftcat_size_limit [OF _ _ endless_reads] by blast
  then show ?thesis by (auto simp: BUF_SIZE_def)
qed



end
